(* ===== verification/Prelude.thy ===== *)
theory Prelude
  imports Main "HOL-Library.Word"
begin

text \<open>
  Shared vocabulary of the development: the machine integers of the code at their width
  (the target is 64-bit, so \<open>usize\<close> is a 64-bit word), panics and errors as values of a
  sum, Rust's arithmetic with and without overflow checks, and the rounding expression
  \<open>(n + a - 1) & !(a - 1)\<close> that \<open>MemFd::create\<close> and \<open>BumpAllocator::alloc\<close> both use.
\<close>

unbundle bit_operations_syntax

section \<open>Machine integers, panics, errors\<close>

type_synonym u32 = "32 word"
type_synonym u64 = "64 word"
type_synonym usize = "64 word"

text \<open>
  A panic is the value of a computation that did not return. \<open>OutOfBoundsWrite\<close> stands for
  a raw pointer write outside its object, which Rust leaves undefined: the model stops there.
\<close>

datatype panic =
    ArithOverflow
  | UnwrapNone
  | IndexOutOfBounds
  | AssertFailed
  | OutOfBoundsWrite
  | PanicMsg string

text \<open>An error is what \<open>anyhow::Error\<close> or \<open>io::Error\<close> shows: its message, or an errno.\<close>

datatype error =
    Anyhow string
  | OsError nat

type_synonym 'a outcome = "panic + 'a"
type_synonym 'a result = "error + 'a"

named_theorems run_simps \<open>equations that run the sequencing of fallible steps\<close>

definition bind_sum :: "'e + 'a \<Rightarrow> ('a \<Rightarrow> 'e + 'b) \<Rightarrow> 'e + 'b" where
  "bind_sum m f = (case m of Inl e \<Rightarrow> Inl e | Inr x \<Rightarrow> f x)"

lemma bind_sum_simps [simp, run_simps]:
  "bind_sum (Inl e) f = Inl e"
  "bind_sum (Inr x) f = f x"
  by (simp_all add: bind_sum_def)

lemma bind_sum_Inr_iff:
  "bind_sum m f = Inr y \<longleftrightarrow> (\<exists>x. m = Inr x \<and> f x = Inr y)"
  by (cases m) auto

lemma bind_sum_assoc: "bind_sum (bind_sum m f) g = bind_sum m (\<lambda>x. bind_sum (f x) g)"
  by (cases m) auto

section \<open>Rust arithmetic\<close>

text \<open>
  The flag is the profile's \<open>overflow-checks\<close>: set in a debug build, where an overflow
  panics, clear in a release build, where the value wraps. The manifest sets neither, so
  every definition that can overflow takes the flag.
\<close>

definition add_ck :: "bool \<Rightarrow> 'a::len word \<Rightarrow> 'a word \<Rightarrow> 'a word outcome" where
  "add_ck oc a b =
     (if oc \<and> 2 ^ LENGTH('a) \<le> unat a + unat b then Inl ArithOverflow else Inr (a + b))"

definition sub_ck :: "bool \<Rightarrow> 'a::len word \<Rightarrow> 'a word \<Rightarrow> 'a word outcome" where
  "sub_ck oc a b = (if oc \<and> a < b then Inl ArithOverflow else Inr (a - b))"

lemma unat_add_no_overflow:
  fixes a b :: "'a::len word"
  assumes "unat a + unat b < 2 ^ LENGTH('a)"
  shows "unat (a + b) = unat a + unat b"
  using assms by (simp add: unat_word_ariths)

lemma unat_sub_no_underflow:
  fixes a b :: "'a::len word"
  assumes "b \<le> a"
  shows "unat (a - b) = unat a - unat b"
  using assms by (simp add: unat_sub)

lemma add_ck_ok:
  fixes a b :: "'a::len word"
  assumes "unat a + unat b < 2 ^ LENGTH('a)"
  shows "add_ck oc a b = Inr (a + b)"
  using assms by (simp add: add_ck_def)

lemma sub_ck_ok:
  fixes a b :: "'a::len word"
  assumes "b \<le> a"
  shows "sub_ck oc a b = Inr (a - b)"
  using assms by (simp add: sub_ck_def not_less)

section \<open>Rounding up to a power of two\<close>

definition is_pow2 :: "usize \<Rightarrow> bool" where
  "is_pow2 a = (\<exists>k<64. a = 2 ^ k)"

text \<open>\<open>(n + a - 1) & !(a - 1)\<close>, evaluated left to right as the code has it.\<close>

definition round_up :: "bool \<Rightarrow> usize \<Rightarrow> usize \<Rightarrow> usize outcome" where
  "round_up oc n a =
     bind_sum (add_ck oc n a) (\<lambda>s.
     bind_sum (sub_ck oc s 1) (\<lambda>t.
     bind_sum (sub_ck oc a 1) (\<lambda>m. Inr (t AND NOT m))))"

lemma pow2_minus_mask: "(2::usize) ^ k - 1 = mask k"
  by (simp add: mask_eq_decr_exp)

lemma unat_and_not_mask:
  fixes x :: usize
  shows "unat (x AND NOT (mask k)) = unat x div 2 ^ k * 2 ^ k"
proof -
  have small: "unat x mod 18446744073709551616 = unat x"
    by (rule mod_less) (use unsigned_less [where 'a = nat, of x] in simp)
  have "x AND NOT (mask k) = push_bit k (drop_bit k x)"
    by (rule bit_eqI) (auto simp: bit_simps)
  then have "unat (x AND NOT (mask k)) = unat x div 2 ^ k * 2 ^ k mod 2 ^ 64"
    by (simp only: unsigned_push_bit_eq unsigned_drop_bit_eq)
      (simp add: take_bit_eq_mod push_bit_eq_mult drop_bit_eq_div small)
  also have "\<dots> = unat x div 2 ^ k * 2 ^ k"
    using le_less_trans [OF div_times_less_eq_dividend unsigned_less [of x]] by simp
  finally show ?thesis .
qed

lemma unat_pow2: "k < 64 \<Longrightarrow> unat ((2::usize) ^ k) = 2 ^ k"
  by transfer simp

lemma is_pow2_pos: "is_pow2 a \<Longrightarrow> 0 < unat a"
  by (auto simp: is_pow2_def unat_pow2)

text \<open>Below the overflow line the expression is the least multiple of \<open>a\<close> that is at least \<open>n\<close>.\<close>

lemma round_up_value:
  assumes "is_pow2 a" and "unat n + unat a < 2 ^ 64"
  shows "\<exists>r. round_up oc n a = Inr r \<and> unat r = (unat n + unat a - 1) div unat a * unat a"
proof -
  obtain k where k: "k < 64" "a = 2 ^ k" using assms(1) by (auto simp: is_pow2_def)
  have a1: "1 \<le> a" using is_pow2_pos [OF assms(1)] by (simp add: word_le_nat_alt)
  have sum: "unat (n + a) = unat n + unat a"
    using assms(2) by (intro unat_add_no_overflow) simp
  have s1: "1 \<le> n + a"
    using is_pow2_pos [OF assms(1)] sum by (simp add: word_le_nat_alt)
  have run: "round_up oc n a = Inr ((n + a - 1) AND NOT (mask k))"
    using assms(2) by (simp add: round_up_def add_ck_ok sub_ck_ok s1 a1 flip: pow2_minus_mask k(2))
  have "unat (n + a - 1) = unat n + unat a - 1"
    using unat_sub_no_underflow [OF s1] sum by simp
  then show ?thesis
    using run k by (simp add: unat_and_not_mask unat_pow2)
qed

lemma multiple_between:
  fixes n a :: nat
  assumes "0 < a"
  defines "r \<equiv> (n + a - 1) div a * a"
  shows "a dvd r" and "n \<le> r" and "r < n + a" and "a dvd m \<Longrightarrow> n \<le> m \<Longrightarrow> r \<le> m"
proof -
  show "a dvd r" by (simp add: r_def)
  have split: "(n + a - 1) div a * a + (n + a - 1) mod a = n + a - 1" by simp
  have "(n + a - 1) mod a < a" using assms(1) by simp
  then show "n \<le> r" using split assms(1) unfolding r_def by linarith
  show "r < n + a" using split assms(1) unfolding r_def by linarith
  show "r \<le> m" if dvd: "a dvd m" and le: "n \<le> m"
  proof -
    from dvd obtain q where m: "m = a * q" by (rule dvdE)
    have "n + a - 1 < (q + 1) * a" using le m assms(1) by (simp add: algebra_simps)
    then have "(n + a - 1) div a < q + 1" by (simp add: div_less_iff_less_mult assms(1))
    then show ?thesis by (simp add: r_def m mult.commute)
  qed
qed

lemma round_up_ok:
  assumes "is_pow2 a" and "unat n + unat a < 2 ^ 64"
  obtains r where "round_up oc n a = Inr r" and "unat a dvd unat r" and "unat n \<le> unat r"
    and "unat r < unat n + unat a"
    and "\<And>m. unat a dvd m \<Longrightarrow> unat n \<le> m \<Longrightarrow> unat r \<le> m"
proof -
  note bounds = multiple_between [OF is_pow2_pos [OF assms(1)]]
  obtain r where "round_up oc n a = Inr r"
    and "unat r = (unat n + unat a - 1) div unat a * unat a"
    using round_up_value [OF assms] by blast
  then show thesis using that [of r] bounds [where n = "unat n"] by simp
qed

section \<open>Decimal printing\<close>

text \<open>What \<open>format!\<close> prints for an unsigned and a signed integer.\<close>

definition digit_char :: "nat \<Rightarrow> char" where
  "digit_char d = char_of (48 + d)"

fun show_nat :: "nat \<Rightarrow> string" where
  "show_nat n =
     (if n < 10 then [digit_char n] else show_nat (n div 10) @ [digit_char (n mod 10)])"

declare show_nat.simps [simp del]

definition show_int :: "int \<Rightarrow> string" where
  "show_int i = (if i < 0 then CHR ''-'' # show_nat (nat (- i)) else show_nat (nat i))"

lemma show_nat_nonempty [simp]: "show_nat n \<noteq> []"
  by (subst show_nat.simps) simp

end
