(* ===== verification/Clock.thy ===== *)
theory Clock
  imports Prelude
begin

text \<open>
  \<open>util/clock.rs\<close>. An \<open>Instant\<close> is a number of nanoseconds of the monotone clock; every
  reading of the clock is an argument of the operation that makes it. \<open>Timer\<close> keeps its
  start as nanoseconds since a reference instant, truncated to 64 bits; \<open>SplitTimer\<close> is a
  ring of \<open>S\<close> timers with a 64-bit index that counts resets.
\<close>

type_synonym instant = nat

text \<open>\<open>Instant::duration_since\<close> stops at zero; \<open>as_nanos() as u64\<close> keeps the low 64 bits.\<close>

definition nanos_since :: "instant \<Rightarrow> instant \<Rightarrow> u64" where
  "nanos_since now reference = word_of_nat (now - reference)"

section \<open>Timer\<close>

record timer =
  tstart :: u64
  treference :: instant

definition Timer_new :: "instant \<Rightarrow> instant \<Rightarrow> timer" where
  "Timer_new t0 t1 = \<lparr>tstart = nanos_since t1 t0, treference = t0\<rparr>"

definition Timer_elapsed :: "instant \<Rightarrow> timer \<Rightarrow> u64" where
  "Timer_elapsed t tm =
     (let now = nanos_since t (treference tm); start = tstart tm in
      if now \<le> start then 0 else now - start)"

definition Timer_reset :: "instant \<Rightarrow> timer \<Rightarrow> timer" where
  "Timer_reset t tm = tm\<lparr>tstart := nanos_since t (treference tm)\<rparr>"

section \<open>SplitTimer\<close>

text \<open>The const parameter \<open>S\<close> is the length of the array of timers.\<close>

record split_timer =
  timers :: "timer list"
  index :: u64

text \<open>One pair of clock readings for each timer of the array.\<close>

definition SplitTimer_new :: "(instant \<times> instant) list \<Rightarrow> split_timer" where
  "SplitTimer_new readings =
     \<lparr>timers = map (\<lambda>(t0, t1). Timer_new t0 t1) readings, index = 0\<rparr>"

definition slot :: "nat \<Rightarrow> u64 \<Rightarrow> nat" where
  "slot S i = unat i mod S"

definition SplitTimer_reset :: "instant \<Rightarrow> split_timer \<Rightarrow> split_timer" where
  "SplitTimer_reset t st =
     (if timers st = [] then st
      else let orig = index st; j = slot (length (timers st)) orig in
        st\<lparr>index := orig + 1, timers := (timers st)[j := Timer_reset t (timers st ! j)]\<rparr>)"

definition cookie :: "split_timer \<Rightarrow> u64" where
  "cookie st = index st"

definition SplitTimer_elapsed :: "bool \<Rightarrow> instant \<Rightarrow> u64 \<Rightarrow> split_timer \<Rightarrow> u64 option outcome" where
  "SplitTimer_elapsed oc t c st =
     (if timers st = [] then Inr None
      else let v = Timer_elapsed t (timers st ! slot (length (timers st)) c) in
        bind_sum (add_ck oc c (word_of_nat (length (timers st)))) (\<lambda>limit.
          Inr (if limit \<le> index st then None else Some v)))"

section \<open>Timer lemmas\<close>

lemma unat_nanos_since: "t - r < 2 ^ 64 \<Longrightarrow> unat (nanos_since t r) = t - r"
  by (simp add: nanos_since_def unat_of_nat)

lemma elapsed_after_reset:
  assumes "treference tm \<le> t" and "t \<le> t'" and "t' - treference tm < 2 ^ 64"
  shows "unat (Timer_elapsed t' (Timer_reset t tm)) = t' - t"
proof -
  have "unat (nanos_since t (treference tm)) = t - treference tm"
    "unat (nanos_since t' (treference tm)) = t' - treference tm"
    using assms by (simp_all add: unat_nanos_since)
  then show ?thesis
    using assms by (auto simp: Timer_elapsed_def Timer_reset_def Let_def word_le_nat_alt not_le
        unat_sub_no_underflow)
qed

lemma Timer_reset_reference [simp]: "treference (Timer_reset t tm) = treference tm"
  by (simp add: Timer_reset_def)

section \<open>The ring after a history of resets\<close>

text \<open>
  \<open>run_resets\<close> performs resets at the given instants. The invariant that relates the ring to
  the history: the index counts the resets, and slot \<open>j\<close> was last reset by the greatest
  reset number below the count that falls on it.
\<close>

definition run_resets :: "instant list \<Rightarrow> split_timer \<Rightarrow> split_timer" where
  "run_resets ts st = fold SplitTimer_reset ts st"

lemma run_resets_snoc: "run_resets (ts @ [t]) st = SplitTimer_reset t (run_resets ts st)"
  by (simp add: run_resets_def)

lemma reset_shape [simp]:
  "length (timers (SplitTimer_reset t st)) = length (timers st)"
  by (simp add: SplitTimer_reset_def Let_def)

lemma run_resets_shape [simp]: "length (timers (run_resets ts st)) = length (timers st)"
  by (induction ts rule: rev_induct) (auto simp: run_resets_snoc run_resets_def [of "[]"])

lemma run_resets_index:
  assumes "timers st \<noteq> []" and "index st = 0" and "length ts < 2 ^ 64"
  shows "index (run_resets ts st) = word_of_nat (length ts)"
  using assms(3)
proof (induction ts rule: rev_induct)
  case Nil
  then show ?case using assms(2) by (simp add: run_resets_def)
next
  case (snoc t ts)
  have "timers (run_resets ts st) \<noteq> []"
    using assms(1) run_resets_shape [of ts st] by (metis length_0_conv)
  with snoc show ?case by (simp add: run_resets_snoc SplitTimer_reset_def Let_def)
qed

lemma run_resets_reference:
  "j < length (timers st) \<Longrightarrow> treference (timers (run_resets ts st) ! j) = treference (timers st ! j)"
proof (induction ts rule: rev_induct)
  case Nil
  then show ?case by (simp add: run_resets_def)
next
  case (snoc t ts)
  moreover have "timers (run_resets ts st) \<noteq> []"
    using snoc.prems run_resets_shape [of ts st] by (metis length_0_conv not_less_zero)
  ultimately show ?case
    by (cases "slot (length (timers st)) (index (run_resets ts st)) = j")
      (simp_all add: run_resets_snoc SplitTimer_reset_def Let_def)
qed

lemma unat_word_count: "n < 2 ^ 64 \<Longrightarrow> unat (word_of_nat n :: u64) = n"
  by (simp add: unat_of_nat)

lemma mod_apart:
  fixes n c S :: nat
  assumes "c < n" and "n < c + S"
  shows "n mod S \<noteq> c mod S"
proof
  assume "n mod S = c mod S"
  then have "S dvd n - c" using assms(1) by (simp add: mod_eq_dvd_iff_nat)
  then show False using assms by (auto dest: dvd_imp_le)
qed

lemma slot_holds_reset:
  assumes "timers st \<noteq> []" and "index st = 0" and "length ts < 2 ^ 64"
    and "c < length ts" and "length ts \<le> c + length (timers st)"
  defines "j \<equiv> c mod length (timers st)"
  shows "tstart (timers (run_resets ts st) ! j) = nanos_since (ts ! c) (treference (timers st ! j))"
  using assms(3-5)
proof (induction ts rule: rev_induct)
  case Nil
  then show ?case by simp
next
  case (snoc t ts)
  let ?S = "length (timers st)" and ?st = "run_resets ts st"
  have S: "0 < ?S" and j: "j < ?S" using assms(1) by (simp_all add: j_def)
  have ne: "timers ?st \<noteq> []" using S run_resets_shape [of ts st] by (metis length_greater_0_conv)
  have idx: "index ?st = word_of_nat (length ts)"
    using snoc.prems(1) run_resets_index [OF assms(1,2)] by simp
  have slot: "slot ?S (index ?st) = length ts mod ?S"
    using snoc.prems(1) by (simp add: slot_def idx unat_word_count)
  show ?case
  proof (cases "c = length ts")
    case True
    then show ?thesis
      using ne j slot run_resets_reference [OF j, of ts]
      by (simp add: run_resets_snoc SplitTimer_reset_def Let_def Timer_reset_def j_def)
  next
    case False
    then have lt: "c < length ts" "length ts < c + ?S" using snoc.prems by simp_all
    from mod_apart [OF this] have "length ts mod ?S \<noteq> j" by (simp add: j_def)
    then show ?thesis
      using snoc lt ne slot
      by (simp add: run_resets_snoc SplitTimer_reset_def Let_def nth_append)
  qed
qed

section \<open>Properties\<close>

text \<open>
  C29. What a cookie measures: on a ring of \<open>S > 0\<close> timers, after any history of resets, the
  cookie \<open>c\<close> of a reset that has happened yields exactly the time since that reset as long
  as fewer than \<open>S\<close> resets followed the cookie, however many resets that was, and \<open>None\<close>
  from then on; it never yields the time since another reset. The instants are those of a
  monotone clock within 64 bits of nanoseconds.
\<close>
theorem split_timer_elapsed:
  assumes "timers st \<noteq> []" and "index st = 0"
    and "c < length ts" and "c + length (timers st) < 2 ^ 64" and "length ts < 2 ^ 64"
    and "\<forall>tm\<in>set (timers st). treference tm \<le> ts ! c \<and> t - treference tm < 2 ^ 64"
    and "ts ! c \<le> t"
  shows "SplitTimer_elapsed oc t (word_of_nat c) (run_resets ts st) =
    Inr (if c + length (timers st) \<le> length ts then None else Some (word_of_nat (t - ts ! c)))"
proof -
  let ?S = "length (timers st)" and ?st = "run_resets ts st" and ?j = "c mod length (timers st)"
  have ne: "timers ?st \<noteq> []"
    using assms(1) run_resets_shape [of ts st] by (metis length_greater_0_conv)
  have slot: "slot ?S (word_of_nat c) = ?j"
    using assms(3,5) by (simp add: slot_def unat_word_count)
  have limit: "add_ck oc (word_of_nat c) (word_of_nat ?S) = Inr (word_of_nat (c + ?S) :: u64)"
    using assms(4) by (simp add: add_ck_ok unat_word_count)
  have past: "(word_of_nat (c + ?S) :: u64) \<le> index ?st \<longleftrightarrow> c + ?S \<le> length ts"
    using assms(4,5) run_resets_index [OF assms(1,2,5)]
    by (simp add: word_le_nat_alt unat_word_count del: of_nat_add)
  have reading: "Timer_elapsed t (timers ?st ! ?j) = word_of_nat (t - ts ! c)"
    if "\<not> c + ?S \<le> length ts"
  proof -
    let ?tm = "timers st ! ?j"
    have j: "?j < ?S" using assms(1) by simp
    have tm: "treference ?tm \<le> ts ! c" "t - treference ?tm < 2 ^ 64"
      using assms(6) j by auto
    have "tstart (timers ?st ! ?j) = nanos_since (ts ! c) (treference ?tm)"
      using slot_holds_reset [OF assms(1,2,5,3)] that by simp
    then have "Timer_elapsed t (timers ?st ! ?j) = Timer_elapsed t (Timer_reset (ts ! c) ?tm)"
      using run_resets_reference [OF j] by (simp add: Timer_elapsed_def Timer_reset_def)
    also have "\<dots> = word_of_nat (t - ts ! c)"
      using elapsed_after_reset [OF tm(1) assms(7) tm(2)] tm
      by (simp add: word_unat_eq_iff unat_word_count le_less_trans [OF diff_le_mono2 tm(2)])
    finally show ?thesis .
  qed
  show ?thesis
    using ne slot limit past reading by (simp add: SplitTimer_elapsed_def)
qed

theorem split_timer_elapsed_witness:
  "SplitTimer_elapsed True 90 0 (run_resets [30, 50] (SplitTimer_new [(0, 1), (2, 3), (4, 5)]))
     = Inr (Some 60)
   \<and> SplitTimer_elapsed True 90 0 (run_resets [30, 50, 60] (SplitTimer_new [(0, 1), (2, 3), (4, 5)]))
     = Inr None"
proof -
  let ?st = "SplitTimer_new [(0, 1), (2, 3), (4, 5)]"
  have st: "timers ?st \<noteq> []" "index ?st = 0" "length (timers ?st) = 3"
    "\<forall>tm\<in>set (timers ?st). treference tm \<le> 30 \<and> 90 - treference tm < 2 ^ 64"
    by (simp_all add: SplitTimer_new_def Timer_new_def)
  show ?thesis
    using split_timer_elapsed [OF st(1,2), of 0 "[30, 50]" 90 True]
      split_timer_elapsed [OF st(1,2), of 0 "[30, 50, 60]" 90 True] st(3,4) by simp
qed

text \<open>
  A single timer is exact: from a reset at \<open>t\<close>, a reading at \<open>t'\<close> is \<open>t' - t\<close> for a
  monotone clock within 64 bits, and a reading that the clock puts before the reset is zero,
  never a wrapped difference.
\<close>
theorem timer_elapsed_exact:
  assumes "treference tm \<le> t" and "t - treference tm < 2 ^ 64" and "t' - treference tm < 2 ^ 64"
  shows "unat (Timer_elapsed t' (Timer_reset t tm)) = t' - t"
proof (cases "t \<le> t'")
  case True
  with assms show ?thesis by (intro elapsed_after_reset) simp_all
next
  case False
  then have "t' - treference tm \<le> t - treference tm" by (intro diff_le_mono) simp
  then show ?thesis
    using False assms by (simp add: Timer_elapsed_def Timer_reset_def Let_def word_le_nat_alt unat_nanos_since)
qed

theorem timer_elapsed_exact_witness:
  "unat (Timer_elapsed 45 (Timer_reset 30 (Timer_new 10 11))) = 15
    \<and> unat (Timer_elapsed 20 (Timer_reset 30 (Timer_new 10 11))) = 0"
  using timer_elapsed_exact [of "Timer_new 10 11" 30 45] timer_elapsed_exact [of "Timer_new 10 11" 30 20]
  by (simp add: Timer_new_def)

end
