(* ===== verification/Reservoir.thy ===== *)
theory Reservoir
  imports Prelude
begin

text \<open>
  \<open>ReservoirSampler\<close> of \<open>util/stats.rs\<close>: an array of \<open>N\<close> slots, uninitialised at first
  (\<open>None\<close>), and a count of the items offered. The random slot that the full reservoir
  overwrites is an argument, below \<open>N\<close>.
\<close>

record 'a reservoir =
  samples :: "'a option list"
  rcount :: usize

definition ReservoirSampler_new :: "nat \<Rightarrow> 'a reservoir" where
  "ReservoirSampler_new N = \<lparr>samples = replicate N None, rcount = 0\<rparr>"

definition sample :: "nat \<Rightarrow> 'a \<Rightarrow> 'a reservoir \<Rightarrow> 'a reservoir" where
  "sample random_index item r =
     (if samples r = [] then r
      else let i = unat (rcount r); r1 = r\<lparr>rcount := rcount r + 1\<rparr> in
        if i < length (samples r) then r1\<lparr>samples := (samples r)[i := Some item]\<rparr>
        else r1\<lparr>samples := (samples r)[random_index := Some item]\<rparr>)"

definition reservoir_reset :: "'a reservoir \<Rightarrow> 'a reservoir" where
  "reservoir_reset r = r\<lparr>rcount := 0\<rparr>"

text \<open>The slots \<open>Distribution::add_all\<close> reads: the first \<open>min(count, N)\<close>.\<close>

definition reservoir_read :: "'a reservoir \<Rightarrow> 'a option list" where
  "reservoir_read r =
     (if samples r = [] then []
      else map (\<lambda>i. samples r ! i) [0 ..< min (unat (rcount r)) (length (samples r))])"

text \<open>A run offers items one after the other, each with its random draw.\<close>

definition sample_all :: "(nat \<times> 'a) list \<Rightarrow> 'a reservoir \<Rightarrow> 'a reservoir" where
  "sample_all items r = fold (\<lambda>(rnd, x). sample rnd x) items r"

lemma reservoir_read_take: "reservoir_read r = take (unat (rcount r)) (samples r)"
  unfolding reservoir_read_def by (rule nth_equalityI) auto

lemma sample_length [simp]: "length (samples (sample i x r)) = length (samples r)"
  by (simp add: sample_def Let_def)

lemma sample_all_snoc: "sample_all (xs @ [(i, x)]) r = sample i x (sample_all xs r)"
  by (simp add: sample_all_def)

lemma sample_all_length [simp]: "length (samples (sample_all xs r)) = length (samples r)"
  by (induction xs rule: rev_induct) (auto simp: sample_all_snoc sample_all_def [of "[]"])

lemma sample_all_count:
  assumes "samples r \<noteq> []" and "rcount r = 0" and "length xs < 2 ^ 64"
  shows "unat (rcount (sample_all xs r)) = length xs"
  using assms(3)
proof (induction xs rule: rev_induct)
  case Nil
  then show ?case using assms(2) by (simp add: sample_all_def)
next
  case (snoc p xs)
  obtain i x where p: "p = (i, x)" by (cases p)
  have ne: "samples (sample_all xs r) \<noteq> []"
    using assms(1) sample_all_length [of xs r] by (metis length_0_conv)
  have "unat (rcount (sample_all xs r)) = length xs" using snoc by simp
  then have "unat (rcount (sample_all xs r) + 1) = length xs + 1"
    using snoc.prems by (subst unat_add_no_overflow) simp_all
  then show ?case
    using ne by (simp add: p sample_all_snoc sample_def Let_def)
qed

text \<open>
  The invariant of a run from an empty count: the slots in use hold offered items, and while
  the reservoir is not full they are exactly the items, in order.
\<close>

definition reservoir_inv :: "'a list \<Rightarrow> 'a reservoir \<Rightarrow> bool" where
  "reservoir_inv xs r \<longleftrightarrow>
     set (take (length xs) (samples r)) \<subseteq> Some ` set xs
     \<and> (length xs \<le> length (samples r) \<longrightarrow> take (length xs) (samples r) = map Some xs)"

lemma take_update_below:
  "i < length xs \<Longrightarrow> take (Suc i) (xs[i := x]) = take i xs @ [x]"
  by (simp add: take_Suc_conv_app_nth)

lemma sample_keeps_inv:
  assumes "reservoir_inv xs r" and "samples r \<noteq> []" and "unat (rcount r) = length xs"
    and "i < length (samples r)"
  shows "reservoir_inv (xs @ [x]) (sample i x r)"
proof (cases "length xs < length (samples r)")
  case True
  then have "sample i x r
      = r\<lparr>rcount := rcount r + 1, samples := (samples r)[length xs := Some x]\<rparr>"
    using assms(2,3) by (simp add: sample_def Let_def)
  with True assms(1) show ?thesis
    by (auto simp: reservoir_inv_def take_update_below)
next
  case False
  then have "sample i x r = r\<lparr>rcount := rcount r + 1, samples := (samples r)[i := Some x]\<rparr>"
    using assms(2,3) by (simp add: sample_def Let_def)
  moreover have "set ((samples r)[i := Some x]) \<subseteq> insert (Some x) (set (samples r))"
    by (rule set_update_subset_insert)
  ultimately show ?thesis
    using False assms(1) by (auto simp: reservoir_inv_def)
qed

lemma sample_all_inv:
  assumes "samples r \<noteq> []" and "rcount r = 0" and "length xs < 2 ^ 64"
    and "\<forall>p\<in>set xs. fst p < length (samples r)"
  shows "reservoir_inv (map snd xs) (sample_all xs r)"
  using assms(3,4)
proof (induction xs rule: rev_induct)
  case Nil
  then show ?case by (simp add: reservoir_inv_def sample_all_def)
next
  case (snoc p xs)
  obtain i x where p: "p = (i, x)" by (cases p)
  have "samples (sample_all xs r) \<noteq> []"
    using assms(1) sample_all_length [of xs r] by (metis length_0_conv)
  then show ?case
    using snoc sample_all_count [OF assms(1,2), of xs]
    by (auto simp: p sample_all_snoc intro!: sample_keeps_inv)
qed

section \<open>Properties\<close>

text \<open>
  Collecting a reservoir reads initialised slots only: after any run of samples on a
  reservoir whose count is zero (new, or reset with stale slots) the slots that are read are
  the first \<open>min(n, N)\<close>, every one holds an item that was offered in this run, and while no
  more than \<open>N\<close> were offered they are the offered items in order.
\<close>
theorem reservoir_reads_offered_items:
  assumes "samples r \<noteq> []" and "length xs < 2 ^ 64"
    and "\<forall>p\<in>set xs. fst p < length (samples r)"
  defines "r' \<equiv> sample_all xs (reservoir_reset r)"
  shows "length (reservoir_read r') = min (length xs) (length (samples r))
    \<and> set (reservoir_read r') \<subseteq> Some ` snd ` set xs
    \<and> (length xs \<le> length (samples r) \<longrightarrow> reservoir_read r' = map (Some \<circ> snd) xs)"
proof -
  let ?r0 = "reservoir_reset r"
  have r0: "samples ?r0 \<noteq> []" "rcount ?r0 = 0" "length (samples ?r0) = length (samples r)"
    using assms(1) by (simp_all add: reservoir_reset_def)
  have "reservoir_inv (map snd xs) r'"
    unfolding r'_def using assms(2,3) r0 by (intro sample_all_inv) simp_all
  moreover have "unat (rcount r') = length xs"
    unfolding r'_def using r0(1,2) assms(2) by (rule sample_all_count)
  moreover have "length (samples r') = length (samples r)" by (simp add: r'_def r0)
  ultimately show ?thesis
    by (auto simp: reservoir_inv_def reservoir_read_take min.commute)
qed

theorem reservoir_reads_offered_items_witness:
  "reservoir_read (sample_all [(0, 5), (1, 6)] (reservoir_reset (ReservoirSampler_new 3)))
     = [Some 5, Some (6 :: nat)]"
proof -
  have "samples (ReservoirSampler_new 3 :: nat reservoir) \<noteq> []"
    by (simp add: ReservoirSampler_new_def)
  from reservoir_reads_offered_items [OF this, of "[(0, 5), (1, 6)]"] show ?thesis
    by (simp add: ReservoirSampler_new_def)
qed

text \<open>
  A sampler of no slots is inert: with \<open>N = 0\<close> sampling changes nothing and nothing is
  ever read, so no slot is touched.
\<close>
theorem empty_reservoir_inert:
  "sample i x (ReservoirSampler_new 0) = ReservoirSampler_new 0
    \<and> reservoir_read (sample_all xs (ReservoirSampler_new 0)) = []"
proof -
  have "length (samples (sample_all xs (ReservoirSampler_new 0))) = 0"
    by (simp add: ReservoirSampler_new_def)
  then have "samples (sample_all xs (ReservoirSampler_new 0)) = []" by (metis length_0_conv)
  then show ?thesis by (simp add: reservoir_read_def sample_def ReservoirSampler_new_def)
qed

end
