(* ===== verification/Semaphore.thy ===== *)
theory Semaphore
  imports Clock Reservoir
begin

text \<open>
  \<open>workloads/semaphore.rs\<close>: the futex semaphore. One 32-bit word holds the amount in its low
  31 bits and the waiter flag in bit 31. \<open>decide\<close> is what an iteration of the loop of
  \<open>consume\<close> or \<open>produce\<close> does with the value it loaded; \<open>sem_act\<close> is one atomic access of one
  thread (a load, a compare-and-swap, a futex call, an access to the statistics), so a list
  of actions is an interleaving of any number of threads.
\<close>

section \<open>The word\<close>

definition WAITER :: u32 where
  "WAITER = 0x80000000"

definition amount_of :: "u32 \<Rightarrow> u32" where
  "amount_of cur = cur AND NOT WAITER"

definition has_waiter :: "u32 \<Rightarrow> bool" where
  "has_waiter cur \<longleftrightarrow> cur AND WAITER = WAITER"

lemma WAITER_push_bit: "WAITER = push_bit 31 1"
  by (simp add: WAITER_def)

lemma bit_WAITER: "bit WAITER n \<longleftrightarrow> n = 31"
  unfolding WAITER_push_bit by (simp only: bit_push_bit_iff bit_1_iff) auto

lemma amount_take_bit: "amount_of cur = take_bit 31 cur"
  unfolding amount_of_def by (rule bit_eqI) (auto simp: bit_simps bit_WAITER)

lemma has_waiter_bit: "has_waiter cur \<longleftrightarrow> bit cur 31"
proof
  assume "has_waiter cur"
  then have "bit (cur AND WAITER) 31" by (simp add: has_waiter_def bit_WAITER)
  then show "bit cur 31" by (simp add: bit_and_iff)
next
  assume "bit cur 31"
  then show "has_waiter cur"
    unfolding has_waiter_def by (intro bit_eqI) (auto simp: bit_and_iff bit_WAITER)
qed

lemma unat_amount: "unat (amount_of cur) = unat cur mod 2 ^ 31"
  unfolding amount_take_bit unsigned_take_bit_eq by (rule take_bit_eq_mod)

lemma amount_less: "unat (amount_of cur) < 2 ^ 31"
  by (simp add: unat_amount)

lemma amount_small: "unat x < 2 ^ 31 \<Longrightarrow> amount_of x = x"
  by (simp add: word_unat_eq_iff unat_amount)

lemma small_no_waiter: "unat x < 2 ^ 31 \<Longrightarrow> \<not> has_waiter x"
  using amount_small [of x] by (metis has_waiter_bit amount_take_bit bit_take_bit_iff less_irrefl)

lemma amount_amount [simp]: "amount_of (amount_of x) = amount_of x"
  by (rule amount_small [OF amount_less])

lemma no_waiter_amount [simp]: "\<not> has_waiter (amount_of x)"
  by (rule small_no_waiter [OF amount_less])

lemma amount_mark [simp]: "amount_of (x OR WAITER) = amount_of x"
  unfolding amount_take_bit by (rule bit_eqI) (auto simp: bit_simps bit_WAITER)

lemma has_waiter_mark [simp]: "has_waiter (x OR WAITER)"
  by (simp add: has_waiter_bit bit_simps bit_WAITER)

section \<open>State\<close>

record sem =
  count :: u32
  smax :: u32
  wake :: split_timer
  sreservoir :: "u64 reservoir"

definition Semaphore_new :: "u32 \<Rightarrow> (instant \<times> instant) list \<Rightarrow> nat \<Rightarrow> sem" where
  "Semaphore_new m readings R =
     \<lparr>count = 0, smax = m AND NOT WAITER, wake = SplitTimer_new readings,
      sreservoir = ReservoirSampler_new R\<rparr>"

definition collect_wake_stats :: "sem \<Rightarrow> u64 option list \<times> sem" where
  "collect_wake_stats s =
     (reservoir_read (sreservoir s), s\<lparr>sreservoir := reservoir_reset (sreservoir s)\<rparr>)"

datatype sem_op = Produce | Consume

text \<open>A call: the operation, the amount, how many waiters to wake, whether it has a timeout.\<close>

record call =
  op :: sem_op
  amt :: u32
  wake_n :: u32
  timed :: bool

section \<open>One iteration of the loop\<close>

datatype decision =
    Exchange u32 bool
  | MarkWaiter u32
  | Sleep u32
  | Abort panic

definition block_decision :: "u32 \<Rightarrow> decision" where
  "block_decision cur = (if has_waiter cur then Sleep cur else MarkWaiter (cur OR WAITER))"

definition consume_decide :: "bool \<Rightarrow> u32 \<Rightarrow> u32 \<Rightarrow> decision" where
  "consume_decide oc v cur =
     (let amount = amount_of cur in
      if v \<le> amount
      then (case sub_ck oc amount v of Inl p \<Rightarrow> Abort p | Inr new \<Rightarrow> Exchange new (has_waiter cur))
      else block_decision cur)"

definition produce_decide :: "bool \<Rightarrow> u32 \<Rightarrow> u32 \<Rightarrow> u32 \<Rightarrow> decision" where
  "produce_decide oc m v cur =
     (case add_ck oc (amount_of cur) v of
        Inl p \<Rightarrow> Abort p
      | Inr new \<Rightarrow> if new \<le> m then Exchange new (has_waiter cur) else block_decision cur)"

definition decide :: "bool \<Rightarrow> u32 \<Rightarrow> call \<Rightarrow> u32 \<Rightarrow> decision" where
  "decide oc m c cur =
     (case op c of
        Consume \<Rightarrow> consume_decide oc (amt c) cur
      | Produce \<Rightarrow> produce_decide oc m (amt c) cur)"

text \<open>Whether a call can go through with an amount: what the loop waits for.\<close>

definition enabled :: "u32 \<Rightarrow> call \<Rightarrow> u32 \<Rightarrow> bool" where
  "enabled m c a = (case op c of
     Consume \<Rightarrow> unat (amt c) \<le> unat a
   | Produce \<Rightarrow> unat a + unat (amt c) \<le> unat m)"

definition apply_call :: "call \<Rightarrow> nat \<Rightarrow> nat" where
  "apply_call c a = (case op c of Consume \<Rightarrow> a - unat (amt c) | Produce \<Rightarrow> a + unat (amt c))"

lemma decide_enabled:
  assumes "unat (amt c) < 2 ^ 31" and "enabled m c (amount_of cur)"
  obtains new where "decide oc m c cur = Exchange new (has_waiter cur)"
    and "unat new = apply_call c (unat (amount_of cur))"
proof (cases "op c")
  case Produce
  have "unat (amount_of cur) + unat (amt c) < 2 ^ 32"
    using assms(1) amount_less [of cur] by simp
  then have "unat (amount_of cur + amt c) = unat (amount_of cur) + unat (amt c)"
    and "add_ck oc (amount_of cur) (amt c) = Inr (amount_of cur + amt c)"
    by (simp_all add: unat_add_no_overflow add_ck_ok)
  then show thesis
    using assms(2) that Produce
    by (simp add: decide_def produce_decide_def enabled_def apply_call_def word_le_nat_alt)
next
  case Consume
  then have "amt c \<le> amount_of cur" using assms(2) by (simp add: enabled_def word_le_nat_alt)
  then show thesis
    using that Consume
    by (simp add: decide_def consume_decide_def apply_call_def sub_ck_ok unat_sub_no_underflow Let_def)
qed

lemma decide_blocked:
  assumes "unat (amt c) < 2 ^ 31" and "\<not> enabled m c (amount_of cur)"
  shows "decide oc m c cur = block_decision cur"
proof (cases "op c")
  case Produce
  have "unat (amount_of cur) + unat (amt c) < 2 ^ 32"
    using assms(1) amount_less [of cur] by simp
  then have "unat (amount_of cur + amt c) = unat (amount_of cur) + unat (amt c)"
    and "add_ck oc (amount_of cur) (amt c) = Inr (amount_of cur + amt c)"
    by (simp_all add: unat_add_no_overflow add_ck_ok)
  then show ?thesis
    using assms(2) Produce by (simp add: decide_def produce_decide_def enabled_def word_le_nat_alt)
next
  case Consume
  then show ?thesis
    using assms(2) by (simp add: decide_def consume_decide_def enabled_def word_le_nat_alt Let_def)
qed

text \<open>The four outcomes of an iteration, for calls of less than \<open>2 ^ 31\<close>.\<close>

lemma decide_cases:
  assumes "unat (amt c) < 2 ^ 31"
  obtains (exchange) new where "decide oc m c cur = Exchange new (has_waiter cur)"
      and "enabled m c (amount_of cur)" and "unat new = apply_call c (unat (amount_of cur))"
    | (mark) "decide oc m c cur = MarkWaiter (cur OR WAITER)"
      and "\<not> enabled m c (amount_of cur)" and "\<not> has_waiter cur"
    | (sleep) "decide oc m c cur = Sleep cur"
      and "\<not> enabled m c (amount_of cur)" and "has_waiter cur"
  using decide_enabled [OF assms, of m cur oc] decide_blocked [OF assms, of m cur oc]
  by (metis block_decision_def)

section \<open>Threads and their atomic steps\<close>

text \<open>
  Where a thread is: outside, before the load, at the head of the loop with the value it
  loaded, between the exchange and the wake-up it owes (first the timer reset, then the
  futex call), between setting the flag and falling asleep (first the cookie, then the futex
  call), asleep, woken but before it takes the sample, or about to return.
\<close>

datatype spc =
    SIdle
  | SLoad call
  | SLoop call u32
  | SWake call
  | SFutexWake call
  | SWait call u32
  | SFutexWait call u32 u64
  | SAsleep call u64
  | SWoken call u64
  | SDone bool
  | SPanic panic

fun is_asleep :: "spc \<Rightarrow> bool" where
  "is_asleep (SAsleep c k) = True"
| "is_asleep _ = False"

text \<open>\<open>produced\<close> and \<open>consumed\<close> are ghosts: the totals of the exchanges that went through.\<close>

record ssys =
  ssem :: sem
  spcs :: "spc list"
  produced :: nat
  consumed :: nat

definition set_spc :: "nat \<Rightarrow> spc \<Rightarrow> ssys \<Rightarrow> ssys" where
  "set_spc t p st = st\<lparr>spcs := (spcs st)[t := p]\<rparr>"

definition set_count :: "u32 \<Rightarrow> ssys \<Rightarrow> ssys" where
  "set_count v st = st\<lparr>ssem := (ssem st)\<lparr>count := v\<rparr>\<rparr>"

definition commit :: "call \<Rightarrow> u32 \<Rightarrow> ssys \<Rightarrow> ssys" where
  "commit c new st =
     (case op c of
        Produce \<Rightarrow> (set_count new st)\<lparr>produced := produced st + unat (amt c)\<rparr>
      | Consume \<Rightarrow> (set_count new st)\<lparr>consumed := consumed st + unat (amt c)\<rparr>)"

text \<open>The head of the loop: decide on the loaded value, then the compare-and-swap.\<close>

definition loop_step :: "bool \<Rightarrow> nat \<Rightarrow> call \<Rightarrow> u32 \<Rightarrow> ssys \<Rightarrow> ssys" where
  "loop_step oc t c cur st =
     (case decide oc (smax (ssem st)) c cur of
        Exchange new w \<Rightarrow>
          if count (ssem st) = cur
          then set_spc t (if w then SWake c else SDone True) (commit c new st)
          else set_spc t (SLoad c) st
      | MarkWaiter new \<Rightarrow>
          if count (ssem st) = cur then set_spc t (SWait c new) (set_count new st)
          else set_spc t (SLoad c) st
      | Sleep v \<Rightarrow> set_spc t (SWait c v) st
      | Abort p \<Rightarrow> set_spc t (SPanic p) st)"

definition run_step :: "bool \<Rightarrow> nat \<Rightarrow> ssys \<Rightarrow> ssys option" where
  "run_step oc t st =
     (case spcs st ! t of
        SLoad c \<Rightarrow> Some (set_spc t (SLoop c (count (ssem st))) st)
      | SLoop c cur \<Rightarrow> Some (loop_step oc t c cur st)
      | SWait c cur \<Rightarrow> Some (set_spc t (SFutexWait c cur (cookie (wake (ssem st)))) st)
      | SFutexWait c cur k \<Rightarrow>
          Some (set_spc t (if count (ssem st) = cur then SAsleep c k else SLoad c) st)
      | SDone _ \<Rightarrow> Some (set_spc t SIdle st)
      | _ \<Rightarrow> None)"

text \<open>
  \<open>FUTEX_WAKE\<close> wakes as many sleepers as it was asked for, or all of them when there are
  fewer; which ones is the kernel's choice. Its argument is read as a signed integer, and
  Linux wakes one waiter when it is not positive.
\<close>

definition wake_limit :: "call \<Rightarrow> nat" where
  "wake_limit c = max 1 (nat (sint (wake_n c)))"

definition sleepers :: "spc list \<Rightarrow> nat list" where
  "sleepers ps = filter (\<lambda>i. is_asleep (ps ! i)) [0 ..< length ps]"

definition wake_choice :: "call \<Rightarrow> nat list \<Rightarrow> spc list \<Rightarrow> bool" where
  "wake_choice c W ps \<longleftrightarrow> distinct W \<and> set W \<subseteq> set (sleepers ps)
     \<and> length W = min (wake_limit c) (length (sleepers ps))"

fun woken :: "spc \<Rightarrow> spc" where
  "woken (SAsleep c k) = SWoken c k"
| "woken p = p"

definition wake_threads :: "nat list \<Rightarrow> spc list \<Rightarrow> spc list" where
  "wake_threads W ps = map (\<lambda>i. if i \<in> set W then woken (ps ! i) else ps ! i) [0 ..< length ps]"

text \<open>After a wake-up the thread samples the latency, unless its cookie is too old.\<close>

definition sample_step :: "bool \<Rightarrow> nat \<Rightarrow> instant \<Rightarrow> nat \<Rightarrow> call \<Rightarrow> u64 \<Rightarrow> ssys \<Rightarrow> ssys" where
  "sample_step oc t now rnd c k st =
     (case SplitTimer_elapsed oc now k (wake (ssem st)) of
        Inl p \<Rightarrow> set_spc t (SPanic p) st
      | Inr None \<Rightarrow> set_spc t (SLoad c) st
      | Inr (Some e) \<Rightarrow>
          set_spc t (SLoad c)
            (st\<lparr>ssem := (ssem st)\<lparr>sreservoir := sample rnd e (sreservoir (ssem st))\<rparr>\<rparr>))"

datatype act =
    Call nat call
  | Run nat
  | Spurious nat
  | ResetWake nat instant
  | WakeUp nat "nat list"
  | Timeout nat
  | Interrupt nat
  | TakeSample nat instant nat

fun act_thread :: "act \<Rightarrow> nat" where
  "act_thread (Call t c) = t"
| "act_thread (Run t) = t"
| "act_thread (Spurious t) = t"
| "act_thread (ResetWake t i) = t"
| "act_thread (WakeUp t W) = t"
| "act_thread (Timeout t) = t"
| "act_thread (Interrupt t) = t"
| "act_thread (TakeSample t i r) = t"

fun sem_act1 :: "bool \<Rightarrow> act \<Rightarrow> ssys \<Rightarrow> ssys option" where
  "sem_act1 oc (Call t c) st =
     (case spcs st ! t of SIdle \<Rightarrow> Some (set_spc t (SLoad c) st) | _ \<Rightarrow> None)"
| "sem_act1 oc (Run t) st = run_step oc t st"
| "sem_act1 oc (Spurious t) st =
     (case spcs st ! t of
        SLoop c cur \<Rightarrow> (case decide oc (smax (ssem st)) c cur of
            Exchange _ _ \<Rightarrow> Some (set_spc t (SLoad c) st)
          | MarkWaiter _ \<Rightarrow> Some (set_spc t (SLoad c) st)
          | _ \<Rightarrow> None)
      | _ \<Rightarrow> None)"
| "sem_act1 oc (ResetWake t now) st =
     (case spcs st ! t of
        SWake c \<Rightarrow> Some (set_spc t (SFutexWake c)
          (st\<lparr>ssem := (ssem st)\<lparr>wake := SplitTimer_reset now (wake (ssem st))\<rparr>\<rparr>))
      | _ \<Rightarrow> None)"
| "sem_act1 oc (WakeUp t W) st =
     (case spcs st ! t of
        SFutexWake c \<Rightarrow>
          if wake_choice c W (spcs st)
          then Some (set_spc t (SDone True) (st\<lparr>spcs := wake_threads W (spcs st)\<rparr>)) else None
      | _ \<Rightarrow> None)"
| "sem_act1 oc (Timeout t) st =
     (case spcs st ! t of
        SAsleep c k \<Rightarrow> if timed c then Some (set_spc t (SDone False) st) else None
      | _ \<Rightarrow> None)"
| "sem_act1 oc (Interrupt t) st =
     (case spcs st ! t of SAsleep c k \<Rightarrow> Some (set_spc t (SLoad c) st) | _ \<Rightarrow> None)"
| "sem_act1 oc (TakeSample t now rnd) st =
     (case spcs st ! t of SWoken c k \<Rightarrow> Some (sample_step oc t now rnd c k st) | _ \<Rightarrow> None)"

definition sem_act :: "bool \<Rightarrow> act \<Rightarrow> ssys \<Rightarrow> ssys option" where
  "sem_act oc a st = (if act_thread a < length (spcs st) then sem_act1 oc a st else None)"

fun sem_run :: "bool \<Rightarrow> act list \<Rightarrow> ssys \<Rightarrow> ssys option" where
  "sem_run oc [] st = Some st"
| "sem_run oc (a # as) st = (case sem_act oc a st of None \<Rightarrow> None | Some st' \<Rightarrow> sem_run oc as st')"

definition sem_init :: "sem \<Rightarrow> nat \<Rightarrow> ssys" where
  "sem_init s n = \<lparr>ssem = s, spcs = replicate n SIdle, produced = 0, consumed = 0\<rparr>"

text \<open>
  The states any interleaving reaches from \<open>n\<close> idle threads, when thread \<open>t\<close> only makes the
  calls that \<open>P t\<close> admits.
\<close>

fun admitted :: "(nat \<Rightarrow> call \<Rightarrow> bool) \<Rightarrow> act \<Rightarrow> bool" where
  "admitted P (Call t c) = P t c"
| "admitted P _ = True"

inductive sem_reach :: "bool \<Rightarrow> (nat \<Rightarrow> call \<Rightarrow> bool) \<Rightarrow> ssys \<Rightarrow> ssys \<Rightarrow> bool" for oc P st0 where
  start: "sem_reach oc P st0 st0"
| step: "sem_reach oc P st0 st \<Longrightarrow> admitted P a \<Longrightarrow> sem_act oc a st = Some st' \<Longrightarrow>
    sem_reach oc P st0 st'"

lemma sem_run_reach:
  assumes "sem_run oc as st = Some st'" and "\<forall>a\<in>set as. admitted P a" and "sem_reach oc P st0 st"
  shows "sem_reach oc P st0 st'"
  using assms
proof (induction as arbitrary: st)
  case Nil
  then show ?case by simp
next
  case (Cons a as)
  then show ?case by (auto split: option.splits intro: sem_reach.step)
qed

section \<open>The four effects of a step\<close>

text \<open>
  A step either moves one thread and leaves the word alone (\<open>quiet\<close>, relative to the maximum
  and the word), or is an exchange, or sets the flag, or is a futex wake-up.
\<close>

fun spc_call :: "spc \<Rightarrow> call option" where
  "spc_call (SLoad c) = Some c"
| "spc_call (SLoop c cur) = Some c"
| "spc_call (SWake c) = Some c"
| "spc_call (SFutexWake c) = Some c"
| "spc_call (SWait c cur) = Some c"
| "spc_call (SFutexWait c cur k) = Some c"
| "spc_call (SAsleep c k) = Some c"
| "spc_call (SWoken c k) = Some c"
| "spc_call _ = None"

definition calls_in :: "(nat \<Rightarrow> call \<Rightarrow> bool) \<Rightarrow> spc list \<Rightarrow> bool" where
  "calls_in P ps \<longleftrightarrow> (\<forall>t < length ps. \<forall>c. spc_call (ps ! t) = Some c \<longrightarrow> P t c)"

abbreviation small_call :: "call \<Rightarrow> bool" where
  "small_call c \<equiv> unat (amt c) < 2 ^ 31"

inductive quiet :: "u32 \<Rightarrow> u32 \<Rightarrow> spc \<Rightarrow> spc \<Rightarrow> bool" for m w where
  q_call: "quiet m w SIdle (SLoad c)"
| q_load: "quiet m w (SLoad c) (SLoop c w)"
| q_retry: "quiet m w (SLoop c cur) (SLoad c)"
| q_flagged: "has_waiter cur \<Longrightarrow> \<not> enabled m c (amount_of cur) \<Longrightarrow> quiet m w (SLoop c cur) (SWait c cur)"
| q_cookie: "quiet m w (SWait c cur) (SFutexWait c cur k)"
| q_block: "quiet m w (SFutexWait c w k) (SAsleep c k)"
| q_again: "quiet m w (SFutexWait c cur k) (SLoad c)"
| q_return: "quiet m w (SDone b) SIdle"
| q_reset: "quiet m w (SWake c) (SFutexWake c)"
| q_timeout: "timed c \<Longrightarrow> quiet m w (SAsleep c k) (SDone False)"
| q_interrupt: "quiet m w (SAsleep c k) (SLoad c)"
| q_sample: "quiet m w (SWoken c k) (SLoad c)"
| q_overflow: "quiet m w (SWoken c k) (SPanic p)"

inductive_cases quiet_to_asleep: "quiet m w p (SAsleep c k)"
inductive_cases quiet_to_wait: "quiet m w p (SWait c cur)"
inductive_cases quiet_to_futex: "quiet m w p (SFutexWait c cur k)"
inductive_cases quiet_from_wake: "quiet m w (SWake c) p"
inductive_cases quiet_from_futex_wake: "quiet m w (SFutexWake c) p"

text \<open>What the invariants look at: the word, the maximum, the ghosts and the threads.\<close>

definition set_view :: "u32 \<Rightarrow> spc list \<Rightarrow> ssys \<Rightarrow> ssys \<Rightarrow> bool" where
  "set_view w ps st st' \<longleftrightarrow> count (ssem st') = w \<and> smax (ssem st') = smax (ssem st) \<and> spcs st' = ps"

abbreviation same_ghosts :: "ssys \<Rightarrow> ssys \<Rightarrow> bool" where
  "same_ghosts st st' \<equiv> produced st' = produced st \<and> consumed st' = consumed st"

abbreviation word_of :: "ssys \<Rightarrow> u32" where
  "word_of st \<equiv> count (ssem st)"

abbreviation max_of :: "ssys \<Rightarrow> u32" where
  "max_of st \<equiv> smax (ssem st)"

definition is_exchange :: "nat \<Rightarrow> call \<Rightarrow> ssys \<Rightarrow> ssys \<Rightarrow> bool" where
  "is_exchange t c st st' \<longleftrightarrow>
     spcs st ! t = SLoop c (word_of st) \<and> enabled (max_of st) c (amount_of (word_of st))
     \<and> unat (word_of st') = apply_call c (unat (amount_of (word_of st)))
     \<and> set_view (word_of st')
         ((spcs st)[t := if has_waiter (word_of st) then SWake c else SDone True]) st st'
     \<and> produced st' = produced st + (if op c = Produce then unat (amt c) else 0)
     \<and> consumed st' = consumed st + (if op c = Consume then unat (amt c) else 0)"

definition is_mark :: "nat \<Rightarrow> call \<Rightarrow> ssys \<Rightarrow> ssys \<Rightarrow> bool" where
  "is_mark t c st st' \<longleftrightarrow>
     spcs st ! t = SLoop c (word_of st) \<and> \<not> enabled (max_of st) c (amount_of (word_of st))
     \<and> \<not> has_waiter (word_of st)
     \<and> set_view (word_of st OR WAITER) ((spcs st)[t := SWait c (word_of st OR WAITER)]) st st'
     \<and> same_ghosts st st'"

definition is_wake_up :: "nat \<Rightarrow> call \<Rightarrow> nat list \<Rightarrow> ssys \<Rightarrow> ssys \<Rightarrow> bool" where
  "is_wake_up t c W st st' \<longleftrightarrow>
     spcs st ! t = SFutexWake c \<and> wake_choice c W (spcs st)
     \<and> set_view (word_of st) ((wake_threads W (spcs st))[t := SDone True]) st st'
     \<and> same_ghosts st st'"

definition is_quiet :: "nat \<Rightarrow> spc \<Rightarrow> ssys \<Rightarrow> ssys \<Rightarrow> bool" where
  "is_quiet t p st st' \<longleftrightarrow>
     quiet (max_of st) (word_of st) (spcs st ! t) p
     \<and> set_view (word_of st) ((spcs st)[t := p]) st st' \<and> same_ghosts st st'"

lemmas effect_defs = is_exchange_def is_mark_def is_wake_up_def is_quiet_def set_view_def

lemma is_quiet_set_spc:
  "quiet (max_of st) (word_of st) (spcs st ! t) p \<Longrightarrow> is_quiet t p st (set_spc t p st)"
  by (simp add: is_quiet_def set_view_def set_spc_def)

lemma loop_step_effect:
  assumes "spcs st ! t = SLoop c cur" and "small_call c"
  shows "(\<exists>p. is_quiet t p st (loop_step oc t c cur st))
    \<or> is_exchange t c st (loop_step oc t c cur st) \<or> is_mark t c st (loop_step oc t c cur st)"
  using assms(2)
proof (cases rule: decide_cases [where oc = oc and m = "max_of st" and cur = cur])
  case (exchange new)
  show ?thesis
  proof (cases "word_of st = cur")
    case True
    then have "is_exchange t c st (loop_step oc t c cur st)"
      using exchange assms(1)
      by (auto simp: loop_step_def effect_defs set_spc_def commit_def set_count_def split: sem_op.splits)
    then show ?thesis by blast
  next
    case False
    then show ?thesis
      using exchange is_quiet_set_spc [of st t "SLoad c"] assms(1)
      by (auto simp: loop_step_def intro: quiet.intros)
  qed
next
  case mark
  show ?thesis
  proof (cases "word_of st = cur")
    case True
    then have "is_mark t c st (loop_step oc t c cur st)"
      using mark assms(1) by (simp add: loop_step_def effect_defs set_spc_def set_count_def)
    then show ?thesis by blast
  next
    case False
    then show ?thesis
      using mark is_quiet_set_spc [of st t "SLoad c"] assms(1)
      by (auto simp: loop_step_def intro: quiet.intros)
  qed
next
  case sleep
  then show ?thesis
    using is_quiet_set_spc [of st t "SWait c cur"] assms(1)
    by (auto simp: loop_step_def intro: quiet.intros)
qed

lemma run_step_effect:
  assumes "run_step oc t st = Some st'" and "\<And>c. spc_call (spcs st ! t) = Some c \<Longrightarrow> small_call c"
  shows "(\<exists>p. is_quiet t p st st') \<or> (\<exists>c. is_exchange t c st st') \<or> (\<exists>c. is_mark t c st st')"
proof -
  have quietI: ?thesis if "st' = set_spc t p st" "quiet (max_of st) (word_of st) (spcs st ! t) p" for p
    using is_quiet_set_spc [OF that(2)] that(1) by blast
  show ?thesis
  proof (cases "spcs st ! t")
    case (SLoop c cur)
    then show ?thesis
      using assms loop_step_effect [OF SLoop, of oc] by (auto simp: run_step_def)
  next
    case (SFutexWait c cur k)
    then have "st' = set_spc t (if word_of st = cur then SAsleep c k else SLoad c) st"
      using assms(1) by (simp add: run_step_def)
    moreover have "quiet (max_of st) (word_of st) (spcs st ! t)
        (if word_of st = cur then SAsleep c k else SLoad c)"
      using SFutexWait by (auto intro: quiet.intros)
    ultimately show ?thesis by (rule quietI)
  next
    case (SLoad c)
    then show ?thesis
      using assms(1) by (intro quietI [of "SLoop c (word_of st)"]) (auto simp: run_step_def q_load)
  next
    case (SWait c cur)
    then show ?thesis
      using assms(1) by (intro quietI [of "SFutexWait c cur (cookie (wake (ssem st)))"])
        (auto simp: run_step_def q_cookie)
  next
    case (SDone b)
    then show ?thesis
      using assms(1) by (intro quietI [of SIdle]) (auto simp: run_step_def q_return)
  qed (use assms(1) in \<open>simp_all add: run_step_def\<close>)
qed

lemma sample_step_effect:
  assumes "spcs st ! t = SWoken c k"
  shows "\<exists>p. is_quiet t p st (sample_step oc t now rnd c k st)"
  using assms
  by (auto simp: sample_step_def effect_defs set_spc_def intro: quiet.intros
      split: sum.splits option.splits)

lemma sem_act_effect:
  assumes "sem_act oc a st = Some st'" and "calls_in (\<lambda>_. small_call) (spcs st)"
  obtains (quiet) t p where "t < length (spcs st)" and "is_quiet t p st st'"
      and "\<And>c. spcs st ! t = SIdle \<Longrightarrow> p = SLoad c \<Longrightarrow> a = Call t c" and "act_thread a = t"
    | (exchange) t c where "t < length (spcs st)" and "is_exchange t c st st'" and "act_thread a = t"
    | (mark) t c where "t < length (spcs st)" and "is_mark t c st st'" and "act_thread a = t"
    | (wake_up) t c W where "t < length (spcs st)" and "is_wake_up t c W st st'" and "act_thread a = t"
proof -
  let ?t = "act_thread a"
  have t: "?t < length (spcs st)" and act: "sem_act1 oc a st = Some st'"
    using assms(1) by (auto simp: sem_act_def split: if_splits)
  have "(\<exists>p. is_quiet ?t p st st' \<and> (\<forall>c. spcs st ! ?t = SIdle \<longrightarrow> p = SLoad c \<longrightarrow> a = Call ?t c))
      \<or> (\<exists>c. is_exchange ?t c st st') \<or> (\<exists>c. is_mark ?t c st st') \<or> (\<exists>c W. is_wake_up ?t c W st st')"
  proof (cases a)
    case (Run u)
    have run: "run_step oc u st = Some st'" and u: "?t = u" using act Run by simp_all
    have "\<And>c. spc_call (spcs st ! u) = Some c \<Longrightarrow> small_call c"
      using assms(2) t Run by (auto simp: calls_in_def)
    from run_step_effect [OF run this] have
      "(\<exists>p. is_quiet u p st st') \<or> (\<exists>c. is_exchange u c st st') \<or> (\<exists>c. is_mark u c st st')" .
    moreover have "spcs st ! u \<noteq> SIdle" using run by (auto simp: run_step_def)
    ultimately show ?thesis unfolding u by blast
  next
    case (TakeSample u now rnd)
    then show ?thesis
      using act sample_step_effect [of st u _ _ oc now rnd] by (auto split: spc.splits)
  qed (use act in \<open>auto simp: effect_defs set_spc_def split: spc.splits decision.splits if_splits
      intro: quiet.intros\<close>)
  then show thesis using that t by metis
qed

section \<open>Invariants of every interleaving\<close>

lemma quiet_call:
  "quiet m w p p' \<Longrightarrow> spc_call p' = Some c \<Longrightarrow> spc_call p = Some c \<or> p = SIdle \<and> p' = SLoad c"
  by (induction rule: quiet.induct) auto

lemma spc_call_woken [simp]: "spc_call (woken p) = spc_call p"
  by (cases p) auto

lemma wake_threads_nth [simp]:
  "t < length ps \<Longrightarrow> wake_threads W ps ! t = (if t \<in> set W then woken (ps ! t) else ps ! t)"
  by (simp add: wake_threads_def)

lemma wake_threads_length [simp]: "length (wake_threads W ps) = length ps"
  by (simp add: wake_threads_def)

lemma calls_in_update:
  assumes "calls_in P ps" and "\<And>c. spc_call p = Some c \<Longrightarrow> P t c"
  shows "calls_in P (ps[t := p])"
  unfolding calls_in_def
proof (intro allI impI)
  fix u c
  assume "u < length (ps[t := p])" and "spc_call (ps[t := p] ! u) = Some c"
  then show "P u c" using assms by (cases "u = t") (auto simp: calls_in_def)
qed

lemma calls_in_wake: "calls_in P ps \<Longrightarrow> calls_in P (wake_threads W ps)"
  by (auto simp: calls_in_def)

lemma calls_in_nth: "calls_in P ps \<Longrightarrow> t < length ps \<Longrightarrow> spc_call (ps ! t) = Some c \<Longrightarrow> P t c"
  by (simp add: calls_in_def)

lemma calls_in_mono: "calls_in P ps \<Longrightarrow> (\<And>t c. P t c \<Longrightarrow> Q t c) \<Longrightarrow> calls_in Q ps"
  by (auto simp: calls_in_def)

lemma calls_in_step:
  assumes "sem_act oc a st = Some st'" and "admitted P a" and "calls_in P (spcs st)"
    and "\<And>t c. P t c \<Longrightarrow> small_call c"
  shows "calls_in P (spcs st')" and "length (spcs st') = length (spcs st)"
proof -
  have small: "calls_in (\<lambda>_. small_call) (spcs st)"
    using assms(3) by (rule calls_in_mono) (rule assms(4))
  have "calls_in P (spcs st') \<and> length (spcs st') = length (spcs st)"
    using assms(1) small
  proof (cases rule: sem_act_effect)
    case (quiet t p)
    have "P t c" if call: "spc_call p = Some c" for c
    proof -
      have q: "quiet (max_of st) (word_of st) (spcs st ! t) p" using quiet(2) by (simp add: is_quiet_def)
      consider "spc_call (spcs st ! t) = Some c" | "spcs st ! t = SIdle" "p = SLoad c"
        using quiet_call [OF q call] by blast
      then show ?thesis
      proof cases
        case 1
        then show ?thesis using assms(3) quiet(1) calls_in_nth by blast
      next
        case 2
        then show ?thesis using quiet(3) assms(2) by simp
      qed
    qed
    then show ?thesis
      using quiet(2) assms(3) by (auto simp: effect_defs intro!: calls_in_update)
  next
    case (exchange t c)
    then have "P t c" using assms(3) by (auto simp: is_exchange_def intro: calls_in_nth)
    then show ?thesis
      using exchange assms(3) by (auto simp: effect_defs intro!: calls_in_update)
  next
    case (mark t c)
    then have "P t c" using assms(3) by (auto simp: is_mark_def intro: calls_in_nth)
    then show ?thesis
      using mark assms(3) by (auto simp: effect_defs intro!: calls_in_update)
  next
    case (wake_up t c W)
    then show ?thesis
      using assms(3) by (auto simp: effect_defs intro!: calls_in_update calls_in_wake)
  qed
  then show "calls_in P (spcs st')" and "length (spcs st') = length (spcs st)" by auto
qed

text \<open>
  Safety: the amount never passes the maximum, and it is exactly what was produced and not
  yet consumed.
\<close>

definition sem_inv :: "ssys \<Rightarrow> bool" where
  "sem_inv st \<longleftrightarrow> unat (max_of st) < 2 ^ 31 \<and> unat (amount_of (word_of st)) \<le> unat (max_of st)
     \<and> produced st = consumed st + unat (amount_of (word_of st))"

lemma exchange_amount:
  assumes "is_exchange t c st st'" and "sem_inv st"
  shows "amount_of (word_of st') = word_of st'" and "\<not> has_waiter (word_of st')"
    and "unat (word_of st') \<le> unat (max_of st)"
proof -
  show le: "unat (word_of st') \<le> unat (max_of st)"
    using assms by (auto simp: is_exchange_def sem_inv_def enabled_def apply_call_def split: sem_op.splits)
  then have "unat (word_of st') < 2 ^ 31" using assms(2) by (simp add: sem_inv_def)
  then show "amount_of (word_of st') = word_of st'" and "\<not> has_waiter (word_of st')"
    by (rule amount_small, rule small_no_waiter)
qed

lemma sem_inv_step:
  assumes "sem_act oc a st = Some st'" and "sem_inv st" and "calls_in (\<lambda>_. small_call) (spcs st)"
  shows "sem_inv st'"
  using assms(1,3)
proof (cases rule: sem_act_effect)
  case (exchange t c)
  note word = exchange_amount [OF exchange(2) assms(2)]
  show ?thesis
    using exchange(2) assms(2) word
    by (auto simp: sem_inv_def is_exchange_def set_view_def enabled_def apply_call_def split: sem_op.splits)
qed (use assms(2) in \<open>auto simp: sem_inv_def effect_defs\<close>)

lemma sem_init_ok:
  assumes "count s = 0" and "unat (smax s) < 2 ^ 31"
  shows "sem_inv (sem_init s n)" and "calls_in P (spcs (sem_init s n))"
  using assms by (auto simp: sem_inv_def sem_init_def calls_in_def unat_amount)

lemma Semaphore_new_ok: "count (Semaphore_new m rs R) = 0" "unat (smax (Semaphore_new m rs R)) < 2 ^ 31"
  using amount_less [of m] by (simp_all add: Semaphore_new_def amount_of_def)

lemma sem_reach_inv:
  assumes "sem_reach oc P st0 st" and "\<And>t c. P t c \<Longrightarrow> small_call c"
    and "sem_inv st0" and "calls_in P (spcs st0)"
  shows "sem_inv st \<and> calls_in P (spcs st) \<and> length (spcs st) = length (spcs st0)"
  using assms(1)
proof (induction rule: sem_reach.induct)
  case start
  then show ?case using assms(3,4) by simp
next
  case (step st a st')
  then have "calls_in (\<lambda>_. small_call) (spcs st)" using assms(2) by (blast intro: calls_in_mono)
  then show ?case
    using step calls_in_step [OF step.hyps(3,2)] sem_inv_step [OF step.hyps(3)] assms(2) by simp
qed

lemma max_step:
  assumes "sem_act oc a st = Some st'" and "calls_in (\<lambda>_. small_call) (spcs st)"
  shows "max_of st' = max_of st"
  using assms by (cases rule: sem_act_effect) (auto simp: effect_defs)

section \<open>Two threads: no wake-up is lost\<close>

text \<open>
  One consumer (thread 0) and one producer (thread 1), the use that \<open>Process\<close> makes of its
  semaphores. A thread that goes to sleep saw the flag and an amount it cannot go on with;
  while it sleeps that stays so, or the other thread owes it a wake-up.
\<close>

definition pair_discipline :: "nat \<Rightarrow> nat \<Rightarrow> nat \<Rightarrow> call \<Rightarrow> bool" where
  "pair_discipline a b t c \<longleftrightarrow>
     t = 0 \<and> op c = Consume \<and> unat (amt c) \<le> a \<or> t = 1 \<and> op c = Produce \<and> unat (amt c) \<le> b"

fun waking :: "spc \<Rightarrow> bool" where
  "waking (SWake c) = True"
| "waking (SFutexWake c) = True"
| "waking _ = False"

definition stuck :: "u32 \<Rightarrow> u32 \<Rightarrow> call \<Rightarrow> bool" where
  "stuck m w c \<longleftrightarrow> has_waiter w \<and> \<not> enabled m c (amount_of w)"

definition about_to_wait :: "spc \<Rightarrow> (call \<times> u32) option" where
  "about_to_wait p = (case p of
     SWait c cur \<Rightarrow> Some (c, cur) | SFutexWait c cur k \<Rightarrow> Some (c, cur) | _ \<Rightarrow> None)"

definition waits_ok :: "u32 \<Rightarrow> spc list \<Rightarrow> bool" where
  "waits_ok m ps \<longleftrightarrow> (\<forall>t < length ps. \<forall>c cur. about_to_wait (ps ! t) = Some (c, cur) \<longrightarrow> stuck m cur c)"

definition sleeps_ok :: "u32 \<Rightarrow> u32 \<Rightarrow> spc list \<Rightarrow> bool" where
  "sleeps_ok m w ps \<longleftrightarrow> (\<forall>t < length ps. \<forall>c k. ps ! t = SAsleep c k \<longrightarrow>
     stuck m w c \<or> (\<exists>u < length ps. u \<noteq> t \<and> waking (ps ! u)))"

lemma waits_ok_update:
  assumes "waits_ok m ps" and "\<And>c cur. about_to_wait p = Some (c, cur) \<Longrightarrow> stuck m cur c"
  shows "waits_ok m (ps[t := p])"
  unfolding waits_ok_def
proof (intro allI impI)
  fix u c cur
  assume "u < length (ps[t := p])" and "about_to_wait (ps[t := p] ! u) = Some (c, cur)"
  then show "stuck m cur c" using assms by (cases "u = t") (auto simp: waits_ok_def)
qed

lemma about_to_wait_woken [simp]: "about_to_wait (woken p) = about_to_wait p"
  by (cases p) (auto simp: about_to_wait_def)

lemma waits_ok_wake: "waits_ok m ps \<Longrightarrow> waits_ok m (wake_threads W ps)"
  by (auto simp: waits_ok_def)

lemma quiet_wait:
  assumes "quiet m w p p'" and "about_to_wait p' = Some (c, cur)"
  shows "stuck m cur c \<or> about_to_wait p = Some (c, cur)"
  using assms by (cases rule: quiet.cases) (auto simp: about_to_wait_def stuck_def)

lemma waits_ok_step:
  assumes "sem_act oc a st = Some st'" and "calls_in (\<lambda>_. small_call) (spcs st)"
    and "waits_ok (max_of st) (spcs st)"
  shows "waits_ok (max_of st') (spcs st')"
  using assms(1,2)
proof (cases rule: sem_act_effect)
  case (quiet t p)
  have "stuck (max_of st) cur c" if w: "about_to_wait p = Some (c, cur)" for c cur
  proof -
    have q: "quiet (max_of st) (word_of st) (spcs st ! t) p" using quiet(2) by (simp add: is_quiet_def)
    from quiet_wait [OF q w] quiet(1) assms(3) show ?thesis by (auto simp: waits_ok_def)
  qed
  then show ?thesis
    using quiet(2) assms(3) by (auto simp: effect_defs intro!: waits_ok_update)
next
  case (exchange t c)
  then show ?thesis
    using assms(3) by (auto simp: effect_defs about_to_wait_def intro!: waits_ok_update)
next
  case (mark t c)
  then show ?thesis
    using assms(3) by (auto simp: effect_defs about_to_wait_def stuck_def intro!: waits_ok_update)
next
  case (wake_up t c W)
  then show ?thesis
    using assms(3) by (auto simp: effect_defs about_to_wait_def intro!: waits_ok_update waits_ok_wake)
qed

text \<open>With two threads, the other thread of \<open>t\<close> is \<open>1 - t\<close>.\<close>

lemma sleeps_ok_two:
  assumes "length ps = 2"
  shows "sleeps_ok m w ps \<longleftrightarrow> (\<forall>t < 2. \<forall>c k. ps ! t = SAsleep c k \<longrightarrow>
     stuck m w c \<or> waking (ps ! (1 - t)))"
proof -
  have "(\<exists>u < 2. u \<noteq> t \<and> waking (ps ! u)) \<longleftrightarrow> waking (ps ! (1 - t))" if "t < 2" for t
    using that by (auto simp: less_2_cases_iff)
  then show ?thesis by (auto simp: sleeps_ok_def assms)
qed

lemma sleeps_ok_step:
  assumes "sem_act oc a st = Some st'" and "calls_in (\<lambda>_. small_call) (spcs st)"
    and two: "length (spcs st) = 2" and waits: "waits_ok (max_of st) (spcs st)"
    and sleeps: "sleeps_ok (max_of st) (word_of st) (spcs st)"
  shows "sleeps_ok (max_of st') (word_of st') (spcs st')"
proof -
  have s: "stuck (max_of st) (word_of st) c \<or> waking (spcs st ! (1 - t))"
    if "t < 2" "spcs st ! t = SAsleep c k" for t c k
    using sleeps that by (simp add: sleeps_ok_two [OF two])
  have other: "u = t \<or> u = 1 - t" if "t < 2" "u < 2" for t u :: nat
    using that by auto
  show ?thesis
    using assms(1,2)
  proof (cases rule: sem_act_effect)
    case (quiet t p)
    have view: "max_of st' = max_of st" "word_of st' = word_of st" "spcs st' = (spcs st)[t := p]"
      and q: "quiet (max_of st) (word_of st) (spcs st ! t) p"
      using quiet(2) by (simp_all add: effect_defs)
    have t: "t < 2" using quiet(1) two by simp
    have "stuck (max_of st) (word_of st) c \<or> waking (spcs st' ! (1 - u))"
      if u: "u < 2" and asleep: "spcs st' ! u = SAsleep c k" for u c k
    proof (cases "u = t")
      case True
      then have "p = SAsleep c k" using asleep t two view by simp
      then have "about_to_wait (spcs st ! t) = Some (c, word_of st)"
        using q by (auto simp: about_to_wait_def elim: quiet_to_asleep)
      then show ?thesis using waits t two by (auto simp: waits_ok_def)
    next
      case False
      then have ut: "1 - u = t" using t u by auto
      from False asleep have "spcs st ! u = SAsleep c k" by (simp add: view)
      from s [OF u this] ut have "stuck (max_of st) (word_of st) c \<or> waking (spcs st ! t)" by simp
      moreover have "waking p" if "waking (spcs st ! t)"
        using that q quiet(1) by (cases "spcs st ! t") (auto elim: quiet.cases)
      ultimately show ?thesis using ut t two by (auto simp: view)
    qed
    then show ?thesis using view two by (simp add: sleeps_ok_two)
  next
    case (exchange t c)
    then have t: "t < 2" and at: "spcs st ! t = SLoop c (word_of st)"
      and view: "max_of st' = max_of st"
        "spcs st' = (spcs st)[t := if has_waiter (word_of st) then SWake c else SDone True]"
      using two by (auto simp: effect_defs)
    have "waking (spcs st' ! (1 - u))" if u: "u < 2" and asleep: "spcs st' ! u = SAsleep d k" for u d k
    proof -
      have ut: "1 - u = t" "u \<noteq> t" using asleep t u two other [OF t u] by (auto simp: view split: if_splits)
      with asleep have "spcs st ! u = SAsleep d k" by (simp add: view)
      from s [OF u this] ut at have "has_waiter (word_of st)" by (auto simp: stuck_def)
      then show ?thesis using ut t two by (simp add: view)
    qed
    then show ?thesis using view two by (simp add: sleeps_ok_two)
  next
    case (mark t c)
    then have t: "t < 2" and at: "spcs st ! t = SLoop c (word_of st)" "\<not> has_waiter (word_of st)"
      and view: "max_of st' = max_of st" "spcs st' = (spcs st)[t := SWait c (word_of st OR WAITER)]"
      using two by (auto simp: effect_defs)
    have "False" if u: "u < 2" and asleep: "spcs st' ! u = SAsleep d k" for u d k
    proof -
      have ut: "1 - u = t" "u \<noteq> t" using asleep t u two other [OF t u] by (auto simp: view)
      with asleep have "spcs st ! u = SAsleep d k" by (simp add: view)
      from s [OF u this] ut at show False by (auto simp: stuck_def)
    qed
    then show ?thesis using view two by (auto simp: sleeps_ok_two)
  next
    case (wake_up t c W)
    then have t: "t < 2" and at: "spcs st ! t = SFutexWake c" and W: "wake_choice c W (spcs st)"
      and view: "max_of st' = max_of st" "spcs st' = (wake_threads W (spcs st))[t := SDone True]"
      using two by (auto simp: effect_defs)
    have "False" if u: "u < 2" and asleep: "spcs st' ! u = SAsleep d k" for u d k
    proof -
      have ut: "u \<noteq> t" using asleep t two by (auto simp: view)
      then have not_t: "t \<notin> set (sleepers (spcs st))" by (simp add: sleepers_def at)
      have u_asleep: "spcs st ! u = SAsleep d k" and "u \<notin> set W"
        using asleep ut u two by (auto simp: view split: if_splits elim: woken.elims)
      then have "u \<in> set (sleepers (spcs st))" using u two by (simp add: sleepers_def)
      moreover have "set (sleepers (spcs st)) \<subseteq> {u}"
        using not_t other [OF t] ut u two by (auto simp: sleepers_def)
      ultimately have "length W \<noteq> 0" and "set W \<subseteq> {u}"
        using W by (auto simp: wake_choice_def wake_limit_def)
      then show False using \<open>u \<notin> set W\<close> by (cases W) auto
    qed
    then show ?thesis using view two by (auto simp: sleeps_ok_two)
  qed
qed

end
