(* ===== verification/SemaphoreProps.thy ===== *)
theory SemaphoreProps
  imports Semaphore
begin

text \<open>
  What the semaphore guarantees to its callers, over every interleaving: conservation and
  bounds, refinement of an abstract counting semaphore, no lost wake-up between one producer
  and one consumer, and the lost wake-up that two consumers can suffer.
\<close>

section \<open>Runs for the witnesses\<close>

definition consume1 :: call where
  "consume1 = \<lparr>op = Consume, amt = 1, wake_n = 1, timed = False\<rparr>"

definition produce1 :: call where
  "produce1 = \<lparr>op = Produce, amt = 1, wake_n = 1, timed = False\<rparr>"

definition sem_two :: sem where
  "sem_two = Semaphore_new 2 [] 0"

named_theorems act_simps \<open>evaluation of concrete runs\<close>

lemmas [act_simps] = sem_act_def run_step_def loop_step_def decide_def consume_decide_def
  produce_decide_def block_decision_def add_ck_def sub_ck_def set_spc_def set_count_def commit_def
  amount_of_def has_waiter_def WAITER_def cookie_def sample_step_def SplitTimer_elapsed_def
  SplitTimer_reset_def wake_choice_def wake_limit_def sleepers_def wake_threads_def Let_def
  consume1_def produce1_def

lemma sem_two_eq [act_simps]:
  "sem_two = \<lparr>count = 0, smax = 2, wake = \<lparr>timers = [], index = 0\<rparr>,
    sreservoir = \<lparr>samples = [], rcount = 0\<rparr>\<rparr>"
  by (simp add: sem_two_def Semaphore_new_def WAITER_def SplitTimer_new_def ReservoirSampler_new_def)

definition go_to_sleep :: "nat \<Rightarrow> call \<Rightarrow> act list" where
  "go_to_sleep t c = [Call t c, Run t, Run t, Run t, Run t]"

definition pass_through :: "nat \<Rightarrow> call \<Rightarrow> act list" where
  "pass_through t c = [Call t c, Run t, Run t, Run t]"

definition lost_wake_run :: "act list" where
  "lost_wake_run = go_to_sleep 0 consume1 @ go_to_sleep 1 consume1
     @ [Call 2 produce1, Run 2, Run 2, ResetWake 2 0, WakeUp 2 [0], Run 2]
     @ pass_through 2 produce1
     @ [TakeSample 0 0 0, Run 0, Run 0, Run 0]"

lemma lost_wake_run_eq:
  "sem_run oc lost_wake_run (sem_init sem_two 3) = Some
     \<lparr>ssem = sem_two\<lparr>count := 1\<rparr>, spcs = [SIdle, SAsleep consume1 0, SIdle],
      produced = 2, consumed = 1\<rparr>"
  by (simp add: lost_wake_run_def go_to_sleep_def pass_through_def sem_init_def act_simps
      numeral_3_eq_3 upt_rec)

lemma small_one [simp]: "small_call consume1" "small_call produce1"
  by (simp_all add: consume1_def produce1_def)

lemma sem_two_init: "sem_inv (sem_init sem_two n)" "calls_in P (spcs (sem_init sem_two n))"
  "max_of (sem_init sem_two n) = 2"
  by (rule sem_init_ok, simp_all add: sem_two_eq, rule sem_init_ok, simp_all add: sem_init_def)

text \<open>The abstraction: the number of tokens in the word.\<close>

definition tokens :: "ssys \<Rightarrow> nat" where
  "tokens st = unat (amount_of (count (ssem st)))"

definition ones :: "nat \<Rightarrow> call \<Rightarrow> bool" where
  "ones t c \<longleftrightarrow> c = consume1 \<or> c = produce1"

lemma ones_small: "ones t c \<Longrightarrow> small_call c"
  by (auto simp: ones_def consume1_def produce1_def)

definition lost_state :: ssys where
  "lost_state = \<lparr>ssem = sem_two\<lparr>count := 1\<rparr>, spcs = [SIdle, SAsleep consume1 0, SIdle],
     produced = 2, consumed = 1\<rparr>"

lemma lost_wake_reached:
  "sem_reach oc ones (sem_init (Semaphore_new 2 [] 0) 3) lost_state"
  unfolding sem_two_def [symmetric] lost_state_def
  by (rule sem_run_reach [OF lost_wake_run_eq _ sem_reach.start])
    (simp add: lost_wake_run_def go_to_sleep_def pass_through_def ones_def)

lemma sem_reach_max:
  assumes "sem_reach oc P st0 st" and "\<And>t c. P t c \<Longrightarrow> small_call c"
    and "sem_inv st0" and "calls_in P (spcs st0)"
  shows "max_of st = max_of st0"
  using assms(1)
proof (induction rule: sem_reach.induct)
  case (step st a st')
  have "calls_in P (spcs st)" using sem_reach_inv [OF step.hyps(1) assms(2-4)] by simp
  then have "calls_in (\<lambda>_. small_call) (spcs st)" using assms(2) by (blast intro: calls_in_mono)
  then show ?case using max_step [OF step.hyps(3)] step.IH by simp
qed simp

lemma pair_sleeper:
  assumes "sem_reach oc (pair_discipline u v) (sem_init (Semaphore_new m readings R) 2) st"
    and "u < 2 ^ 31" and "v < 2 ^ 31" and "t < 2" and "spcs st ! t = SAsleep c k"
  shows "has_waiter (count (ssem st)) \<and> \<not> enabled (max_of st) c (amount_of (count (ssem st)))
    \<or> waking (spcs st ! (1 - t))"
proof -
  have small: "\<And>t c. pair_discipline u v t c \<Longrightarrow> small_call c"
    using assms(2,3) by (auto simp: pair_discipline_def)
  have init: "sem_inv (sem_init (Semaphore_new m readings R) 2)"
      "calls_in (pair_discipline u v) (spcs (sem_init (Semaphore_new m readings R) 2))"
    by (rule sem_init_ok [OF Semaphore_new_ok])+
  have "waits_ok (max_of st) (spcs st) \<and> sleeps_ok (max_of st) (word_of st) (spcs st)
      \<and> length (spcs st) = 2"
    using assms(1)
  proof (induction rule: sem_reach.induct)
    case start
    then show ?case
      by (simp add: waits_ok_def sleeps_ok_def sem_init_def about_to_wait_def)
  next
    case (step st a st')
    have calls: "calls_in (pair_discipline u v) (spcs st)"
      using sem_reach_inv [OF step.hyps(1) small init] by simp
    then have s: "calls_in (\<lambda>_. small_call) (spcs st)" using small by (blast intro: calls_in_mono)
    show ?case
      using step.IH waits_ok_step [OF step.hyps(3) s] sleeps_ok_step [OF step.hyps(3) s]
        calls_in_step(2) [OF step.hyps(3,2) calls small] by simp
  qed
  then have "stuck (max_of st) (word_of st) c \<or> waking (spcs st ! (1 - t))"
    using assms(4,5) sleeps_ok_two by blast
  then show ?thesis by (simp add: stuck_def)
qed

section \<open>Properties\<close>

text \<open>
  C1. The semaphore neither loses nor invents tokens: whatever threads do and however their
  accesses interleave, spurious failures, timeouts and interruptions included, the amount in
  the word is the total produced minus the total consumed and stays between zero and the
  maximum the semaphore was created with.
\<close>
theorem semaphore_conserves_tokens:
  assumes "sem_reach oc P (sem_init (Semaphore_new m readings R) n) st"
    and "\<forall>t c. P t c \<longrightarrow> unat (amt c) < 2 ^ 31"
  shows "produced st = consumed st + unat (amount_of (count (ssem st)))
    \<and> unat (amount_of (count (ssem st))) \<le> unat (amount_of m)"
proof -
  have init: "sem_inv (sem_init (Semaphore_new m readings R) n)"
      "calls_in P (spcs (sem_init (Semaphore_new m readings R) n))"
    by (rule sem_init_ok [OF Semaphore_new_ok])+
  have small: "\<And>t c. P t c \<Longrightarrow> small_call c" using assms(2) by blast
  have "max_of st = amount_of m"
    using sem_reach_max [OF assms(1) small init]
    by (simp add: sem_init_def Semaphore_new_def amount_of_def)
  then show ?thesis
    using sem_reach_inv [OF assms(1) small init] by (simp add: sem_inv_def)
qed

theorem semaphore_conserves_tokens_witness:
  "produced lost_state = consumed lost_state + unat (amount_of (count (ssem lost_state)))
    \<and> unat (amount_of (count (ssem lost_state))) \<le> unat (amount_of 2)"
  by (rule semaphore_conserves_tokens [OF lost_wake_reached]) (intro allI impI ones_small)

text \<open>
  C2. The word implements an abstract counting semaphore: every atomic step of every reachable
  state either leaves the amount alone, or is the exchange of one thread whose operation the
  abstract semaphore admits at this amount (enough tokens for \<open>consume\<close>, enough room for
  \<open>produce\<close>), and it changes the amount by exactly that operation; from there the thread
  can only return \<open>true\<close>, after the wake-up it owes if the flag was set.
\<close>
theorem semaphore_refines_counter:
  assumes "sem_reach oc P st0 st" and "\<forall>t c. P t c \<longrightarrow> unat (amt c) < 2 ^ 31"
    and "sem_inv st0" and "calls_in P (spcs st0)" and "sem_act oc a st = Some st'"
  shows "tokens st' = tokens st \<and> produced st' = produced st \<and> consumed st' = consumed st
    \<or> (\<exists>t c. t < length (spcs st) \<and> spcs st ! t = SLoop c (count (ssem st)) \<and> enabled (max_of st) c (amount_of (count (ssem st)))
        \<and> tokens st' = apply_call c (tokens st)
        \<and> spcs st' = (spcs st)[t := if has_waiter (count (ssem st)) then SWake c else SDone True])"
proof -
  have small: "\<And>t c. P t c \<Longrightarrow> small_call c" using assms(2) by blast
  have inv: "sem_inv st" and "calls_in P (spcs st)"
    using sem_reach_inv [OF assms(1) small assms(3,4)] by simp_all
  then have "calls_in (\<lambda>_. small_call) (spcs st)" using small by (blast intro: calls_in_mono)
  with assms(5) show ?thesis
  proof (cases rule: sem_act_effect)
    case (exchange t c)
    then show ?thesis
      using exchange_amount [OF exchange(2) inv] by (auto simp: tokens_def is_exchange_def set_view_def)
  qed (auto simp: tokens_def effect_defs)
qed

definition one_token :: ssys where
  "one_token = \<lparr>ssem = sem_two\<lparr>count := 1\<rparr>, spcs = [SLoop consume1 1], produced = 1, consumed = 0\<rparr>"

lemma one_token_inv: "sem_inv one_token" "calls_in ones (spcs one_token)"
  by (simp_all add: one_token_def sem_inv_def calls_in_def ones_def sem_two_eq amount_of_def WAITER_def)

theorem semaphore_refines_counter_witness:
  "\<exists>st'. sem_act True (Run 0) one_token = Some st' \<and> tokens st' = 0"
proof -
  obtain st' where st': "sem_act True (Run 0) one_token = Some st'" and moved: "consumed st' = 1"
    by (simp add: one_token_def act_simps)
  have "\<forall>t c. ones t c \<longrightarrow> unat (amt c) < 2 ^ 31" by (intro allI impI ones_small)
  from semaphore_refines_counter [OF sem_reach.start this one_token_inv st'] moved
  have "tokens st' = 0"
    by (auto simp: tokens_def one_token_def apply_call_def consume1_def amount_of_def WAITER_def sem_two_eq
        nth_Cons split: nat.splits)
  with st' show ?thesis by blast
qed

text \<open>
  C3. With one producer and one consumer no wake-up is lost: in every reachable state a
  sleeping thread either still cannot go on and has its flag in the word, so that the next
  exchange will wake it, or the other thread has already done that exchange and is about to
  wake it.
\<close>
theorem semaphore_no_lost_wakeup:
  assumes "sem_reach oc (pair_discipline u v) (sem_init (Semaphore_new m readings R) 2) st"
    and "u < 2 ^ 31" and "v < 2 ^ 31" and "t < 2" and "spcs st ! t = SAsleep c k"
  shows "has_waiter (count (ssem st)) \<and> \<not> enabled (max_of st) c (amount_of (count (ssem st)))
    \<or> waking (spcs st ! (1 - t))"
  using assms by (rule pair_sleeper)

definition sleeping_consumer :: ssys where
  "sleeping_consumer = \<lparr>ssem = sem_two\<lparr>count := WAITER\<rparr>, spcs = [SAsleep consume1 0, SIdle],
     produced = 0, consumed = 0\<rparr>"

lemma sleeping_consumer_reached:
  "sem_reach oc (pair_discipline 1 1) (sem_init (Semaphore_new 2 [] 0) 2) sleeping_consumer"
proof -
  have "sem_run oc (go_to_sleep 0 consume1) (sem_init sem_two 2) = Some sleeping_consumer"
    by (simp add: go_to_sleep_def sem_init_def sleeping_consumer_def act_simps numeral_2_eq_2)
  then show ?thesis
    unfolding sem_two_def
    by (rule sem_run_reach [OF _ _ sem_reach.start])
      (simp add: go_to_sleep_def pair_discipline_def consume1_def)
qed

theorem semaphore_no_lost_wakeup_witness:
  "has_waiter WAITER \<and> \<not> enabled 2 consume1 (amount_of WAITER)"
  using semaphore_no_lost_wakeup [OF sleeping_consumer_reached, of 0 consume1 0]
  by (simp add: sleeping_consumer_def sem_two_eq)



text \<open>Where \<open>false\<close> comes from: only a sleeper with a timeout returns it.\<close>

definition no_false :: "spc list \<Rightarrow> bool" where
  "no_false ps \<longleftrightarrow> SDone False \<notin> set ps"

lemma quiet_false: "quiet m w p (SDone False) \<Longrightarrow> \<exists>c k. p = SAsleep c k \<and> timed c"
  by (auto elim: quiet.cases)

lemma set_wake_threads: "SDone False \<in> set (wake_threads W ps) \<Longrightarrow> SDone False \<in> set ps"
proof -
  have "woken p = SDone False \<Longrightarrow> p = SDone False" for p by (cases p) auto
  then show "SDone False \<in> set (wake_threads W ps) \<Longrightarrow> SDone False \<in> set ps"
    by (auto simp: wake_threads_def split: if_splits) (metis nth_mem)
qed

lemma no_false_step:
  assumes "sem_act oc a st = Some st'" and "calls_in (\<lambda>_ c. small_call c \<and> \<not> timed c) (spcs st)"
    and "no_false (spcs st)"
  shows "no_false (spcs st')"
proof -
  have small: "calls_in (\<lambda>_. small_call) (spcs st)" using assms(2) by (rule calls_in_mono) simp
  have upd: "no_false (ps[t := p])" if "no_false ps" "p \<noteq> SDone False" for ps t p
    using that set_update_subset_insert [of ps t p] by (auto simp: no_false_def)
  show ?thesis
    using assms(1) small
  proof (cases rule: sem_act_effect)
    case (quiet t p)
    have "p \<noteq> SDone False"
    proof
      assume "p = SDone False"
      then have "quiet (max_of st) (word_of st) (spcs st ! t) (SDone False)"
        using quiet(2) by (simp add: is_quiet_def)
      then obtain c k where "spcs st ! t = SAsleep c k" "timed c"
        using quiet_false by blast
      then show False using quiet(1) assms(2) by (auto simp: calls_in_def)
    qed
    then show ?thesis using quiet(2) assms(3) upd by (auto simp: effect_defs)
  next
    case (wake_up t c W)
    then have "no_false (wake_threads W (spcs st))"
      using assms(3) set_wake_threads by (auto simp: no_false_def)
    then show ?thesis using wake_up(2) upd by (auto simp: effect_defs)
  qed (use assms(3) upd in \<open>auto simp: effect_defs\<close>)
qed

text \<open>
  A call without a timeout never fails: when every call is made with no timeout, no
  interleaving reaches a state in which a thread is about to return \<open>false\<close>. The panic that
  \<open>Process::create\<close> keeps for that case is unreachable.
\<close>
theorem untimed_call_never_false:
  assumes "sem_reach oc P (sem_init (Semaphore_new m readings R) n) st"
    and "\<forall>t c. P t c \<longrightarrow> unat (amt c) < 2 ^ 31 \<and> \<not> timed c"
  shows "SDone False \<notin> set (spcs st)"
proof -
  let ?Q = "\<lambda>_ c. small_call c \<and> \<not> timed c"
  have small: "\<And>t c. P t c \<Longrightarrow> small_call c" using assms(2) by blast
  have init: "sem_inv (sem_init (Semaphore_new m readings R) n)"
      "calls_in P (spcs (sem_init (Semaphore_new m readings R) n))"
    by (rule sem_init_ok [OF Semaphore_new_ok])+
  have "no_false (spcs st)"
    using assms(1)
  proof (induction rule: sem_reach.induct)
    case start
    then show ?case by (simp add: no_false_def sem_init_def)
  next
    case (step st a st')
    have "calls_in P (spcs st)" using sem_reach_inv [OF step.hyps(1) small init] by simp
    then have "calls_in ?Q (spcs st)" using assms(2) by (blast intro: calls_in_mono)
    from no_false_step [OF step.hyps(3) this step.IH] show ?case .
  qed
  then show ?thesis by (simp add: no_false_def)
qed

theorem untimed_call_never_false_witness: "SDone False \<notin> set (spcs lost_state)"
proof (rule untimed_call_never_false [OF lost_wake_reached])
  have "\<not> timed c" if "ones t c" for t c
    using that by (auto simp: ones_def consume1_def produce1_def)
  then show "\<forall>t c. ones t c \<longrightarrow> unat (amt c) < 2 ^ 31 \<and> \<not> timed c"
    using ones_small by blast
qed

text \<open>
  An uncontended call goes through at once: from any state, a thread outside the semaphore
  whose call the amount admits takes three steps (call, load, exchange) with nobody in
  between, changes the amount by exactly its operation, and is then about to return \<open>true\<close>,
  or to wake a waiter first if the flag was set; the flag is clear afterwards.
\<close>
theorem uncontended_call_succeeds:
  assumes "t < length (spcs st)" and "spcs st ! t = SIdle" and "unat (amt c) < 2 ^ 31"
    and "sem_inv st" and "enabled (max_of st) c (amount_of (count (ssem st)))"
  shows "\<exists>st'. sem_run oc [Call t c, Run t, Run t] st = Some st'
    \<and> tokens st' = apply_call c (tokens st) \<and> \<not> has_waiter (count (ssem st'))
    \<and> spcs st' ! t = (if has_waiter (count (ssem st)) then SWake c else SDone True)"
proof -
  let ?w = "word_of st" and ?st2 = "set_spc t (SLoop c (word_of st)) st"
  have run: "sem_run oc [Call t c, Run t, Run t] st = Some (loop_step oc t c ?w ?st2)"
    using assms(1,2) by (simp add: sem_act_def run_step_def set_spc_def)
  obtain new where d: "decide oc (max_of st) c ?w = Exchange new (has_waiter ?w)"
    and new: "unat new = apply_call c (unat (amount_of ?w))"
    using assms(3,5) by (rule decide_enabled)
  then have st': "loop_step oc t c ?w ?st2
      = set_spc t (if has_waiter ?w then SWake c else SDone True) (commit c new ?st2)"
    by (simp add: loop_step_def set_spc_def)
  have "unat new \<le> unat (max_of st)"
    using new assms(4,5) by (auto simp: enabled_def apply_call_def sem_inv_def split: sem_op.splits)
  then have "unat new < 2 ^ 31" using assms(4) by (simp add: sem_inv_def)
  then have "amount_of new = new" and "\<not> has_waiter new" by (rule amount_small, rule small_no_waiter)
  moreover have "word_of (commit c new s) = new" for s
    by (simp add: commit_def set_count_def split: sem_op.splits)
  moreover have "spcs (commit c new s) = spcs s" for s
    by (simp add: commit_def set_count_def split: sem_op.splits)
  ultimately show ?thesis
    unfolding run st' using assms(1) new by (simp add: tokens_def set_spc_def)
qed

definition idle_pair :: ssys where
  "idle_pair = \<lparr>ssem = sem_two\<lparr>count := 1\<rparr>, spcs = [SIdle, SIdle], produced = 1, consumed = 0\<rparr>"

theorem uncontended_call_succeeds_witness:
  "\<exists>st'. sem_run True [Call 1 produce1, Run 1, Run 1] idle_pair = Some st' \<and> tokens st' = 2"
proof -
  have "\<exists>st'. sem_run True [Call 1 produce1, Run 1, Run 1] idle_pair = Some st'
    \<and> tokens st' = apply_call produce1 (tokens idle_pair) \<and> \<not> has_waiter (count (ssem st'))
    \<and> spcs st' ! 1 = (if has_waiter (count (ssem idle_pair)) then SWake produce1 else SDone True)"
    by (rule uncontended_call_succeeds)
      (simp_all add: idle_pair_def sem_two_eq produce1_def sem_inv_def enabled_def amount_of_def WAITER_def)
  moreover have "apply_call produce1 (tokens idle_pair) = 2"
    by (simp add: apply_call_def produce1_def tokens_def idle_pair_def amount_of_def WAITER_def)
  ultimately show ?thesis by auto
qed

text \<open>
  C40. With two consumers a wake-up can be lost: from a fresh semaphore, three threads making
  untimed calls of one token reach a state where a consumer sleeps although a token is there,
  the flag is clear and every other thread is outside the semaphore, so that nobody owes the
  wake-up. The exchange clears the flag for all sleepers and wakes one.
\<close>
theorem two_consumers_lose_wakeup:
  "\<exists>st. sem_reach oc ones (sem_init (Semaphore_new 2 [] 0) 3) st
    \<and> spcs st = [SIdle, SAsleep consume1 0, SIdle]
    \<and> enabled (max_of st) consume1 (amount_of (count (ssem st)))
    \<and> \<not> has_waiter (count (ssem st))"
  by (rule exI [of _ lost_state])
    (use lost_wake_reached in \<open>simp add: lost_state_def sem_two_eq enabled_def consume1_def
      amount_of_def has_waiter_def WAITER_def\<close>)

text \<open>
  \<open>produce\<close> adds before it compares, and the sum can wrap: for any word that holds a
  token there is an amount with which a release build takes the exchange and empties the
  semaphore, reporting success, where a debug build panics.
\<close>
theorem produce_sum_wraps:
  assumes "amount_of cur \<noteq> 0"
  shows "\<exists>v. produce_decide False m v cur = Exchange 0 (has_waiter cur)
    \<and> produce_decide True m v cur = Abort ArithOverflow"
proof (rule exI [of _ "- amount_of cur"], rule conjI)
  show "produce_decide False m (- amount_of cur) cur = Exchange 0 (has_waiter cur)"
    by (simp add: produce_decide_def add_ck_def)
  have "2 ^ 32 \<le> unat (amount_of cur) + unat (- amount_of cur)"
  proof (rule ccontr)
    assume "\<not> 2 ^ 32 \<le> unat (amount_of cur) + unat (- amount_of cur)"
    then have "unat (amount_of cur + - amount_of cur) = unat (amount_of cur) + unat (- amount_of cur)"
      by (intro unat_add_no_overflow) simp
    then show False using assms by (simp add: unat_eq_0)
  qed
  then show "produce_decide True m (- amount_of cur) cur = Abort ArithOverflow"
    by (simp add: produce_decide_def add_ck_def)
qed

theorem produce_sum_wraps_witness:
  "\<exists>v. produce_decide False 5 v 1 = Exchange 0 (has_waiter 1)"
  using produce_sum_wraps [of 1 5] by (auto simp: amount_of_def WAITER_def)

end
