(* ===== verification/Client.thy ===== *)
theory Client
  imports SemaphoreProps
begin

text \<open>
  Programs that synchronise through semaphores. A client says, for every thread and location,
  which semaphore call is made there, or which local step is taken. Its abstract semantics
  has counters and one step per call; its atomic semantics has the semaphores of
  \<open>Semaphore\<close> with every access of a call as a step of its own, spurious failures, timeouts,
  interrupts and the kernel's choice of sleepers included. The interface \<open>pair_client\<close> is that
  every semaphore has one producing and one consuming thread and calls for at most one token;
  it gives that the atomic semantics refines the abstract one and that no wake-up is lost.
\<close>

section \<open>Clients\<close>

record ('p, 'g) client =
  cl_code :: "nat \<Rightarrow> 'p \<Rightarrow> (nat \<times> call \<times> (bool \<Rightarrow> 'p)) option"
  cl_local :: "nat \<Rightarrow> 'p \<Rightarrow> nat set \<Rightarrow> 'g \<Rightarrow> 'p \<Rightarrow> 'g \<Rightarrow> bool"
  cl_mortal :: "nat set"
  cl_fresh :: "nat \<Rightarrow> sem"

text \<open>The consumer of a semaphore is its thread 0 and the producer its thread 1.\<close>

definition role :: "call \<Rightarrow> nat" where
  "role c = (case op c of Consume \<Rightarrow> 0 | Produce \<Rightarrow> 1)"

lemma role_less [simp]: "role c < 2"
  by (simp add: role_def split: sem_op.split)

lemma role_eq_iff: "role c = role d \<longleftrightarrow> op c = op d"
  by (cases "op c"; cases "op d") (simp_all add: role_def)

section \<open>Counters\<close>

record ('p, 'g) astate =
  a_tok :: "nat \<Rightarrow> nat"
  a_loc :: "nat \<Rightarrow> 'p"
  a_gone :: "nat set"
  a_data :: 'g

inductive counter_step :: "('p, 'g) client \<Rightarrow> ('p, 'g) astate \<Rightarrow> ('p, 'g) astate \<Rightarrow> bool" for C where
  pass: "t \<notin> a_gone s \<Longrightarrow> cl_code C t (a_loc s t) = Some (j, c, nx) \<Longrightarrow>
    enabled (smax (cl_fresh C j)) c (word_of_nat (a_tok s j)) \<Longrightarrow>
    counter_step C s (s\<lparr>a_tok := (a_tok s)(j := apply_call c (a_tok s j)), a_loc := (a_loc s)(t := nx True)\<rparr>)"
| expire: "t \<notin> a_gone s \<Longrightarrow> cl_code C t (a_loc s t) = Some (j, c, nx) \<Longrightarrow> timed c \<Longrightarrow>
    counter_step C s (s\<lparr>a_loc := (a_loc s)(t := nx False)\<rparr>)"
| alone: "t \<notin> a_gone s \<Longrightarrow> cl_code C t (a_loc s t) = None \<Longrightarrow>
    cl_local C t (a_loc s t) (a_gone s) (a_data s) p g \<Longrightarrow>
    counter_step C s (s\<lparr>a_loc := (a_loc s)(t := p), a_data := g\<rparr>)"
| kill: "t \<in> cl_mortal C \<Longrightarrow> counter_step C s (s\<lparr>a_gone := insert t (a_gone s)\<rparr>)"

definition a_init :: "(nat \<Rightarrow> 'p) \<Rightarrow> 'g \<Rightarrow> ('p, 'g) astate" where
  "a_init p g = \<lparr>a_tok = (\<lambda>_. 0), a_loc = p, a_gone = {}, a_data = g\<rparr>"

inductive a_reach :: "('p, 'g) client \<Rightarrow> (nat \<Rightarrow> 'p) \<Rightarrow> 'g \<Rightarrow> ('p, 'g) astate \<Rightarrow> bool" for C p g where
  start: "a_reach C p g (a_init p g)"
| step: "a_reach C p g s \<Longrightarrow> counter_step C s s' \<Longrightarrow> a_reach C p g s'"

text \<open>Whether a thread can go on by itself.\<close>

definition a_ready :: "('p, 'g) client \<Rightarrow> ('p, 'g) astate \<Rightarrow> nat \<Rightarrow> bool" where
  "a_ready C s t \<longleftrightarrow> t \<notin> a_gone s \<and> (case cl_code C t (a_loc s t) of
     None \<Rightarrow> \<exists>p g. cl_local C t (a_loc s t) (a_gone s) (a_data s) p g
   | Some (j, c, nx) \<Rightarrow> enabled (smax (cl_fresh C j)) c (word_of_nat (a_tok s j)))"

section \<open>Atomic accesses\<close>

record ('p, 'g) cstate =
  c_sem :: "nat \<Rightarrow> ssys"
  c_loc :: "nat \<Rightarrow> 'p"
  c_gone :: "nat set"
  c_data :: 'g

abbreviation spc_at :: "('p, 'g) cstate \<Rightarrow> nat \<Rightarrow> call \<Rightarrow> spc" where
  "spc_at s j c \<equiv> spcs (c_sem s j) ! role c"

fun returning :: "spc \<Rightarrow> bool" where
  "returning (SDone b) = True"
| "returning _ = False"

text \<open>
  A thread in a call takes one access of it; the return goes on to the next location. A call
  it begins is the one its location makes.
\<close>

fun begins :: "call \<Rightarrow> act \<Rightarrow> bool" where
  "begins c (Call t d) \<longleftrightarrow> d = c"
| "begins c _ \<longleftrightarrow> True"

inductive thread_step ::
    "bool \<Rightarrow> ('p, 'g) client \<Rightarrow> nat \<Rightarrow> ('p, 'g) cstate \<Rightarrow> ('p, 'g) cstate \<Rightarrow> bool" for oc C t where
  access: "t \<notin> c_gone s \<Longrightarrow> cl_code C t (c_loc s t) = Some (j, c, nx) \<Longrightarrow> \<not> returning (spc_at s j c) \<Longrightarrow>
    act_thread a = role c \<Longrightarrow> begins c a \<Longrightarrow> sem_act oc a (c_sem s j) = Some st \<Longrightarrow>
    thread_step oc C t s (s\<lparr>c_sem := (c_sem s)(j := st)\<rparr>)"
| return: "t \<notin> c_gone s \<Longrightarrow> cl_code C t (c_loc s t) = Some (j, c, nx) \<Longrightarrow> spc_at s j c = SDone b \<Longrightarrow>
    sem_act oc (Run (role c)) (c_sem s j) = Some st \<Longrightarrow>
    thread_step oc C t s (s\<lparr>c_sem := (c_sem s)(j := st), c_loc := (c_loc s)(t := nx b)\<rparr>)"
| alone: "t \<notin> c_gone s \<Longrightarrow> cl_code C t (c_loc s t) = None \<Longrightarrow>
    cl_local C t (c_loc s t) (c_gone s) (c_data s) p g \<Longrightarrow>
    thread_step oc C t s (s\<lparr>c_loc := (c_loc s)(t := p), c_data := g\<rparr>)"

inductive cstep :: "bool \<Rightarrow> ('p, 'g) client \<Rightarrow> ('p, 'g) cstate \<Rightarrow> ('p, 'g) cstate \<Rightarrow> bool" for oc C where
  by_thread: "thread_step oc C t s s' \<Longrightarrow> cstep oc C s s'"
| kill: "t \<in> cl_mortal C \<Longrightarrow> cstep oc C s (s\<lparr>c_gone := insert t (c_gone s)\<rparr>)"

lemma cstep_cases [consumes 1, case_names access return alone kill]:
  assumes "cstep oc C s s'"
  obtains t j c nx a st where "s' = s\<lparr>c_sem := (c_sem s)(j := st)\<rparr>" "t \<notin> c_gone s"
      "cl_code C t (c_loc s t) = Some (j, c, nx)" "\<not> returning (spc_at s j c)" "act_thread a = role c"
      "begins c a" "sem_act oc a (c_sem s j) = Some st"
    | t j c nx b st where "s' = s\<lparr>c_sem := (c_sem s)(j := st), c_loc := (c_loc s)(t := nx b)\<rparr>" "t \<notin> c_gone s"
      "cl_code C t (c_loc s t) = Some (j, c, nx)" "spc_at s j c = SDone b"
      "sem_act oc (Run (role c)) (c_sem s j) = Some st"
    | t p g where "s' = s\<lparr>c_loc := (c_loc s)(t := p), c_data := g\<rparr>" "t \<notin> c_gone s"
      "cl_code C t (c_loc s t) = None" "cl_local C t (c_loc s t) (c_gone s) (c_data s) p g"
    | t where "s' = s\<lparr>c_gone := insert t (c_gone s)\<rparr>" "t \<in> cl_mortal C"
  using assms
proof (cases rule: cstep.cases)
  case (by_thread t)
  from by_thread show thesis by (cases rule: thread_step.cases) (rule that(1,2,3); assumption)+
qed (rule that(4))

definition c_init :: "('p, 'g) client \<Rightarrow> (nat \<Rightarrow> 'p) \<Rightarrow> 'g \<Rightarrow> ('p, 'g) cstate" where
  "c_init C p g = \<lparr>c_sem = (\<lambda>j. sem_init (cl_fresh C j) 2), c_loc = p, c_gone = {}, c_data = g\<rparr>"

inductive c_reach ::
    "bool \<Rightarrow> ('p, 'g) client \<Rightarrow> (nat \<Rightarrow> 'p) \<Rightarrow> 'g \<Rightarrow> ('p, 'g) cstate \<Rightarrow> bool" for oc C p g where
  start: "c_reach oc C p g (c_init C p g)"
| step: "c_reach oc C p g s \<Longrightarrow> cstep oc C s s' \<Longrightarrow> c_reach oc C p g s'"

text \<open>Runs of accesses and returns, for examples.\<close>

fun c_accesses ::
    "bool \<Rightarrow> ('p, 'g) client \<Rightarrow> (nat \<times> act) list \<Rightarrow> ('p, 'g) cstate \<Rightarrow> ('p, 'g) cstate option" where
  "c_accesses oc C [] s = Some s"
| "c_accesses oc C ((t, a) # as) s =
     (case cl_code C t (c_loc s t) of
        None \<Rightarrow> None
      | Some (j, c, nx) \<Rightarrow>
          if t \<in> c_gone s \<or> act_thread a \<noteq> role c \<or> \<not> begins c a then None
          else (case sem_act oc a (c_sem s j) of
                  None \<Rightarrow> None
                | Some st \<Rightarrow> c_accesses oc C as
                    (case spc_at s j c of
                       SDone b \<Rightarrow> s\<lparr>c_sem := (c_sem s)(j := st), c_loc := (c_loc s)(t := nx b)\<rparr>
                     | _ \<Rightarrow> s\<lparr>c_sem := (c_sem s)(j := st)\<rparr>)))"

lemma act_at_done:
  assumes "sem_act oc a st = Some st'" and "spcs st ! act_thread a = SDone b"
  shows "a = Run (act_thread a)"
  using assms by (cases a) (auto simp: sem_act_def split: if_splits)

lemma c_access_step:
  assumes "cl_code C t (c_loc s t) = Some (j, c, nx)" and "t \<notin> c_gone s" and "act_thread a = role c"
    and "begins c a" and "sem_act oc a (c_sem s j) = Some st"
  shows "cstep oc C s (case spc_at s j c of
       SDone b \<Rightarrow> s\<lparr>c_sem := (c_sem s)(j := st), c_loc := (c_loc s)(t := nx b)\<rparr>
     | _ \<Rightarrow> s\<lparr>c_sem := (c_sem s)(j := st)\<rparr>)"
proof (cases "returning (spc_at s j c)")
  case True
  then obtain b where b: "spc_at s j c = SDone b" by (auto elim: returning.elims)
  then have "sem_act oc (Run (role c)) (c_sem s j) = Some st"
    using act_at_done [OF assms(5)] assms(3,5) by metis
  then show ?thesis using assms(1,2) b by (auto intro: cstep.by_thread thread_step.return)
next
  case False
  then have "cstep oc C s (s\<lparr>c_sem := (c_sem s)(j := st)\<rparr>)" using assms by (intro cstep.by_thread thread_step.access)
  then show ?thesis using False by (cases "spc_at s j c") simp_all
qed

lemma c_accesses_reach:
  "c_accesses oc C as s = Some s' \<Longrightarrow> c_reach oc C p g s \<Longrightarrow> c_reach oc C p g s'"
proof (induction as arbitrary: s)
  case (Cons ta as)
  obtain t a where ta: "ta = (t, a)" by fastforce
  from Cons.prems(1) obtain j c nx st where a: "cl_code C t (c_loc s t) = Some (j, c, nx)"
      "t \<notin> c_gone s" "act_thread a = role c" "begins c a" "sem_act oc a (c_sem s j) = Some st"
    and rest: "c_accesses oc C as (case spc_at s j c of
         SDone b \<Rightarrow> s\<lparr>c_sem := (c_sem s)(j := st), c_loc := (c_loc s)(t := nx b)\<rparr>
       | _ \<Rightarrow> s\<lparr>c_sem := (c_sem s)(j := st)\<rparr>) = Some s'"
    unfolding ta by (auto split: option.splits if_splits)
  from Cons.IH [OF rest c_reach.step [OF Cons.prems(2) c_access_step [OF a]]] show ?case .
qed simp

text \<open>
  A thread that is neither asleep in the kernel nor ended by a panic, and not waiting for a
  local condition.
\<close>

fun is_panic :: "spc \<Rightarrow> bool" where
  "is_panic (SPanic x) = True"
| "is_panic _ = False"

definition c_awake :: "('p, 'g) client \<Rightarrow> ('p, 'g) cstate \<Rightarrow> nat \<Rightarrow> bool" where
  "c_awake C s t \<longleftrightarrow> t \<notin> c_gone s \<and> (case cl_code C t (c_loc s t) of
     None \<Rightarrow> \<exists>p g. cl_local C t (c_loc s t) (c_gone s) (c_data s) p g
   | Some (j, c, nx) \<Rightarrow> \<not> is_asleep (spc_at s j c) \<and> \<not> is_panic (spc_at s j c))"

section \<open>The abstraction\<close>

text \<open>
  A call takes effect at its exchange: from there the thread counts as past it, although the
  wake-up it owes and the return are still to come.
\<close>

definition passed :: "spc \<Rightarrow> bool" where
  "passed p \<longleftrightarrow> waking p \<or> p = SDone True"

definition loc_of :: "('p, 'g) client \<Rightarrow> ('p, 'g) cstate \<Rightarrow> nat \<Rightarrow> 'p" where
  "loc_of C s t = (case cl_code C t (c_loc s t) of
     None \<Rightarrow> c_loc s t
   | Some (j, c, nx) \<Rightarrow> if passed (spc_at s j c) then nx True else c_loc s t)"

definition counters :: "('p, 'g) client \<Rightarrow> ('p, 'g) cstate \<Rightarrow> ('p, 'g) astate" where
  "counters C s = \<lparr>a_tok = (\<lambda>j. tokens (c_sem s j)), a_loc = loc_of C s, a_gone = c_gone s,
     a_data = c_data s\<rparr>"

section \<open>Semaphores without timers never panic\<close>

definition calm :: "ssys \<Rightarrow> bool" where
  "calm st \<longleftrightarrow> timers (wake (ssem st)) = [] \<and> (\<forall>p\<in>set (spcs st). \<not> is_panic p)"

lemma calm_set_spc: "calm st \<Longrightarrow> \<not> is_panic p \<Longrightarrow> calm (set_spc t p st)"
  using set_update_subset_insert [of "spcs st" t p] by (auto simp: calm_def set_spc_def)

lemma calm_commit [simp]: "calm (commit c new st) = calm st" "calm (set_count w st) = calm st"
  by (simp_all add: calm_def commit_def set_count_def split: sem_op.split)

lemma calm_wake: "calm st \<Longrightarrow> calm (st\<lparr>spcs := wake_threads W (spcs st)\<rparr>)"
proof -
  have "is_panic (woken p) = is_panic p" for p by (cases p) simp_all
  then show "calm st \<Longrightarrow> calm (st\<lparr>spcs := wake_threads W (spcs st)\<rparr>)"
    by (auto simp: calm_def wake_threads_def)
qed

lemma calm_run:
  assumes "run_step oc t st = Some st'" and "\<And>c. spc_call (spcs st ! t) = Some c \<Longrightarrow> small_call c"
    and "calm st"
  shows "calm st'"
proof (cases "spcs st ! t")
  case (SLoop c cur)
  then have "small_call c" using assms(2) by simp
  then show ?thesis
    using assms(1,3) SLoop
    by (cases rule: decide_cases [where oc = oc and m = "max_of st" and cur = cur])
      (auto simp: run_step_def loop_step_def intro!: calm_set_spc)
qed (use assms(1,3) in \<open>auto simp: run_step_def calm_set_spc split: if_splits\<close>)

lemma calm_act:
  assumes "sem_act oc a st = Some st'" and "calls_in (\<lambda>_. small_call) (spcs st)" and "calm st"
  shows "calm st'"
proof -
  have t: "act_thread a < length (spcs st)" and act: "sem_act1 oc a st = Some st'"
    using assms(1) by (auto simp: sem_act_def split: if_splits)
  show ?thesis
  proof (cases a)
    case (Call u c)
    then show ?thesis using act assms(3) by (cases "spcs st ! u") (auto simp: calm_set_spc)
  next
    case (Run u)
    have "run_step oc u st = Some st'" using act Run by simp
    moreover have "small_call c" if "spc_call (spcs st ! u) = Some c" for c
      using calls_in_nth [OF assms(2) _ that] t Run by simp
    ultimately show ?thesis using assms(3) by (rule calm_run)
  next
    case (Spurious u)
    then show ?thesis using act assms(3)
      by (cases "spcs st ! u") (auto simp: calm_set_spc split: decision.splits)
  next
    case (ResetWake u now)
    have "calm (st\<lparr>ssem := (ssem st)\<lparr>wake := SplitTimer_reset now (wake (ssem st))\<rparr>\<rparr>)"
      using assms(3) by (simp add: calm_def SplitTimer_reset_def)
    then show ?thesis using act ResetWake by (cases "spcs st ! u") (auto simp: calm_set_spc)
  next
    case (WakeUp u W)
    then show ?thesis using act assms(3)
      by (cases "spcs st ! u") (auto simp: calm_set_spc calm_wake split: if_splits)
  next
    case (Timeout u)
    then show ?thesis using act assms(3)
      by (cases "spcs st ! u") (auto simp: calm_set_spc split: if_splits)
  next
    case (Interrupt u)
    then show ?thesis using act assms(3) by (cases "spcs st ! u") (auto simp: calm_set_spc)
  next
    case (TakeSample u now r)
    have "timers (wake (ssem st)) = []" using assms(3) by (simp add: calm_def)
    then show ?thesis using act TakeSample assms(3)
      by (cases "spcs st ! u") (auto simp: sample_step_def SplitTimer_elapsed_def calm_set_spc)
  qed
qed

section \<open>Clients with one producer and one consumer for every semaphore\<close>

text \<open>What a thread in a call can be doing.\<close>

definition in_call :: "call \<Rightarrow> spc \<Rightarrow> bool" where
  "in_call c p \<longleftrightarrow> spc_call p = Some c \<or> p = SDone True \<or> p = SDone False \<and> timed c \<or> is_panic p"

definition justified :: "('p, 'g) client \<Rightarrow> (nat \<Rightarrow> 'p) \<Rightarrow> nat \<Rightarrow> nat \<Rightarrow> spc \<Rightarrow> bool" where
  "justified C loc j r x \<longleftrightarrow> x = SIdle
     \<or> (\<exists>t c nx. cl_code C t (loc t) = Some (j, c, nx) \<and> role c = r \<and> in_call c x)"

definition coherent :: "('p, 'g) client \<Rightarrow> ('p, 'g) cstate \<Rightarrow> bool" where
  "coherent C s \<longleftrightarrow> (\<forall>j r. r < 2 \<longrightarrow> justified C (c_loc s) j r (spcs (c_sem s j) ! r))"

text \<open>How an access of one thread of two changes the other: only asleep to woken.\<close>

lemma in_call_woken [simp]: "in_call c (woken p) = in_call c p"
  by (cases p) (auto simp: in_call_def)

lemma justified_woken: "justified C loc j r x \<Longrightarrow> justified C loc j r (woken x)"
  by (auto simp: justified_def)

lemma justifiedI: "cl_code C t (loc t) = Some (j, c, nx) \<Longrightarrow> in_call c x \<Longrightarrow> justified C loc j (role c) x"
  by (auto simp: justified_def)

lemma passed_woken [simp]: "passed (woken p) = passed p"
  by (cases p) (auto simp: passed_def)

lemma woken_idle [simp]: "woken p = SIdle \<longleftrightarrow> p = SIdle"
  by (cases p) auto

lemma quiet_in_call:
  assumes "quiet m w p p'" and "in_call c p \<or> p = SIdle \<and> p' = SLoad c" and "\<not> returning p"
  shows "in_call c p'" and "passed p' = passed p"
  using assms by (cases rule: quiet.cases; auto simp: in_call_def passed_def)+

text \<open>
  One access of a thread in its call: the other thread is as before or woken; the thread is
  still in the call, and either nothing is decided, or this was the exchange.
\<close>

lemma access_effect:
  assumes "sem_act oc a st = Some st'" and "calls_in (\<lambda>_. small_call) (spcs st)"
    and "length (spcs st) = 2" and "act_thread a = r" and "begins c a"
    and "in_call c (spcs st ! r) \<or> spcs st ! r = SIdle" and "\<not> returning (spcs st ! r)"
    and "sem_inv st"
  shows "spcs st' ! (1 - r) \<in> {spcs st ! (1 - r), woken (spcs st ! (1 - r))}"
    and "in_call c (spcs st' ! r)"
    and "tokens st' = tokens st \<and> passed (spcs st' ! r) = passed (spcs st ! r)
      \<or> enabled (max_of st) c (amount_of (word_of st)) \<and> tokens st' = apply_call c (tokens st)
        \<and> \<not> passed (spcs st ! r) \<and> passed (spcs st' ! r)"
proof -
  let ?goal = "spcs st' ! (1 - r) \<in> {spcs st ! (1 - r), woken (spcs st ! (1 - r))}
    \<and> in_call c (spcs st' ! r)
    \<and> (tokens st' = tokens st \<and> passed (spcs st' ! r) = passed (spcs st ! r)
      \<or> enabled (max_of st) c (amount_of (word_of st)) \<and> tokens st' = apply_call c (tokens st)
        \<and> \<not> passed (spcs st ! r) \<and> passed (spcs st' ! r))"
  have ?goal
    using assms(1,2)
  proof (cases rule: sem_act_effect)
    case (quiet t p)
    then have t: "t = r" "r < 2" "1 - r \<noteq> r" using assms(3,4) by (simp_all, presburger)
    have view: "word_of st' = word_of st" "spcs st' = (spcs st)[r := p]"
      and q: "quiet (max_of st) (word_of st) (spcs st ! r) p"
      using quiet(2) t by (simp_all add: effect_defs)
    have "p = SLoad c" if "spcs st ! r = SIdle"
      using q that quiet(3) [of "_"] assms(5) t by (auto elim: quiet.cases)
    then show ?thesis
      using quiet_in_call [OF q, of c] assms(3,6,7) view t by (auto simp: tokens_def)
  next
    case (exchange t d)
    then have t: "t = r" "r < 2" "1 - r \<noteq> r" using assms(3,4) by (simp_all, presburger)
    have d: "d = c" using exchange(2) assms(6) t by (auto simp: is_exchange_def in_call_def)
    then show ?thesis
      using exchange(2) exchange_amount [OF exchange(2) assms(8)] assms(3) t
      by (auto simp: is_exchange_def set_view_def in_call_def passed_def tokens_def)
  next
    case (mark t d)
    then have t: "t = r" "r < 2" "1 - r \<noteq> r" using assms(3,4) by (simp_all, presburger)
    then show ?thesis
      using mark(2) assms(3,6) by (auto simp: effect_defs in_call_def passed_def tokens_def)
  next
    case (wake_up t d W)
    then have t: "t = r" "r < 2" "1 - r \<noteq> r" using assms(3,4) by (simp_all, presburger)
    then show ?thesis
      using wake_up(2) assms(3,6) by (auto simp: effect_defs in_call_def passed_def tokens_def)
  qed
  then show "spcs st' ! (1 - r) \<in> {spcs st ! (1 - r), woken (spcs st ! (1 - r))}"
    and "in_call c (spcs st' ! r)"
    and "tokens st' = tokens st \<and> passed (spcs st' ! r) = passed (spcs st ! r)
      \<or> enabled (max_of st) c (amount_of (word_of st)) \<and> tokens st' = apply_call c (tokens st)
        \<and> \<not> passed (spcs st ! r) \<and> passed (spcs st' ! r)"
    by blast+
qed

locale pair_client =
  fixes C :: "('p, 'g) client"
  assumes fresh: "\<exists>m readings R. cl_fresh C j = Semaphore_new m readings R"
    and single: "cl_code C t p = Some (j, c, nx) \<Longrightarrow> unat (amt c) \<le> 1"
    and roles: "cl_code C t p = Some (j, c, nx) \<Longrightarrow> cl_code C u q = Some (j, d, ny) \<Longrightarrow> op c = op d \<Longrightarrow> t = u"
begin

lemma small_pair: "pair_discipline 1 1 t c \<Longrightarrow> small_call c"
  by (auto simp: pair_discipline_def)

lemma sem_facts:
  assumes "sem_reach oc (pair_discipline 1 1) (sem_init (cl_fresh C j) 2) st"
  shows "sem_inv st" and "calls_in (\<lambda>_. small_call) (spcs st)" and "length (spcs st) = 2"
    and "max_of st = smax (cl_fresh C j)"
proof -
  obtain m readings R where new: "cl_fresh C j = Semaphore_new m readings R" using fresh by blast
  have init: "sem_inv (sem_init (cl_fresh C j) 2)"
      "calls_in (pair_discipline 1 1) (spcs (sem_init (cl_fresh C j) 2))"
    unfolding new by (rule sem_init_ok [OF Semaphore_new_ok])+
  have all: "sem_inv st \<and> calls_in (pair_discipline 1 1) (spcs st)
      \<and> length (spcs st) = length (spcs (sem_init (cl_fresh C j) 2))"
    using assms small_pair init by (rule sem_reach_inv)
  then show "sem_inv st" and "length (spcs st) = 2" by (simp_all add: sem_init_def)
  from all show "calls_in (\<lambda>_. small_call) (spcs st)"
    by (blast intro: calls_in_mono small_pair)
  show "max_of st = smax (cl_fresh C j)"
    using sem_reach_max [OF assms small_pair init] by (simp add: sem_init_def)
qed

definition disciplined :: "bool \<Rightarrow> ('p, 'g) cstate \<Rightarrow> bool" where
  "disciplined oc s \<longleftrightarrow> (\<forall>j. sem_reach oc (pair_discipline 1 1) (sem_init (cl_fresh C j) 2) (c_sem s j))"

lemma disciplined_act:
  assumes "disciplined oc s" and "sem_act oc a (c_sem s j) = Some st" and "act_thread a = role c"
    and "begins c a" and "unat (amt c) \<le> 1"
  shows "sem_reach oc (pair_discipline 1 1) (sem_init (cl_fresh C j) 2) st"
proof -
  have "admitted (pair_discipline 1 1) a"
    using assms(3-5) by (cases a) (auto simp: pair_discipline_def role_def split: sem_op.splits)
  with assms(1,2) show ?thesis unfolding disciplined_def by (blast intro: sem_reach.step)
qed

lemma disciplined_step:
  assumes "cstep oc C s s'" and "disciplined oc s"
  shows "disciplined oc s'"
  using assms
proof (cases rule: cstep_cases)
  case (access t j c nx a st)
  then show ?thesis
    using disciplined_act [OF assms(2)] assms(2) single by (auto simp: disciplined_def)
next
  case (return t j c nx b st)
  then show ?thesis
    using disciplined_act [OF assms(2), of "Run (role c)" j st c] assms(2) single
    by (auto simp: disciplined_def)
qed (auto simp: disciplined_def)

lemma coherent_at:
  assumes "coherent C s" and "cl_code C t (c_loc s t) = Some (j, c, nx)"
  shows "in_call c (spc_at s j c) \<or> spc_at s j c = SIdle"
proof (cases "spc_at s j c = SIdle")
  case False
  then obtain u d ny where u: "cl_code C u (c_loc s u) = Some (j, d, ny)" "role d = role c"
    "in_call d (spc_at s j c)"
    using assms(1) role_less unfolding coherent_def justified_def by blast
  then have "u = t" using roles [OF u(1) assms(2)] by (simp add: role_eq_iff)
  then show ?thesis using u assms(2) by simp
qed simp

text \<open>A thread is in no call but the one its location makes.\<close>

lemma idle_elsewhere:
  assumes "coherent C s" and "cl_code C t p = Some (j, c, nx)"
    and "\<And>d ny. cl_code C t (c_loc s t) = Some (j, d, ny) \<Longrightarrow> role d \<noteq> role c"
  shows "spc_at s j c = SIdle"
proof (rule ccontr)
  assume "spc_at s j c \<noteq> SIdle"
  then obtain u d ny where u: "cl_code C u (c_loc s u) = Some (j, d, ny)" "role d = role c"
    using assms(1) role_less unfolding coherent_def justified_def by blast
  then have "u = t" using roles [OF u(1) assms(2)] by (simp add: role_eq_iff)
  then show False using u assms(3) by simp
qed

lemma return_effect:
  assumes "sem_act oc (Run r) st = Some st'" and "spcs st ! r = SDone b"
  shows "st' = st\<lparr>spcs := (spcs st)[r := SIdle]\<rparr>" and "r < length (spcs st)"
  using assms by (auto simp: sem_act_def run_step_def set_spc_def split: if_splits)

lemma two_slots: "r < 2 \<Longrightarrow> q < 2 \<Longrightarrow> r = q \<or> r = 1 - (q :: nat)"
  by presburger

lemma coherent_step:
  assumes "cstep oc C s s'" and "disciplined oc s" and "coherent C s"
  shows "coherent C s'"
  using assms(1)
proof (cases rule: cstep_cases)
  case (access t j c nx a st)
  note f = sem_facts [of oc j "c_sem s j"] assms(2) [unfolded disciplined_def]
  note eff = access_effect [OF access(7) f(2) f(3) access(5,6) coherent_at [OF assms(3) access(3)] access(4) f(1)]
  have "justified C (c_loc s) i r (spcs (c_sem s' i) ! r)" if r: "r < 2" for i r
  proof (cases "i = j")
    case True
    have old: "justified C (c_loc s) j r (spcs (c_sem s j) ! r)" using assms(3) r by (simp add: coherent_def)
    consider "r = role c" | "r = 1 - role c" using two_slots [OF r role_less] by blast
    then have "justified C (c_loc s) j r (spcs st ! r)"
    proof cases
      case 1
      then show ?thesis using eff(2) access(3) f(5) by (simp add: justifiedI)
    next
      case 2
      then show ?thesis using eff(1) f(5) old justified_woken by auto
    qed
    then show ?thesis using access(1) True by simp
  next
    case False
    then show ?thesis using assms(3) r access(1) by (simp add: coherent_def)
  qed
  then show ?thesis using access(1) by (simp add: coherent_def)
next
  case (return t j c nx b st)
  note st = return_effect [OF return(5,4)]
  have "justified C (c_loc s') i r (spcs (c_sem s' i) ! r)" if r: "r < 2" for i r
  proof (cases "i = j \<and> r = role c")
    case True
    then show ?thesis using return(1) st by (simp add: justified_def)
  next
    case False
    have "justified C (c_loc s) i r (spcs (c_sem s i) ! r)" using assms(3) r by (simp add: coherent_def)
    moreover have "cl_code C u (c_loc s' u) = Some (i, d, ny)"
      if "cl_code C u (c_loc s u) = Some (i, d, ny)" "role d = r" for u d ny
      using that False return(1,3) by (cases "u = t") auto
    moreover have "spcs (c_sem s' i) ! r = spcs (c_sem s i) ! r" using False return(1) st by auto
    ultimately show ?thesis unfolding justified_def by metis
  qed
  then show ?thesis by (simp add: coherent_def)
next
  case (alone t p g)
  then show ?thesis using assms(3) by (auto simp: coherent_def justified_def) (metis option.distinct(1))
next
  case (kill t)
  then show ?thesis using assms(3) by (simp add: coherent_def)
qed

text \<open>
  The simulation: every access of every thread leaves the counters alone, or is the exchange
  of a call and then the step of the counters.
\<close>

lemma simulate_access:
  assumes access: "s' = s\<lparr>c_sem := (c_sem s)(j := st)\<rparr>" "t \<notin> c_gone s"
      "cl_code C t (c_loc s t) = Some (j, c, nx)" "\<not> returning (spc_at s j c)" "act_thread a = role c"
      "begins c a" "sem_act oc a (c_sem s j) = Some st"
    and "disciplined oc s" and "coherent C s"
  shows "counters C s' = counters C s \<or> counter_step C (counters C s) (counters C s')"
proof -
  note f = sem_facts [of oc j "c_sem s j"] assms(8) [unfolded disciplined_def]
  note eff = access_effect [OF access(7) f(2) f(3) access(5,6) coherent_at [OF assms(9) access(3)] access(4) f(1)]
  have others: "loc_of C s' u = loc_of C s u" if "u \<noteq> t" for u
  proof (cases "cl_code C u (c_loc s u)")
    case (Some idn)
    obtain i d ny where idn: "idn = (i, d, ny)" by (cases idn)
    have "passed (spc_at s' i d) = passed (spc_at s i d)"
    proof (cases "i = j")
      case True
      have "role d \<noteq> role c"
        using roles [of t "c_loc s t" j c nx u "c_loc s u" d ny] access(3) Some idn True that
        by (auto simp: role_eq_iff)
      then have "role d = 1 - role c" using two_slots [OF role_less role_less, of d c] by blast
      then show ?thesis using eff(1) f(5) access(1) True by auto
    qed (simp add: access(1))
    then show ?thesis using Some idn access(1) by (simp add: loc_of_def)
  qed (simp add: loc_of_def access(1))
  have self: "loc_of C s' t = (if passed (spcs st ! role c) then nx True else c_loc s t)"
    "loc_of C s t = (if passed (spc_at s j c) then nx True else c_loc s t)"
    using access(1,3) by (simp_all add: loc_of_def)
  from eff(3) f(5) consider
      (same) "tokens st = tokens (c_sem s j)" "passed (spcs st ! role c) = passed (spc_at s j c)"
    | (exchange) "enabled (smax (cl_fresh C j)) c (amount_of (word_of (c_sem s j)))"
        "tokens st = apply_call c (tokens (c_sem s j))" "\<not> passed (spc_at s j c)" "passed (spcs st ! role c)"
    using f(4) by auto
  then show ?thesis
  proof cases
    case same
    then have "loc_of C s' = loc_of C s" using others self by (intro ext) metis
    then have "counters C s' = counters C s" using same access(1) by (auto simp: counters_def)
    then show ?thesis ..
  next
    case exchange
    have "loc_of C s' = (loc_of C s)(t := nx True)"
      using others self exchange by (intro ext) auto
    then have "counters C s' = (counters C s)\<lparr>a_tok := (a_tok (counters C s))(j := apply_call c (a_tok (counters C s) j)),
        a_loc := (a_loc (counters C s))(t := nx True)\<rparr>"
      using exchange access(1) by (auto simp: counters_def)
    moreover have "counter_step C (counters C s) \<dots>"
      using exchange access(2,3) self
      by (intro counter_step.pass [where nx = nx]) (simp_all add: counters_def tokens_def)
    ultimately show ?thesis by simp
  qed
qed

lemma simulate_return:
  assumes return: "s' = s\<lparr>c_sem := (c_sem s)(j := st), c_loc := (c_loc s)(t := nx b)\<rparr>" "t \<notin> c_gone s"
      "cl_code C t (c_loc s t) = Some (j, c, nx)" "spc_at s j c = SDone b"
      "sem_act oc (Run (role c)) (c_sem s j) = Some st"
    and coh: "coherent C s"
  shows "counters C s' = counters C s \<or> counter_step C (counters C s) (counters C s')"
proof -
  note st = return_effect [OF return(5,4)]
  have "passed (spc_at s' i d) = passed (spc_at s i d)"
    if "u \<noteq> t" "cl_code C u (c_loc s u) = Some (i, d, ny)" for u i d ny
  proof -
    have "i \<noteq> j \<or> role d \<noteq> role c"
      using roles [OF that(2), of t] return(3) that(1) by (auto simp: role_eq_iff)
    then show ?thesis using return(1) st by auto
  qed
  then have others: "loc_of C s' u = loc_of C s u" if "u \<noteq> t" for u
    using that return(1) by (auto simp: loc_of_def split: option.split)
  have "spc_at s' i d = SIdle" if "cl_code C t (nx b) = Some (i, d, ny)" for i d ny
  proof (cases "i = j \<and> role d = role c")
    case True
    then show ?thesis using return(1) st by simp
  next
    case False
    then have "spc_at s i d = SIdle"
      using return(3) by (intro idle_elsewhere [OF coh that]) auto
    then show ?thesis using False return(1) st by auto
  qed
  then have self: "loc_of C s' t = nx b"
    using return(1) by (auto simp: loc_of_def passed_def split: option.split)
  have toks: "tokens (c_sem s' i) = tokens (c_sem s i)" for i
    using return(1) st by (simp add: tokens_def)
  show ?thesis
  proof (cases b)
    case True
    then have "loc_of C s t = nx b" using return(3,4) by (simp add: loc_of_def passed_def)
    then have "loc_of C s' = loc_of C s" using others self by (intro ext) metis
    then show ?thesis using toks return(1) by (simp add: counters_def)
  next
    case False
    have stay: "loc_of C s t = c_loc s t" using False return(3,4) by (simp add: loc_of_def passed_def)
    have "timed c" using coherent_at [OF coh return(3)] return(4) False by (simp add: in_call_def)
    then have "counter_step C (counters C s) ((counters C s)\<lparr>a_loc := (a_loc (counters C s))(t := nx False)\<rparr>)"
      using return(2,3) stay by (intro counter_step.expire [where j = j and c = c]) (simp_all add: counters_def)
    moreover have "loc_of C s' = (loc_of C s)(t := nx False)"
      using others self False by (intro ext) auto
    ultimately show ?thesis using toks return(1) by (simp add: counters_def)
  qed
qed

lemma simulation:
  assumes "cstep oc C s s'" and "disciplined oc s" and "coherent C s"
  shows "counters C s' = counters C s \<or> counter_step C (counters C s) (counters C s')"
  using assms(1)
proof (cases rule: cstep_cases)
  case (access t j c nx a st)
  from access assms(2,3) show ?thesis by (rule simulate_access)
next
  case (return t j c nx b st)
  from return assms(3) show ?thesis by (rule simulate_return)
next
  case (alone t p g)
  have "spc_at s j c = SIdle" if "cl_code C t p = Some (j, c, nx)" for j c nx
    using alone(3) by (intro idle_elsewhere [OF assms(3) that]) auto
  then have "loc_of C s' = (loc_of C s)(t := p)"
    using alone(1) by (intro ext) (auto simp: loc_of_def passed_def split: option.split)
  moreover have "loc_of C s t = c_loc s t" using alone(3) by (simp add: loc_of_def)
  ultimately have "counters C s' = (counters C s)\<lparr>a_loc := (a_loc (counters C s))(t := p), a_data := g\<rparr>"
    and "counter_step C (counters C s) ((counters C s)\<lparr>a_loc := (a_loc (counters C s))(t := p), a_data := g\<rparr>)"
    using alone counter_step.alone [of t "counters C s" C p g] by (simp_all add: counters_def)
  then show ?thesis by simp
next
  case (kill t)
  then have "loc_of C s' = loc_of C s" by (intro ext) (simp add: loc_of_def split: option.split)
  then have "counters C s' = (counters C s)\<lparr>a_gone := insert t (a_gone (counters C s))\<rparr>"
    using kill by (simp add: counters_def)
  then show ?thesis using counter_step.kill [OF kill(2), of "counters C s"] by simp
qed

lemma reach_inv: "c_reach oc C p g s \<Longrightarrow> disciplined oc s \<and> coherent C s"
proof (induction rule: c_reach.induct)
  case start
  have "spcs (c_sem (c_init C p g) j) ! r = SIdle" if "r < 2" for j r
    using that by (simp add: c_init_def sem_init_def)
  then show ?case
    by (simp add: disciplined_def coherent_def justified_def c_init_def sem_reach.start)
next
  case (step s s')
  then show ?case using disciplined_step coherent_step by blast
qed

lemma counters_init: "counters C (c_init C p g) = a_init p g"
proof -
  have "tokens (sem_init (cl_fresh C j) 2) = 0" for j
  proof -
    obtain m readings R where "cl_fresh C j = Semaphore_new m readings R" using fresh by blast
    then show ?thesis by (simp add: tokens_def sem_init_def Semaphore_new_def amount_of_def)
  qed
  moreover have "spc_at (c_init C p g) j c = SIdle" for j c
    using role_less [of c] by (simp add: c_init_def sem_init_def)
  then have "loc_of C (c_init C p g) = p"
    by (intro ext) (auto simp: loc_of_def passed_def c_init_def split: option.split)
  ultimately show ?thesis by (simp add: counters_def a_init_def c_init_def)
qed

text \<open>Whatever the accesses do, the counters they make are ones the client reaches.\<close>

lemma refines: "c_reach oc C p g s \<Longrightarrow> a_reach C p g (counters C s)"
proof (induction rule: c_reach.induct)
  case start
  show ?case unfolding counters_init by (rule a_reach.start)
next
  case (step s s')
  then show ?case using simulation [OF step.hyps(2)] reach_inv a_reach.step by metis
qed

text \<open>A sleeper cannot go on, or the other thread of the semaphore is about to wake it.\<close>

lemma sleeper:
  assumes "c_reach oc C p g s" and "cl_code C t (c_loc s t) = Some (j, c, nx)"
    and "is_asleep (spc_at s j c)"
  shows "\<not> enabled (smax (cl_fresh C j)) c (word_of_nat (tokens (c_sem s j)))
    \<or> (\<exists>u d ny. cl_code C u (c_loc s u) = Some (j, d, ny) \<and> waking (spc_at s j d))"
proof -
  have inv: "disciplined oc s" "coherent C s" using reach_inv [OF assms(1)] by simp_all
  obtain d k where d: "spc_at s j c = SAsleep d k" using assms(3) by (auto elim: is_asleep.elims)
  then have c: "d = c" using coherent_at [OF inv(2) assms(2)] by (auto simp: in_call_def)
  obtain m readings R where new: "cl_fresh C j = Semaphore_new m readings R" using fresh by blast
  have reach: "sem_reach oc (pair_discipline 1 1) (sem_init (Semaphore_new m readings R) 2) (c_sem s j)"
    using inv(1) unfolding disciplined_def new [symmetric] by blast
  from pair_sleeper [OF reach, of "role c" d k]
  have "\<not> enabled (max_of (c_sem s j)) c (amount_of (word_of (c_sem s j)))
      \<or> waking (spcs (c_sem s j) ! (1 - role c))" using c d by auto
  moreover have "max_of (c_sem s j) = smax (cl_fresh C j)"
    using inv(1) sem_facts(4) unfolding disciplined_def by blast
  moreover have "\<exists>u d ny. cl_code C u (c_loc s u) = Some (j, d, ny) \<and> waking (spc_at s j d)"
    if w: "waking (spcs (c_sem s j) ! (1 - role c))"
  proof -
    have "1 - role c < 2" by simp
    then have "justified C (c_loc s) j (1 - role c) (spcs (c_sem s j) ! (1 - role c))"
      using inv(2) by (simp add: coherent_def)
    then show ?thesis using w by (fastforce simp: justified_def)
  qed
  ultimately show ?thesis by (auto simp: tokens_def)
qed

text \<open>
  While nobody was killed, a client whose counters let a thread go on is not stuck: a thread is
  awake, or has panicked inside a call.
\<close>

lemma not_stuck:
  assumes "c_reach oc C p g s" and "c_gone s = {}" and "a_ready C (counters C s) t"
  shows "(\<exists>u. c_awake C s u)
    \<or> (\<exists>u j c nx. cl_code C u (c_loc s u) = Some (j, c, nx) \<and> is_panic (spc_at s j c))"
proof (cases "cl_code C t (c_loc s t)")
  case None
  then have "c_awake C s t"
    using assms(2,3) by (simp add: a_ready_def c_awake_def counters_def loc_of_def)
  then show ?thesis by blast
next
  case (Some jcn)
  obtain j c nx where jcn: "jcn = (j, c, nx)" by (cases jcn)
  note code = Some [unfolded jcn]
  show ?thesis
  proof (cases "is_asleep (spc_at s j c)")
    case False
    then have "c_awake C s t \<or> is_panic (spc_at s j c)" using code assms(2) by (simp add: c_awake_def)
    then show ?thesis using code by blast
  next
    case True
    then have "\<not> passed (spc_at s j c)" by (cases "spc_at s j c") (auto simp: passed_def)
    then have "enabled (smax (cl_fresh C j)) c (word_of_nat (tokens (c_sem s j)))"
      using assms(3) code by (simp add: a_ready_def counters_def loc_of_def)
    then obtain u d ny where "cl_code C u (c_loc s u) = Some (j, d, ny)" "waking (spc_at s j d)"
      using sleeper [OF assms(1) code True] by blast
    then have "c_awake C s u" using assms(2) by (cases "spc_at s j d") (simp_all add: c_awake_def)
    then show ?thesis by blast
  qed
qed

text \<open>An awake thread has a step, and it is not the kernel that takes it.\<close>

lemma access_enabled:
  assumes "length (spcs st) = 2" and "\<not> is_asleep (spcs st ! role c)" and "\<not> is_panic (spcs st ! role c)"
    and "\<not> returning (spcs st ! role c)"
  shows "\<exists>a st'. act_thread a = role c \<and> begins c a \<and> sem_act oc a st = Some st'"
proof (cases "spcs st ! role c")
  case SIdle
  then show ?thesis using assms(1) by (intro exI [of _ "Call (role c) c"]) (simp add: sem_act_def)
next
  case (SWake d)
  then show ?thesis using assms(1) by (intro exI [of _ "ResetWake (role c) 0"]) (simp add: sem_act_def)
next
  case (SFutexWake d)
  have "distinct (sleepers (spcs st))" by (simp add: sleepers_def)
  then have "wake_choice d (take (wake_limit d) (sleepers (spcs st))) (spcs st)"
    by (simp add: wake_choice_def set_take_subset)
  then show ?thesis using assms(1) SFutexWake
    by (intro exI [of _ "WakeUp (role c) (take (wake_limit d) (sleepers (spcs st)))"]) (simp add: sem_act_def)
next
  case (SWoken d k)
  then show ?thesis using assms(1) by (intro exI [of _ "TakeSample (role c) 0 0"]) (simp add: sem_act_def)
qed (use assms in \<open>auto intro!: exI [of _ "Run (role c)"] simp: sem_act_def run_step_def\<close>)

lemma awake_steps:
  assumes "c_reach oc C p g s" and "c_awake C s t"
  shows "\<exists>s'. thread_step oc C t s s' \<and> c_gone s' = c_gone s"
proof (cases "cl_code C t (c_loc s t)")
  case None
  then obtain q d where "cl_local C t (c_loc s t) (c_gone s) (c_data s) q d" and "t \<notin> c_gone s"
    using assms(2) by (auto simp: c_awake_def)
  with None have "thread_step oc C t s (s\<lparr>c_loc := (c_loc s)(t := q), c_data := d\<rparr>)"
    by (intro thread_step.alone)
  then show ?thesis by (intro exI [of _ "s\<lparr>c_loc := (c_loc s)(t := q), c_data := d\<rparr>"]) simp
next
  case (Some jcn)
  obtain j c nx where jcn: "jcn = (j, c, nx)" by (cases jcn)
  note code = Some [unfolded jcn]
  have live: "t \<notin> c_gone s" "\<not> is_asleep (spc_at s j c)" "\<not> is_panic (spc_at s j c)"
    using assms(2) code by (simp_all add: c_awake_def)
  have two: "length (spcs (c_sem s j)) = 2"
    using reach_inv [OF assms(1)] sem_facts(3) unfolding disciplined_def by blast
  show ?thesis
  proof (cases "returning (spc_at s j c)")
    case True
    then obtain b where b: "spc_at s j c = SDone b" by (auto elim: returning.elims)
    then obtain st where "sem_act oc (Run (role c)) (c_sem s j) = Some st"
      using two by (simp add: sem_act_def run_step_def)
    from thread_step.return [OF live(1) code b this] show ?thesis
      by (intro exI [of _ "s\<lparr>c_sem := (c_sem s)(j := st), c_loc := (c_loc s)(t := nx b)\<rparr>"]) simp
  next
    case False
    from access_enabled [OF two live(2,3) False] obtain a st where
      "act_thread a = role c" "begins c a" "sem_act oc a (c_sem s j) = Some st" by blast
    from thread_step.access [OF live(1) code False this] show ?thesis
      by (intro exI [of _ "s\<lparr>c_sem := (c_sem s)(j := st)\<rparr>"]) simp
  qed
qed

lemma no_panic:
  assumes "c_reach oc C p g s" and "\<And>j. timers (wake (cl_fresh C j)) = []"
  shows "calm (c_sem s j)"
  using assms(1)
proof (induction arbitrary: j rule: c_reach.induct)
  case start
  show ?case using assms(2) by (simp add: c_init_def sem_init_def calm_def)
next
  case (step s s')
  have small: "calls_in (\<lambda>_. small_call) (spcs (c_sem s i))" for i
    using reach_inv [OF step.hyps(1)] sem_facts(2) unfolding disciplined_def by blast
  show ?case
    using step.hyps(2) step.IH calm_act [OF _ small] by (cases rule: cstep_cases) auto
qed

lemma no_panic_at:
  assumes "c_reach oc C p g s" and "\<And>j. timers (wake (cl_fresh C j)) = []"
  shows "\<not> is_panic (spc_at s j c)"
proof -
  have "length (spcs (c_sem s j)) = 2"
    using reach_inv [OF assms(1)] sem_facts(3) unfolding disciplined_def by blast
  then have "spc_at s j c \<in> set (spcs (c_sem s j))" by simp
  then show ?thesis using no_panic [OF assms, of j] by (simp add: calm_def)
qed

text \<open>Without timers the panic is out, and what is left is a thread with a step.\<close>

lemma progress:
  assumes "c_reach oc C p g s" and "c_gone s = {}" and "a_ready C (counters C s) t"
    and "\<And>j. timers (wake (cl_fresh C j)) = []"
  shows "\<exists>u. c_awake C s u"
  using not_stuck [OF assms(1-3)] no_panic_at [OF assms(1,4)] by blast

end

end
