(* ===== verification/Affinity.thy ===== *)
theory Affinity
  imports Prelude
begin

text \<open>
  The CPU masks of \<open>util/system.rs\<close>: \<open>libc::cpu_set_t\<close> as its 16 words of 64 bits, the raw
  accesses \<open>cpu_set\<close> and \<open>cpu_or\<close>, and the default methods of the trait \<open>CPUSet\<close>, which run a
  function with the calling thread's affinity set to the mask. The trait is the locale
  \<open>cpu_set_provider\<close>: a type that can give its mask and stands for a set of CPUs.
\<close>

section \<open>Masks\<close>

type_synonym mask = "u64 list"

definition mask_words :: nat where
  "mask_words = 16"

definition mask_zero :: mask where
  "mask_zero = replicate mask_words 0"

text \<open>
  The write goes through a raw pointer: beyond the array it is undefined, and the model
  stops there.
\<close>

definition cpu_set :: "usize \<Rightarrow> mask \<Rightarrow> mask outcome" where
  "cpu_set cpu m =
     (let cpu_elem = unat cpu div 64; cpu_bit = unat cpu mod 64 in
      if cpu_elem < length m then Inr (m[cpu_elem := (m ! cpu_elem) OR push_bit cpu_bit 1])
      else Inl OutOfBoundsWrite)"

definition cpu_or :: "mask \<Rightarrow> mask \<Rightarrow> mask" where
  "cpu_or dest src = map (\<lambda>i. (dest ! i) OR (src ! i)) [0 ..< mask_words]"

text \<open>The CPUs of a mask, and how many a mask can hold.\<close>

definition mask_cpus :: "mask \<Rightarrow> nat set" where
  "mask_cpus m = {n. n div 64 < length m \<and> bit (m ! (n div 64)) (n mod 64)}"

definition mask_capacity :: nat where
  "mask_capacity = 64 * mask_words"

text \<open>The loop of every composite mask: start from zero and merge the masks of the parts.\<close>

fun or_all :: "('a \<Rightarrow> mask outcome) \<Rightarrow> 'a list \<Rightarrow> mask \<Rightarrow> mask outcome" where
  "or_all f [] acc = Inr acc"
| "or_all f (x # xs) acc = bind_sum (f x) (\<lambda>m. or_all f xs (cpu_or acc m))"

definition masks_exactly :: "mask outcome \<Rightarrow> nat set \<Rightarrow> bool" where
  "masks_exactly r A \<longleftrightarrow> (\<exists>m. r = Inr m \<and> length m = mask_words \<and> mask_cpus m = A)"

lemma bit_of_one: "k < 64 \<Longrightarrow> bit (push_bit j 1 :: u64) k \<longleftrightarrow> j = k"
  by (auto simp only: bit_push_bit_iff bit_1_iff) auto

lemma mask_cpus_zero [simp]: "mask_cpus mask_zero = {}"
  by (auto simp: mask_cpus_def mask_zero_def)

lemma length_mask_zero [simp]: "length mask_zero = mask_words"
  by (simp add: mask_zero_def)

lemma length_cpu_or [simp]: "length (cpu_or a b) = mask_words"
  by (simp add: cpu_or_def)

lemma mask_cpus_or:
  assumes "length a = mask_words" and "length b = mask_words"
  shows "mask_cpus (cpu_or a b) = mask_cpus a \<union> mask_cpus b"
  using assms by (auto simp: mask_cpus_def cpu_or_def bit_or_iff)

lemma cpu_set_masks:
  assumes "length m = mask_words" and "unat cpu < mask_capacity"
  shows "masks_exactly (cpu_set cpu m) (insert (unat cpu) (mask_cpus m))"
proof -
  let ?e = "unat cpu div 64" and ?b = "unat cpu mod 64"
  have e: "?e < length m" using assms by (simp add: mask_capacity_def less_mult_imp_div_less mult.commute)
  let ?m = "m[?e := (m ! ?e) OR push_bit ?b 1]"
  have "n \<in> mask_cpus ?m \<longleftrightarrow> n \<in> insert (unat cpu) (mask_cpus m)" for n
  proof (cases "n div 64 = ?e")
    case True
    have "bit (push_bit ?b 1 :: u64) (n mod 64) \<longleftrightarrow> n = unat cpu"
      using True by (subst bit_of_one) (auto, metis div_mult_mod_eq)
    then show ?thesis using True e by (auto simp: mask_cpus_def bit_or_iff)
  next
    case False
    then show ?thesis by (auto simp: mask_cpus_def)
  qed
  then show ?thesis using e assms(1) by (auto simp: masks_exactly_def cpu_set_def Let_def)
qed

lemma or_all_masks:
  assumes "length acc = mask_words" and "\<And>x. x \<in> set xs \<Longrightarrow> masks_exactly (f x) (A x)"
  shows "masks_exactly (or_all f xs acc) (mask_cpus acc \<union> (\<Union>x\<in>set xs. A x))"
  using assms
proof (induction xs arbitrary: acc)
  case Nil
  then show ?case by (simp add: masks_exactly_def)
next
  case (Cons x xs)
  then have "masks_exactly (f x) (A x)" by simp
  then obtain m where m: "f x = Inr m" "length m = mask_words" "mask_cpus m = A x"
    by (auto simp: masks_exactly_def)
  have "masks_exactly (or_all f xs (cpu_or acc m)) (mask_cpus (cpu_or acc m) \<union> (\<Union>y\<in>set xs. A y))"
    using Cons.prems by (intro Cons.IH) simp_all
  then show ?case using m Cons.prems(1) by (simp add: mask_cpus_or Un_assoc)
qed

section \<open>Running with an affinity\<close>

text \<open>
  The answers of the three system calls: the text of the error, if any, of
  \<open>sched_getaffinity\<close>, of the \<open>sched_setaffinity\<close> to the target, and of the one that restores.
  The state is the thread's mask and whatever the function works on; the function may read
  the mask and even change it.
\<close>

record affinity_env =
  get_error :: "string option"
  set_error :: "mask \<Rightarrow> string option"
  restore_error :: "mask \<Rightarrow> string option"

definition CPUSet_run ::
    "affinity_env \<Rightarrow> mask outcome \<Rightarrow> (mask \<times> 's \<Rightarrow> mask \<times> 's) \<Rightarrow> mask \<times> 's
     \<Rightarrow> unit result outcome \<times> (mask \<times> 's)" where
  "CPUSet_run env target f st =
     (case target of
        Inl p \<Rightarrow> (Inl p, st)
      | Inr tm \<Rightarrow>
          (case get_error env of
             Some e \<Rightarrow> (Inr (Inl (Anyhow (''unable to get current CPU mask: '' @ e))), st)
           | None \<Rightarrow>
               let orig = fst st in
               (case set_error env tm of
                  Some e \<Rightarrow> (Inr (Inl (Anyhow (''unable to set CPU mask: '' @ e))), st)
                | None \<Rightarrow>
                    let st1 = f (tm, snd st) in
                    (case restore_error env orig of
                       Some e \<Rightarrow> (Inr (Inl (Anyhow (''unable to restore CPU mask: '' @ e))), st1)
                     | None \<Rightarrow> (Inr (Inr ()), (orig, snd st1))))))"

definition CPUSet_migrate ::
    "affinity_env \<Rightarrow> mask outcome \<Rightarrow> mask \<times> 's \<Rightarrow> unit result outcome \<times> (mask \<times> 's)" where
  "CPUSet_migrate env target st = CPUSet_run env target id st"

text \<open>\<open>CPUMask\<close> keeps the mask of a set; its own mask is that value.\<close>

definition CPUMask_new :: "('a \<Rightarrow> mask outcome) \<Rightarrow> 'a \<Rightarrow> mask outcome" where
  "CPUMask_new mask_of s = mask_of s"

definition CPUMask_mask :: "mask \<Rightarrow> mask outcome" where
  "CPUMask_mask m = Inr m"

section \<open>The trait\<close>

locale cpu_set_provider =
  fixes mask_of :: "'a \<Rightarrow> mask outcome"
    and cpus_of :: "'a \<Rightarrow> nat set"
    and valid :: "'a \<Rightarrow> bool"
  assumes mask_exact: "valid s \<Longrightarrow> masks_exactly (mask_of s) (cpus_of s)"
begin

lemma run_restores:
  assumes "valid s" and "get_error env = None" and "\<And>m. set_error env m = None"
    and "restore_error env (fst st) = None"
  shows "\<exists>tm. mask_cpus tm = cpus_of s
    \<and> CPUSet_run env (mask_of s) f st = (Inr (Inr ()), (fst st, snd (f (tm, snd st))))"
  using mask_exact [OF assms(1)] assms(2-) by (auto simp: masks_exactly_def CPUSet_run_def Let_def)

lemma run_refused:
  assumes "valid s"
    and "get_error env \<noteq> None \<or> (\<forall>m. set_error env m \<noteq> None)"
  shows "\<exists>e. CPUSet_run env (mask_of s) f st = (Inr (Inl e), st)"
proof -
  obtain tm where "mask_of s = Inr tm" using mask_exact [OF assms(1)] by (auto simp: masks_exactly_def)
  moreover have "get_error env \<noteq> None \<or> set_error env tm \<noteq> None" using assms(2) by blast
  ultimately show ?thesis by (cases "get_error env") (auto simp: CPUSet_run_def)
qed

lemma migrate_keeps_state:
  assumes "valid s" and "get_error env = None" and "\<And>m. set_error env m = None"
    and "restore_error env (fst st) = None"
  shows "CPUSet_migrate env (mask_of s) st = (Inr (Inr ()), st)"
  using run_restores [OF assms, of id] by (auto simp: CPUSet_migrate_def)

end

interpretation kept_mask: cpu_set_provider CPUMask_mask mask_cpus "\<lambda>m. length m = mask_words"
  by unfold_locales (simp add: masks_exactly_def CPUMask_mask_def)

end
