(* ===== verification/Text.thy ===== *)
theory Text
  imports Prelude
begin

text \<open>
  The string operations of Rust's standard library that the code applies to the files of
  \<open>/proc\<close> and \<open>/sys\<close>: \<open>trim\<close>, \<open>lines\<close>, the search for a separator, and \<open>parse\<close> into integers.
  The files are ASCII, so a string is the list of its bytes and white space is the ASCII
  white space of \<open>char::is_whitespace\<close>.
\<close>

section \<open>Trimming and splitting\<close>

definition is_space :: "char \<Rightarrow> bool" where
  "is_space c \<longleftrightarrow> of_char c = (32 :: nat) \<or> (9 :: nat) \<le> of_char c \<and> of_char c \<le> (13 :: nat)"

definition trim_start :: "string \<Rightarrow> string" where
  "trim_start s = dropWhile is_space s"

definition trim :: "string \<Rightarrow> string" where
  "trim s = rev (dropWhile is_space (rev (trim_start s)))"

text \<open>\<open>find\<close> and \<open>rfind\<close> of a character, as the two sides of the separator they find.\<close>

fun split_first :: "char \<Rightarrow> string \<Rightarrow> (string \<times> string) option" where
  "split_first c [] = None"
| "split_first c (x # xs) =
     (if x = c then Some ([], xs)
      else map_option (\<lambda>(a, b). (x # a, b)) (split_first c xs))"

fun split_last :: "char \<Rightarrow> string \<Rightarrow> (string \<times> string) option" where
  "split_last c [] = None"
| "split_last c (x # xs) =
     (case split_last c xs of
        Some (a, b) \<Rightarrow> Some (x # a, b)
      | None \<Rightarrow> if x = c then Some ([], xs) else None)"

definition newline :: char where
  "newline = CHR 0x0A"

definition carriage_return :: char where
  "carriage_return = CHR 0x0D"

definition strip_cr :: "string \<Rightarrow> string" where
  "strip_cr l = (if l \<noteq> [] \<and> last l = carriage_return then butlast l else l)"

text \<open>The lines of a text: the last one may lack its newline, and an empty rest is no line.\<close>

fun lines_from :: "string \<Rightarrow> string \<Rightarrow> string list" where
  "lines_from acc [] = (if acc = [] then [] else [rev acc])"
| "lines_from acc (x # xs) =
     (if x = newline then strip_cr (rev acc) # lines_from [] xs else lines_from (x # acc) xs)"

definition lines :: "string \<Rightarrow> string list" where
  "lines s = lines_from [] s"

section \<open>Parsing integers\<close>

definition digit_of :: "char \<Rightarrow> nat option" where
  "digit_of c = (let n = of_char c in if 48 \<le> n \<and> n \<le> (57 :: nat) then Some (n - 48) else None)"

fun digits_value :: "nat \<Rightarrow> string \<Rightarrow> nat option" where
  "digits_value acc [] = Some acc"
| "digits_value acc (c # cs) =
     (case digit_of c of None \<Rightarrow> None | Some d \<Rightarrow> digits_value (10 * acc + d) cs)"

definition parse_digits :: "string \<Rightarrow> nat option" where
  "parse_digits s = (if s = [] then None else digits_value 0 s)"

definition parse_unsigned :: "nat \<Rightarrow> string \<Rightarrow> nat option" where
  "parse_unsigned limit s =
     (let ds = (case s of c # r \<Rightarrow> if c = CHR ''+'' \<and> r \<noteq> [] then r else s | [] \<Rightarrow> s) in
      case parse_digits ds of None \<Rightarrow> None | Some n \<Rightarrow> if n \<le> limit then Some n else None)"

definition parse_u64 :: "string \<Rightarrow> u64 option" where
  "parse_u64 s = map_option word_of_nat (parse_unsigned (2 ^ 64 - 1) s)"

text \<open>An \<open>i32\<close> is an integer between \<open>- 2 ^ 31\<close> and \<open>2 ^ 31 - 1\<close>.\<close>

definition parse_i32 :: "string \<Rightarrow> int option" where
  "parse_i32 s =
     (case s of
        c # r \<Rightarrow>
          if c = CHR ''-'' \<and> r \<noteq> [] then
            (case parse_digits r of
               None \<Rightarrow> None | Some n \<Rightarrow> if n \<le> 2 ^ 31 then Some (- int n) else None)
          else map_option int (parse_unsigned (2 ^ 31 - 1) s)
      | [] \<Rightarrow> None)"

section \<open>Lemmas\<close>

lemma of_char_digit: "d < 10 \<Longrightarrow> of_char (digit_char d) = (48 + d :: nat)"
  by (simp add: digit_char_def)

lemma digit_of_digit: "d < 10 \<Longrightarrow> digit_of (digit_char d) = Some d"
  by (simp add: digit_of_def of_char_digit)

lemma digits_value_append:
  "digits_value acc (xs @ ys) =
    (case digits_value acc xs of None \<Rightarrow> None | Some a \<Rightarrow> digits_value a ys)"
  by (induction acc xs rule: digits_value.induct) (auto split: option.splits)

lemma digits_value_show: "digits_value 0 (show_nat n) = Some n"
proof (induction n rule: show_nat.induct)
  case (1 n)
  show ?case
  proof (cases "n < 10")
    case True
    then show ?thesis by (subst show_nat.simps) (simp add: digit_of_digit)
  next
    case False
    then have "digits_value 0 (show_nat (n div 10)) = Some (n div 10)" by (rule "1.IH")
    with False show ?thesis
      by (subst show_nat.simps) (simp add: digits_value_append digit_of_digit)
  qed
qed

lemma show_nat_chars: "c \<in> set (show_nat n) \<Longrightarrow> \<exists>d < 10. c = digit_char d"
proof (induction n rule: show_nat.induct)
  case (1 n)
  show ?case
  proof (cases "n < 10")
    case True
    then show ?thesis using "1.prems" by (subst (asm) show_nat.simps) auto
  next
    case False
    then have "show_nat n = show_nat (n div 10) @ [digit_char (n mod 10)]"
      by (subst show_nat.simps) simp
    with "1.prems" consider "c \<in> set (show_nat (n div 10))" | "c = digit_char (n mod 10)" by auto
    then show ?thesis
    proof cases
      case 1
      then show ?thesis using "1.IH" False by simp
    next
      case 2
      then show ?thesis by (intro exI [of _ "n mod 10"]) simp
    qed
  qed
qed

lemma digit_char_not_special:
  assumes "d < 10"
  shows "digit_char d \<noteq> CHR ''+''" and "digit_char d \<noteq> CHR ''-''" and "\<not> is_space (digit_char d)"
proof -
  have code: "of_char (digit_char d) = (48 + d :: nat)" using assms by (rule of_char_digit)
  show "digit_char d \<noteq> CHR ''+''"
  proof
    assume "digit_char d = CHR ''+''"
    then have "of_char (digit_char d) = (43 :: nat)" by simp
    with code show False by simp
  qed
  show "digit_char d \<noteq> CHR ''-''"
  proof
    assume "digit_char d = CHR ''-''"
    then have "of_char (digit_char d) = (45 :: nat)" by simp
    with code show False by simp
  qed
  show "\<not> is_space (digit_char d)" using assms by (simp add: is_space_def code)
qed

lemma parse_unsigned_show:
  assumes "n \<le> limit"
  shows "parse_unsigned limit (show_nat n) = Some n"
proof -
  obtain c r where s: "show_nat n = c # r"
    using show_nat_nonempty [of n] unfolding neq_Nil_conv by blast
  then have "\<exists>d < 10. c = digit_char d" by (intro show_nat_chars [of c n]) simp
  then obtain d where "d < 10" "c = digit_char d" by blast
  then have "c \<noteq> CHR ''+''" using digit_char_not_special(1) by simp
  then have "parse_unsigned limit (c # r)
      = (case digits_value 0 (c # r) of None \<Rightarrow> None | Some n \<Rightarrow> if n \<le> limit then Some n else None)"
    by (simp only: parse_unsigned_def parse_digits_def Let_def list.case list.distinct simp_thms if_False)
  also have "\<dots> = Some n" unfolding s [symmetric] digits_value_show using assms by simp
  finally show ?thesis unfolding s .
qed

lemma parse_i32_show:
  assumes "- (2 ^ 31) \<le> i" and "i < 2 ^ 31"
  shows "parse_i32 (show_int i) = Some i"
proof (cases "i < 0")
  case True
  then show ?thesis
    using assms digits_value_show [of "nat (- i)"]
    by (simp add: parse_i32_def show_int_def parse_digits_def)
next
  case False
  obtain c r where s: "show_nat (nat i) = c # r"
    using show_nat_nonempty [of "nat i"] unfolding neq_Nil_conv by blast
  then have "\<exists>d < 10. c = digit_char d" by (intro show_nat_chars [of c "nat i"]) simp
  then obtain d where "d < 10" "c = digit_char d" by blast
  then have "c \<noteq> CHR ''-''" using digit_char_not_special(2) by simp
  moreover have "parse_unsigned (2 ^ 31 - 1) (c # r) = Some (nat i)"
    using assms False parse_unsigned_show [of "nat i" "2 ^ 31 - 1"] s by simp
  ultimately show ?thesis using False s by (simp add: parse_i32_def show_int_def)
qed

lemma trim_no_space:
  assumes "\<And>c. c \<in> set s \<Longrightarrow> \<not> is_space c" and "\<And>c. c \<in> set a \<Longrightarrow> is_space c"
    and "\<And>c. c \<in> set b \<Longrightarrow> is_space c"
  shows "trim (a @ s @ b) = s"
proof (cases "s = []")
  case True
  have "dropWhile is_space (a @ b) = []"
    using assms(2,3) unfolding dropWhile_eq_Nil_conv by auto
  then have "trim_start (a @ s @ b) = []" by (simp only: True trim_start_def append_Nil)
  then show ?thesis by (simp add: trim_def True)
next
  case False
  then have "trim_start (a @ s @ b) = s @ b"
    using assms(1,2) by (cases s) (simp_all add: trim_start_def dropWhile_append2)
  moreover have "dropWhile is_space (rev b @ rev s) = rev s"
  proof -
    obtain x xs where x: "rev s = x # xs" using False by (cases "rev s") simp_all
    then have "x \<in> set s" by (metis list.set_intros(1) set_rev)
    then have "\<not> is_space x" by (rule assms(1))
    moreover have "\<And>c. c \<in> set (rev b) \<Longrightarrow> is_space c" using assms(3) by simp
    ultimately show ?thesis unfolding x by (subst dropWhile_append2) simp_all
  qed
  ultimately show ?thesis by (simp add: trim_def)
qed

end
