(* ===== verification/Topology.thy ===== *)
theory Topology
  imports Affinity Text
begin

text \<open>
  The machine's topology of \<open>util/system.rs\<close>: hyperthreads, cores, core complexes, nodes and the
  system, with the affinity mask of each, the index from CPU ids to positions, the lookups
  for the current CPU, and \<open>System::load\<close>, which reads the topology from sysfs. Ids are \<open>i32\<close> in
  the code and integers here; sysfs is a parameter, a function from CPU numbers to the
  files found there.
\<close>

section \<open>Data\<close>

record hyperthread = ht_id :: int

record core =
  core_id :: int
  hyperthreads :: "hyperthread list"

record core_complex =
  complex_id :: int
  cores :: "core list"

record numa_node =
  node_id :: int
  complexes :: "core_complex list"

record system =
  nodes :: "numa_node list"
  all_cores :: "core list"
  cpu_to_topology :: "int \<rightharpoonup> nat \<times> nat \<times> nat"

definition Hyperthread_new :: "int \<Rightarrow> hyperthread" where
  "Hyperthread_new i = \<lparr>ht_id = i\<rparr>"

definition Core_new :: "int \<Rightarrow> hyperthread list \<Rightarrow> core" where
  "Core_new i hts = \<lparr>core_id = i, hyperthreads = hts\<rparr>"

definition CoreComplex_new :: "int \<Rightarrow> core list \<Rightarrow> core_complex" where
  "CoreComplex_new i cs = \<lparr>complex_id = i, cores = cs\<rparr>"

definition Node_new :: "int \<Rightarrow> core_complex list \<Rightarrow> numa_node" where
  "Node_new i xs = \<lparr>node_id = i, complexes = xs\<rparr>"

definition Node_cores :: "numa_node \<Rightarrow> core list" where
  "Node_cores n = fold (\<lambda>x acc. acc @ cores x) (complexes n) []"

section \<open>Masks\<close>

definition Hyperthread_mask :: "hyperthread \<Rightarrow> mask outcome" where
  "Hyperthread_mask h = cpu_set (word_of_int (ht_id h)) mask_zero"

definition Core_mask :: "core \<Rightarrow> mask outcome" where
  "Core_mask c = or_all Hyperthread_mask (hyperthreads c) mask_zero"

definition CoreComplex_mask :: "core_complex \<Rightarrow> mask outcome" where
  "CoreComplex_mask x = or_all Core_mask (cores x) mask_zero"

definition Node_mask :: "numa_node \<Rightarrow> mask outcome" where
  "Node_mask n = or_all CoreComplex_mask (complexes n) mask_zero"

definition System_mask :: "system \<Rightarrow> mask outcome" where
  "System_mask s = or_all Node_mask (nodes s) mask_zero"

section \<open>Printing\<close>

text \<open>The loop of every \<open>Display\<close>: the items with a comma and a space between them.\<close>

definition write_items :: "('a \<Rightarrow> string) \<Rightarrow> 'a list \<Rightarrow> string" where
  "write_items f xs =
     concat (map (\<lambda>(i, x). (if 0 < i then '', '' else []) @ f x) (enumerate 0 xs))"

definition show_hyperthread :: "hyperthread \<Rightarrow> string" where
  "show_hyperthread h = ''Hyperthread{id='' @ show_int (ht_id h) @ ''}''"

definition show_core :: "core \<Rightarrow> string" where
  "show_core c = ''Core{id='' @ show_int (core_id c) @ '', hyperthreads=[''
     @ write_items show_hyperthread (hyperthreads c) @ '']}''"

definition show_complex :: "core_complex \<Rightarrow> string" where
  "show_complex x = ''CoreComplex{id='' @ show_int (complex_id x) @ '', cores=[''
     @ write_items show_core (cores x) @ '']}''"

definition show_node :: "numa_node \<Rightarrow> string" where
  "show_node n = ''Node{id='' @ show_int (node_id n) @ '', complexes=[''
     @ write_items show_complex (complexes n) @ '']}''"

section \<open>The system and its index\<close>

text \<open>
  The four nested loops of \<open>System::new\<close> as the list of insertions they make, in order; a
  later insertion of the same CPU id overwrites an earlier one.
\<close>

definition topology_entries :: "numa_node list \<Rightarrow> (int \<times> nat \<times> nat \<times> nat) list" where
  "topology_entries ns =
     concat (map (\<lambda>(i, n). concat (map (\<lambda>(j, x). concat (map (\<lambda>(k, c).
       map (\<lambda>h. (ht_id h, i, j, k)) (hyperthreads c))
         (enumerate 0 (cores x)))) (enumerate 0 (complexes n)))) (enumerate 0 ns))"

definition System_new :: "numa_node list \<Rightarrow> system" where
  "System_new ns =
     \<lparr>nodes = ns,
      all_cores = sort_key core_id (fold (\<lambda>n acc. acc @ Node_cores n) ns []),
      cpu_to_topology = fold (\<lambda>(cpu, p) m. m(cpu \<mapsto> p)) (topology_entries ns) Map.empty\<rparr>"

definition System_logical_cpus :: "system \<Rightarrow> nat" where
  "System_logical_cpus s = fold (\<lambda>c count. count + length (hyperthreads c)) (all_cores s) 0"

definition System_complexes :: "system \<Rightarrow> nat" where
  "System_complexes s = sum_list (map (\<lambda>n. length (complexes n)) (nodes s))"

definition show_system :: "system \<Rightarrow> string" where
  "show_system s = ''System{nodes=['' @ write_items show_node (nodes s)
     @ ''], logical_cpus='' @ show_nat (System_logical_cpus s) @ ''}''"

text \<open>Indexing a vector panics beyond its end.\<close>

definition vec_index :: "'a list \<Rightarrow> nat \<Rightarrow> 'a outcome" where
  "vec_index xs i = (if i < length xs then Inr (xs ! i) else Inl IndexOutOfBounds)"

text \<open>The current CPU is the answer of \<open>sched_getcpu\<close>, with the error's text when it is negative.\<close>

definition current_cpu :: "int \<times> string \<Rightarrow> int result" where
  "current_cpu getcpu =
     (if fst getcpu < 0 then Inl (Anyhow (''failed to get current CPU: '' @ snd getcpu))
      else Inr (fst getcpu))"

definition not_found :: "string \<Rightarrow> int \<Rightarrow> 'a result" where
  "not_found what cpu = Inl (Anyhow (''failed to find '' @ what @ '' for CPU '' @ show_int cpu))"

definition lookup_core :: "system \<Rightarrow> nat \<times> nat \<times> nat \<Rightarrow> core outcome" where
  "lookup_core s p =
     (case p of (i, j, k) \<Rightarrow>
        bind_sum (vec_index (nodes s) i) (\<lambda>n.
        bind_sum (vec_index (complexes n) j) (\<lambda>x. vec_index (cores x) k)))"

definition current_hyperthread :: "system \<Rightarrow> int \<times> string \<Rightarrow> hyperthread result outcome" where
  "current_hyperthread s getcpu =
     (case current_cpu getcpu of
        Inl e \<Rightarrow> Inr (Inl e)
      | Inr cpu \<Rightarrow>
          (case cpu_to_topology s cpu of
             None \<Rightarrow> Inr (not_found ''hyperthread'' cpu)
           | Some p \<Rightarrow>
               bind_sum (lookup_core s p) (\<lambda>c.
                 (case find (\<lambda>h. ht_id h = cpu) (hyperthreads c) of
                    Some h \<Rightarrow> Inr (Inr h)
                  | None \<Rightarrow> Inr (not_found ''hyperthread'' cpu)))))"

definition current_core :: "system \<Rightarrow> int \<times> string \<Rightarrow> core result outcome" where
  "current_core s getcpu =
     (case current_cpu getcpu of
        Inl e \<Rightarrow> Inr (Inl e)
      | Inr cpu \<Rightarrow>
          (case cpu_to_topology s cpu of
             None \<Rightarrow> Inr (not_found ''core'' cpu)
           | Some p \<Rightarrow> bind_sum (lookup_core s p) (\<lambda>c. Inr (Inr c))))"

definition current_complex :: "system \<Rightarrow> int \<times> string \<Rightarrow> core_complex result outcome" where
  "current_complex s getcpu =
     (case current_cpu getcpu of
        Inl e \<Rightarrow> Inr (Inl e)
      | Inr cpu \<Rightarrow>
          (case cpu_to_topology s cpu of
             None \<Rightarrow> Inr (not_found ''complex'' cpu)
           | Some (i, j, _) \<Rightarrow>
               bind_sum (vec_index (nodes s) i) (\<lambda>n.
               bind_sum (vec_index (complexes n) j) (\<lambda>x. Inr (Inr x)))))"

definition current_node :: "system \<Rightarrow> int \<times> string \<Rightarrow> numa_node result outcome" where
  "current_node s getcpu =
     (case current_cpu getcpu of
        Inl e \<Rightarrow> Inr (Inl e)
      | Inr cpu \<Rightarrow>
          (case cpu_to_topology s cpu of
             None \<Rightarrow> Inr (not_found ''node'' cpu)
           | Some (i, _, _) \<Rightarrow>
               bind_sum (vec_index (nodes s) i) (\<lambda>n. Inr (Inr n))))"

section \<open>Reading sysfs\<close>

text \<open>
  A file that exists either fails to open or read, or has contents. A cache directory lists
  its entries, any of which may fail; an entry may have the files \<open>level\<close> and \<open>id\<close>. A CPU
  directory may have the three topology files and the cache directory.
\<close>

type_synonym sys_file = "string result option"

record cache_entry =
  level_file :: sys_file
  id_file :: sys_file

record cpu_dir =
  package_file :: sys_file
  core_file :: sys_file
  die_file :: sys_file
  cache_dir :: "cache_entry result list result option"

text \<open>
  \<open>read_id dflt f\<close>: the default when the file does not exist, the error of a failed read,
  otherwise the trimmed contents parsed as an \<open>i32\<close>, with the default again when they do not parse.
\<close>

definition read_id :: "int \<Rightarrow> sys_file \<Rightarrow> int result" where
  "read_id dflt f =
     (case f of
        None \<Rightarrow> Inr dflt
      | Some r \<Rightarrow> bind_sum r (\<lambda>s. Inr (case parse_i32 (trim s) of None \<Rightarrow> dflt | Some v \<Rightarrow> v)))"

text \<open>The same read where a missing or unparsable file is no answer.\<close>

definition read_opt :: "sys_file \<Rightarrow> int option result" where
  "read_opt f = (case f of None \<Rightarrow> Inr None | Some r \<Rightarrow> bind_sum r (\<lambda>s. Inr (parse_i32 (trim s))))"

text \<open>The loop over the cache entries: the id of the first level-3 entry that has one.\<close>

fun l3_complex :: "cache_entry result list \<Rightarrow> int result" where
  "l3_complex [] = Inr 0"
| "l3_complex (e # es) =
     bind_sum e (\<lambda>entry.
     bind_sum (read_opt (level_file entry)) (\<lambda>lvl.
       if lvl = Some 3 then
         bind_sum (read_opt (id_file entry)) (\<lambda>i.
           case i of Some v \<Rightarrow> Inr v | None \<Rightarrow> l3_complex es)
       else l3_complex es))"

definition as_i32 :: "int \<Rightarrow> int" where
  "as_i32 i = sint (word_of_int i :: 32 word)"

text \<open>The three ids of one CPU: node, complex, core.\<close>

definition cpu_ids :: "int \<Rightarrow> cpu_dir \<Rightarrow> (int \<times> int \<times> int) result" where
  "cpu_ids cpu d =
     bind_sum (read_id 0 (package_file d)) (\<lambda>nid.
     bind_sum (read_id (as_i32 cpu) (core_file d)) (\<lambda>cid.
     bind_sum
       (case die_file d of
          Some _ \<Rightarrow> read_id 0 (die_file d)
        | None \<Rightarrow> (case cache_dir d of None \<Rightarrow> Inr 0 | Some es \<Rightarrow> bind_sum es l3_complex)) (\<lambda>xid.
     Inr (nid, xid, cid))))"

section \<open>Ordered maps\<close>

text \<open>
  A \<open>BTreeMap\<close> iterates in the order of its keys: an association list sorted by key.
  \<open>bt_entry k d f m\<close> is \<open>m.entry(k).or_default()\<close> with \<open>f\<close> applied to the value in place.
\<close>

fun bt_entry :: "int \<Rightarrow> 'v \<Rightarrow> ('v \<Rightarrow> 'v) \<Rightarrow> (int \<times> 'v) list \<Rightarrow> (int \<times> 'v) list" where
  "bt_entry k d f [] = [(k, f d)]"
| "bt_entry k d f ((k', v) # xs) =
     (if k < k' then (k, f d) # (k', v) # xs
      else if k = k' then (k, f v) # xs
      else (k', v) # bt_entry k d f xs)"

type_synonym topology_map = "(int \<times> (int \<times> (int \<times> int list) list) list) list"

definition add_cpu :: "int \<times> int \<times> int \<Rightarrow> int \<Rightarrow> topology_map \<Rightarrow> topology_map" where
  "add_cpu p cpu t =
     (case p of (nid, xid, cid) \<Rightarrow>
        bt_entry nid [] (bt_entry xid [] (bt_entry cid [] (\<lambda>cpus. cpus @ [cpu]))) t)"

text \<open>The loop over the CPUs; a CPU without a directory is skipped, the first error ends it.\<close>

fun scan_cpus :: "(int \<Rightarrow> cpu_dir option) \<Rightarrow> int list \<Rightarrow> topology_map \<Rightarrow> topology_map result" where
  "scan_cpus sysfs [] t = Inr t"
| "scan_cpus sysfs (cpu # rest) t =
     (case sysfs cpu of
        None \<Rightarrow> scan_cpus sysfs rest t
      | Some d \<Rightarrow>
          bind_sum (cpu_ids cpu d) (\<lambda>p. scan_cpus sysfs rest (add_cpu p (as_i32 cpu) t)))"

text \<open>The second half of \<open>load\<close>: the nested maps become nodes, complexes, cores, hyperthreads.\<close>

definition build_nodes :: "topology_map \<Rightarrow> numa_node list" where
  "build_nodes t =
     map (\<lambda>(nid, xs). Node_new nid
       (map (\<lambda>(xid, cs). CoreComplex_new xid
         (map (\<lambda>(cid, cpus). Core_new cid (map Hyperthread_new cpus)) cs)) xs)) t"

text \<open>\<open>num\<close> is the answer of \<open>sysconf\<close>, with the text of the last OS error.\<close>

definition System_load :: "int \<times> string \<Rightarrow> (int \<Rightarrow> cpu_dir option) \<Rightarrow> system result" where
  "System_load num sysfs =
     (if fst num \<le> 0 then Inl (Anyhow (''failed to get number of CPUs: '' @ snd num))
      else bind_sum (scan_cpus sysfs [0 .. fst num - 1] [])
        (\<lambda>t. Inr (System_new (build_nodes t))))"

section \<open>Masks cover exactly the CPUs below them\<close>

definition ht_cpus :: "hyperthread \<Rightarrow> nat set" where
  "ht_cpus h = {nat (ht_id h)}"

definition core_cpus :: "core \<Rightarrow> nat set" where
  "core_cpus c = (\<Union>h\<in>set (hyperthreads c). ht_cpus h)"

definition complex_cpus :: "core_complex \<Rightarrow> nat set" where
  "complex_cpus x = (\<Union>c\<in>set (cores x). core_cpus c)"

definition node_cpus :: "numa_node \<Rightarrow> nat set" where
  "node_cpus n = (\<Union>x\<in>set (complexes n). complex_cpus x)"

definition system_cpus :: "system \<Rightarrow> nat set" where
  "system_cpus s = (\<Union>n\<in>set (nodes s). node_cpus n)"

text \<open>An id the mask can hold: the raw write of \<open>cpu_set\<close> stays inside the array.\<close>

definition ht_ok :: "hyperthread \<Rightarrow> bool" where
  "ht_ok h \<longleftrightarrow> 0 \<le> ht_id h \<and> ht_id h < int mask_capacity"

definition core_ok :: "core \<Rightarrow> bool" where
  "core_ok c \<longleftrightarrow> (\<forall>h\<in>set (hyperthreads c). ht_ok h)"

definition complex_ok :: "core_complex \<Rightarrow> bool" where
  "complex_ok x \<longleftrightarrow> (\<forall>c\<in>set (cores x). core_ok c)"

definition node_ok :: "numa_node \<Rightarrow> bool" where
  "node_ok n \<longleftrightarrow> (\<forall>x\<in>set (complexes n). complex_ok x)"

definition system_ok :: "system \<Rightarrow> bool" where
  "system_ok s \<longleftrightarrow> (\<forall>n\<in>set (nodes s). node_ok n)"

lemma or_all_masks_zero:
  assumes "\<And>x. x \<in> set xs \<Longrightarrow> masks_exactly (f x) (A x)"
  shows "masks_exactly (or_all f xs mask_zero) (\<Union>x\<in>set xs. A x)"
  using or_all_masks [of mask_zero xs f A] assms by simp

lemma unat_cpu_id:
  assumes "0 \<le> i" and "i < int mask_capacity"
  shows "unat (word_of_int i :: usize) = nat i"
  using assms by (simp add: mask_capacity_def mask_words_def unsigned_of_int take_bit_int_eq_self)

interpretation hyperthread_set: cpu_set_provider Hyperthread_mask ht_cpus ht_ok
proof
  fix h assume "ht_ok h"
  then have "unat (word_of_int (ht_id h) :: usize) = nat (ht_id h)"
    and "unat (word_of_int (ht_id h) :: usize) < mask_capacity"
    using unat_cpu_id by (auto simp: ht_ok_def mask_capacity_def mask_words_def)
  then show "masks_exactly (Hyperthread_mask h) (ht_cpus h)"
    using cpu_set_masks [of mask_zero "word_of_int (ht_id h)"]
    by (simp add: Hyperthread_mask_def ht_cpus_def)
qed

interpretation core_set: cpu_set_provider Core_mask core_cpus core_ok
  by unfold_locales (unfold Core_mask_def core_cpus_def core_ok_def,
      blast intro: or_all_masks_zero hyperthread_set.mask_exact)

interpretation complex_set: cpu_set_provider CoreComplex_mask complex_cpus complex_ok
  by unfold_locales (unfold CoreComplex_mask_def complex_cpus_def complex_ok_def,
      blast intro: or_all_masks_zero core_set.mask_exact)

interpretation node_set: cpu_set_provider Node_mask node_cpus node_ok
  by unfold_locales (unfold Node_mask_def node_cpus_def node_ok_def,
      blast intro: or_all_masks_zero complex_set.mask_exact)

interpretation system_set: cpu_set_provider System_mask system_cpus system_ok
  by unfold_locales (unfold System_mask_def system_cpus_def system_ok_def,
      blast intro: or_all_masks_zero node_set.mask_exact)

section \<open>The index finds every hyperthread and nothing else\<close>

lemma fold_inserts: "fold (\<lambda>(k, v) m. m(k \<mapsto> v)) es m = m ++ map_of (rev es)"
  by (induction es arbitrary: m) (auto simp: map_add_upd_left map_add_assoc)

lemma in_concat_enumerate:
  "z \<in> set (concat (map (\<lambda>(i, x). f i x) (enumerate 0 xs))) \<longleftrightarrow> (\<exists>i<length xs. z \<in> set (f i (xs ! i)))"
  by (auto simp: in_set_enumerate_eq Bex_def)

lemma topology_entries_iff:
  "(cpu, i, j, k) \<in> set (topology_entries ns) \<longleftrightarrow>
     i < length ns \<and> j < length (complexes (ns ! i)) \<and> k < length (cores (complexes (ns ! i) ! j))
     \<and> cpu \<in> ht_id ` set (hyperthreads (cores (complexes (ns ! i) ! j) ! k))"
  unfolding topology_entries_def in_concat_enumerate by auto

definition node_ids :: "numa_node list \<Rightarrow> int set" where
  "node_ids ns = {ht_id h | h c x n. h \<in> set (hyperthreads c) \<and> c \<in> set (cores x)
     \<and> x \<in> set (complexes n) \<and> n \<in> set ns}"

lemma node_idsI:
  assumes "h \<in> set (hyperthreads c)" and "c \<in> set (cores x)" and "x \<in> set (complexes n)" and "n \<in> set ns"
  shows "ht_id h \<in> node_ids ns"
  using assms by (auto simp: node_ids_def)

lemma index_entry:
  assumes "cpu_to_topology (System_new ns) cpu = Some (i, j, k)"
  shows "i < length ns" and "j < length (complexes (ns ! i))"
    and "k < length (cores (complexes (ns ! i) ! j))"
    and "cpu \<in> ht_id ` set (hyperthreads (cores (complexes (ns ! i) ! j) ! k))"
proof -
  have "(cpu, i, j, k) \<in> set (topology_entries ns)"
    using assms map_of_SomeD [of "rev (topology_entries ns)" cpu]
    by (simp add: System_new_def fold_inserts)
  then show "i < length ns" and "j < length (complexes (ns ! i))"
    and "k < length (cores (complexes (ns ! i) ! j))"
    and "cpu \<in> ht_id ` set (hyperthreads (cores (complexes (ns ! i) ! j) ! k))"
    by (simp_all only: topology_entries_iff)
qed

lemma index_dom: "cpu_to_topology (System_new ns) cpu = None \<longleftrightarrow> cpu \<notin> node_ids ns"
proof -
  have "cpu_to_topology (System_new ns) cpu = None \<longleftrightarrow> cpu \<notin> fst ` set (topology_entries ns)"
    by (simp add: System_new_def fold_inserts map_of_eq_None_iff)
  moreover have "cpu \<in> fst ` set (topology_entries ns) \<longleftrightarrow> cpu \<in> node_ids ns"
  proof
    assume "cpu \<in> fst ` set (topology_entries ns)"
    then obtain i j k where "(cpu, i, j, k) \<in> set (topology_entries ns)" by force
    then have at: "i < length ns" "j < length (complexes (ns ! i))"
      "k < length (cores (complexes (ns ! i) ! j))"
      and "cpu \<in> ht_id ` set (hyperthreads (cores (complexes (ns ! i) ! j) ! k))"
      by (simp_all only: topology_entries_iff)
    then obtain h where "cpu = ht_id h" "h \<in> set (hyperthreads (cores (complexes (ns ! i) ! j) ! k))"
      by blast
    moreover note at [THEN nth_mem]
    ultimately show "cpu \<in> node_ids ns" unfolding node_ids_def by blast
  next
    assume "cpu \<in> node_ids ns"
    then obtain h c x n where h: "cpu = ht_id h" "h \<in> set (hyperthreads c)" "c \<in> set (cores x)"
      "x \<in> set (complexes n)" "n \<in> set ns" by (auto simp: node_ids_def)
    then obtain i j k where "i < length ns" "ns ! i = n" "j < length (complexes n)"
      "complexes n ! j = x" "k < length (cores x)" "cores x ! k = c" by (metis in_set_conv_nth)
    with h have "(cpu, i, j, k) \<in> set (topology_entries ns)" by (simp add: topology_entries_iff)
    then show "cpu \<in> fst ` set (topology_entries ns)" by force
  qed
  ultimately show ?thesis by blast
qed

lemma find_ht:
  assumes "cpu \<in> ht_id ` set hs"
  shows "\<exists>h. find (\<lambda>h. ht_id h = cpu) hs = Some h \<and> h \<in> set hs \<and> ht_id h = cpu"
  using assms by (induction hs) auto

lemma lookup_core_at:
  assumes "i < length (nodes s)" and "j < length (complexes (nodes s ! i))"
    and "k < length (cores (complexes (nodes s ! i) ! j))"
  shows "lookup_core s (i, j, k) = Inr (cores (complexes (nodes s ! i) ! j) ! k)"
  using assms by (simp add: lookup_core_def vec_index_def)

lemma System_new_nodes [simp]: "nodes (System_new ns) = ns"
  by (simp add: System_new_def)

lemma lookups_found:
  assumes "0 \<le> cpu" and "cpu \<in> node_ids ns"
  shows "\<exists>n x c h. n \<in> set ns \<and> x \<in> set (complexes n) \<and> c \<in> set (cores x)
        \<and> h \<in> set (hyperthreads c) \<and> ht_id h = cpu
        \<and> current_node (System_new ns) (cpu, msg) = Inr (Inr n)
        \<and> current_complex (System_new ns) (cpu, msg) = Inr (Inr x)
        \<and> current_core (System_new ns) (cpu, msg) = Inr (Inr c)
        \<and> current_hyperthread (System_new ns) (cpu, msg) = Inr (Inr h)"
proof -
  obtain i j k where Some: "cpu_to_topology (System_new ns) cpu = Some (i, j, k)"
    using index_dom [of ns cpu] assms(2) by auto
  note at = index_entry [OF Some]
  let ?n = "ns ! i" and ?x = "complexes (ns ! i) ! j" and ?c = "cores (complexes (ns ! i) ! j) ! k"
  obtain h where h: "find (\<lambda>h. ht_id h = cpu) (hyperthreads ?c) = Some h"
    "h \<in> set (hyperthreads ?c)" "ht_id h = cpu" using find_ht [OF at(4)] by blast
  have mem: "?n \<in> set ns" "?x \<in> set (complexes ?n)" "?c \<in> set (cores ?x)"
    using at by simp_all
  have core: "lookup_core (System_new ns) (i, j, k) = Inr ?c"
    using at by (intro lookup_core_at [of i "System_new ns", simplified])
  have "current_node (System_new ns) (cpu, msg) = Inr (Inr ?n)"
    "current_complex (System_new ns) (cpu, msg) = Inr (Inr ?x)"
    "current_core (System_new ns) (cpu, msg) = Inr (Inr ?c)"
    "current_hyperthread (System_new ns) (cpu, msg) = Inr (Inr h)"
    using assms(1) Some at h core
    by (simp_all add: current_node_def current_complex_def current_core_def current_hyperthread_def
        current_cpu_def vec_index_def)
  then show ?thesis using mem h by blast
qed

text \<open>
  The lookups of the current node, complex, core and hyperthread, on a system built by
  \<open>System::new\<close> from any nodes, duplicates included. They never panic on an index. For a CPU
  that is somewhere in the topology all four succeed and agree: the hyperthread has that
  id, and lies in the core, which lies in the complex, which lies in the node. For any other
  CPU all four fail with the message that names what was not found.
\<close>

theorem current_lookups_agree:
  assumes "0 \<le> cpu"
  shows "if cpu \<in> node_ids ns then
      \<exists>n x c h. n \<in> set ns \<and> x \<in> set (complexes n) \<and> c \<in> set (cores x)
        \<and> h \<in> set (hyperthreads c) \<and> ht_id h = cpu
        \<and> current_node (System_new ns) (cpu, msg) = Inr (Inr n)
        \<and> current_complex (System_new ns) (cpu, msg) = Inr (Inr x)
        \<and> current_core (System_new ns) (cpu, msg) = Inr (Inr c)
        \<and> current_hyperthread (System_new ns) (cpu, msg) = Inr (Inr h)
    else
      current_node (System_new ns) (cpu, msg) = Inr (not_found ''node'' cpu)
      \<and> current_complex (System_new ns) (cpu, msg) = Inr (not_found ''complex'' cpu)
      \<and> current_core (System_new ns) (cpu, msg) = Inr (not_found ''core'' cpu)
      \<and> current_hyperthread (System_new ns) (cpu, msg) = Inr (not_found ''hyperthread'' cpu)"
proof (cases "cpu \<in> node_ids ns")
  case True
  show ?thesis unfolding if_P [OF True] by (rule lookups_found [OF assms True])
next
  case False
  then show ?thesis using assms index_dom [of ns cpu]
    by (simp add: current_node_def current_complex_def current_core_def current_hyperthread_def
        current_cpu_def)
qed

theorem current_lookups_agree_witness:
  "\<exists>c. current_core (System_new [Node_new 0 [CoreComplex_new 0
      [Core_new 0 [Hyperthread_new 0, Hyperthread_new 2], Core_new 1 [Hyperthread_new 1]]]]) (2, [])
    = Inr (Inr c) \<and> (\<exists>h\<in>set (hyperthreads c). ht_id h = 2)"
proof -
  let ?ns = "[Node_new 0 [CoreComplex_new 0
      [Core_new 0 [Hyperthread_new 0, Hyperthread_new 2], Core_new 1 [Hyperthread_new 1]]]]"
  have "2 \<in> node_ids ?ns"
    using node_idsI [of "Hyperthread_new 2" "Core_new 0 [Hyperthread_new 0, Hyperthread_new 2]"
        "complexes (hd ?ns) ! 0" "hd ?ns" ?ns]
    by (simp add: Node_new_def CoreComplex_new_def Core_new_def Hyperthread_new_def)
  then show ?thesis using current_lookups_agree [of 2 ?ns "[]"] by auto
qed

text \<open>
  Running a function pinned to a core, for a core whose CPU ids fit the mask: while the
  function runs, the thread's affinity is exactly the core's CPUs; afterwards the thread has
  its original mask back and the function's effect stays.
\<close>

theorem core_run_restores_affinity:
  assumes "core_ok c" and "get_error env = None" and "\<And>m. set_error env m = None"
    and "restore_error env (fst st) = None"
  shows "\<exists>tm. mask_cpus tm = core_cpus c
    \<and> CPUSet_run env (Core_mask c) f st = (Inr (Inr ()), (fst st, snd (f (tm, snd st))))"
  using assms by (rule core_set.run_restores)

theorem core_run_restores_affinity_witness:
  "\<exists>tm. mask_cpus tm = {1, 5}
    \<and> CPUSet_run \<lparr>get_error = None, set_error = \<lambda>_. None, restore_error = \<lambda>_. None\<rparr>
        (Core_mask (Core_new 3 [Hyperthread_new 1, Hyperthread_new 5])) (\<lambda>(m, xs). (m, m # xs))
        (mask_zero, []) = (Inr (Inr ()), (mask_zero, [tm]))"
  using core_run_restores_affinity [of "Core_new 3 [Hyperthread_new 1, Hyperthread_new 5]"
      "\<lparr>get_error = None, set_error = \<lambda>_. None, restore_error = \<lambda>_. None\<rparr>" "(mask_zero, [])"
      "\<lambda>(m, xs). (m, m # xs)"]
  by (simp add: core_ok_def Core_new_def Hyperthread_new_def ht_ok_def core_cpus_def ht_cpus_def
      mask_capacity_def mask_words_def insert_commute)

text \<open>
  The mask of a whole system whose CPU ids fit the mask is exactly the set of its CPUs,
  and it is the union of the masks of its nodes, as each node's is of its complexes' and each
  complex's of its cores': no CPU is lost or added by the merging, at any level.
\<close>

theorem system_mask_exact:
  assumes "system_ok s"
  shows "masks_exactly (System_mask s) (system_cpus s)
    \<and> (\<forall>n\<in>set (nodes s). masks_exactly (Node_mask n) (node_cpus n) \<and> node_cpus n \<subseteq> system_cpus s
        \<and> (\<forall>x\<in>set (complexes n). masks_exactly (CoreComplex_mask x) (complex_cpus x)
          \<and> complex_cpus x \<subseteq> node_cpus n
          \<and> (\<forall>c\<in>set (cores x). masks_exactly (Core_mask c) (core_cpus c)
            \<and> core_cpus c \<subseteq> complex_cpus x)))"
proof (intro conjI ballI)
  show "masks_exactly (System_mask s) (system_cpus s)" using assms by (rule system_set.mask_exact)
next
  fix n assume n: "n \<in> set (nodes s)"
  then have ok: "node_ok n" using assms by (simp add: system_ok_def)
  then show "masks_exactly (Node_mask n) (node_cpus n)" by (rule node_set.mask_exact)
  show "node_cpus n \<subseteq> system_cpus s" using n by (auto simp: system_cpus_def)
  fix x assume x: "x \<in> set (complexes n)"
  then have okx: "complex_ok x" using ok by (simp add: node_ok_def)
  then show "masks_exactly (CoreComplex_mask x) (complex_cpus x)" by (rule complex_set.mask_exact)
  show "complex_cpus x \<subseteq> node_cpus n" using x by (auto simp: node_cpus_def)
  fix c assume c: "c \<in> set (cores x)"
  then have "core_ok c" using okx by (simp add: complex_ok_def)
  then show "masks_exactly (Core_mask c) (core_cpus c)" by (rule core_set.mask_exact)
  show "core_cpus c \<subseteq> complex_cpus x" using c by (auto simp: complex_cpus_def)
qed

theorem system_mask_exact_witness:
  "masks_exactly (System_mask (System_new [Node_new 0 [CoreComplex_new 0
      [Core_new 0 [Hyperthread_new 0, Hyperthread_new 64]]]])) {0, 64}"
  using system_mask_exact [of "System_new [Node_new 0 [CoreComplex_new 0
      [Core_new 0 [Hyperthread_new 0, Hyperthread_new 64]]]]"]
  by (simp add: system_ok_def node_ok_def complex_ok_def core_ok_def ht_ok_def Node_new_def
      CoreComplex_new_def Core_new_def Hyperthread_new_def mask_capacity_def mask_words_def
      system_cpus_def node_cpus_def complex_cpus_def core_cpus_def ht_cpus_def insert_commute)

end
