(* ===== verification/TopologyLoad.thy ===== *)
theory TopologyLoad
  imports Topology "HOL-Library.Multiset"
begin

text \<open>
  What \<open>System::load\<close> of \<open>util/system.rs\<close> promises: the ordered nested map it fills as a finite
  map from (node, complex, core) to the list of CPUs, and the system it builds from it.
\<close>

section \<open>Ordered maps as finite maps\<close>

definition bt_get :: "'v \<Rightarrow> (int \<times> 'v) list \<Rightarrow> int \<Rightarrow> 'v" where
  "bt_get d m k = (case map_of m k of None \<Rightarrow> d | Some v \<Rightarrow> v)"

definition bt_ok :: "('v \<Rightarrow> bool) \<Rightarrow> (int \<times> 'v) list \<Rightarrow> bool" where
  "bt_ok P m \<longleftrightarrow> sorted_wrt (<) (map fst m) \<and> (\<forall>v\<in>snd ` set m. P v)"

lemma bt_entry_keys: "fst ` set (bt_entry k d f m) = insert k (fst ` set m)"
  by (induction k d f m rule: bt_entry.induct) auto

lemma bt_entry_sorted:
  "sorted_wrt (<) (map fst m) \<Longrightarrow> sorted_wrt (<) (map fst (bt_entry k d f m))"
proof (induction k d f m rule: bt_entry.induct)
  case (2 k d f k' v xs)
  have "fst ` set (bt_entry k d f xs) = insert k (fst ` set xs)" by (rule bt_entry_keys)
  then show ?case using 2 by auto
qed simp

lemma bt_entry_ok:
  assumes "bt_ok P m" and "P (f d)" and "\<And>v. P v \<Longrightarrow> P (f v)"
  shows "bt_ok P (bt_entry k d f m)"
proof -
  have "\<forall>v\<in>snd ` set m. P v \<Longrightarrow> \<forall>v\<in>snd ` set (bt_entry k d f m). P v"
    using assms(2,3) by (induction k d f m rule: bt_entry.induct) auto
  then show ?thesis using assms(1) bt_entry_sorted by (auto simp: bt_ok_def)
qed

lemma bt_get_entry:
  assumes "sorted_wrt (<) (map fst m)"
  shows "bt_get d (bt_entry k d f m) k' = (if k' = k then f (bt_get d m k) else bt_get d m k')"
  using assms
proof (induction k d f m rule: bt_entry.induct)
  case (1 k d f)
  then show ?case by (simp add: bt_get_def)
next
  case (2 k d f l v xs)
  consider "k < l" | "k = l" | "l < k" by linarith
  then show ?case
  proof cases
    case 1
    then have "map_of xs k = None" using "2.prems" by (fastforce simp: map_of_eq_None_iff)
    then show ?thesis using 1 by (simp add: bt_get_def)
  next
    case 3
    have "bt_get d (bt_entry k d f xs) k' = (if k' = k then f (bt_get d xs k) else bt_get d xs k')"
      using "2.IH" 3 "2.prems" by simp
    moreover have "bt_get d ((l, v) # ys) j = (if j = l then v else bt_get d ys j)" for ys j
      by (simp add: bt_get_def)
    ultimately show ?thesis using 3 by (cases "k' = k") simp_all
  qed (simp add: bt_get_def)
qed

lemma bt_entry_weight:
  assumes "w (f d) = w d + Suc 0" and "w d = 0" and "\<And>v. w (f v) = w v + Suc 0"
  shows "sum_list (map (\<lambda>p. w (snd p)) (bt_entry k d f m)) = sum_list (map (\<lambda>p. w (snd p)) m) + Suc 0"
  using assms by (induction k d f m rule: bt_entry.induct) auto

text \<open>Every entry of a sorted map is what looking its key up returns.\<close>

lemma bt_get_member:
  assumes "sorted_wrt (<) (map fst m)" and "(k, v) \<in> set m"
  shows "bt_get d m k = v"
proof -
  have "distinct (map fst m)" using assms(1) strict_sorted_iff by blast
  then show ?thesis using assms(2) by (simp add: bt_get_def)
qed

lemma bt_get_differs: "bt_get d m k \<noteq> d \<Longrightarrow> (k, bt_get d m k) \<in> set m"
  by (auto simp: bt_get_def split: option.splits dest: map_of_SomeD)

section \<open>The topology map\<close>

definition topo_get :: "topology_map \<Rightarrow> int \<times> int \<times> int \<Rightarrow> int list" where
  "topo_get t p = (case p of (nid, xid, cid) \<Rightarrow> bt_get [] (bt_get [] (bt_get [] t nid) xid) cid)"

definition topo_ok :: "topology_map \<Rightarrow> bool" where
  "topo_ok t \<longleftrightarrow> bt_ok (\<lambda>xs. xs \<noteq> [] \<and> bt_ok (\<lambda>cs. cs \<noteq> [] \<and> bt_ok (\<lambda>cpus. cpus \<noteq> []) cs) xs) t"

definition topo_count :: "topology_map \<Rightarrow> nat" where
  "topo_count t = sum_list (map (\<lambda>p. sum_list (map (\<lambda>p. sum_list (map (\<lambda>p. length (snd p)) (snd p))) (snd p))) t)"

lemma bt_ok_Nil [simp]: "bt_ok P []"
  by (simp add: bt_ok_def)

lemma bt_entry_nonempty [simp]: "bt_entry k d f m \<noteq> []"
  by (cases m) (auto split: if_splits)

lemma bt_get_ok:
  assumes "bt_ok P m" and "bt_get d m k \<noteq> d"
  shows "P (bt_get d m k)"
  using bt_get_differs [OF assms(2)] assms(1) by (force simp: bt_ok_def)

lemma bt_get_sorted:
  assumes "bt_ok (\<lambda>v. v \<noteq> [] \<and> bt_ok P v) m"
  shows "bt_ok P (bt_get [] m k)"
  using bt_get_ok [OF assms, of "[]" k] by (cases "bt_get [] m k = []") auto

lemma add_cpu_ok: "topo_ok t \<Longrightarrow> topo_ok (add_cpu p cpu t)"
  by (cases p) (auto simp: topo_ok_def add_cpu_def intro!: bt_entry_ok)

lemma bt_okD: "bt_ok P m \<Longrightarrow> sorted_wrt (<) (map fst m)"
  by (simp add: bt_ok_def)

lemma topo_get_add_cpu:
  assumes "topo_ok t"
  shows "topo_get (add_cpu p cpu t) q = (if q = p then topo_get t p @ [cpu] else topo_get t q)"
proof -
  obtain a b c where p: "p = (a, b, c)" by (cases p)
  obtain a' b' c' where q: "q = (a', b', c')" by (cases q)
  note ok1 = assms [unfolded topo_ok_def]
  note ok2 = bt_get_sorted [OF ok1, of a]
  note ok3 = bt_get_sorted [OF ok2, of b]
  show ?thesis
    using bt_okD [OF ok1] bt_okD [OF ok2] bt_okD [OF ok3]
    by (simp add: p q topo_get_def add_cpu_def bt_get_entry)
qed

lemma topo_count_add_cpu: "topo_count (add_cpu p cpu t) = topo_count t + 1"
proof -
  obtain a b c where p: "p = (a, b, c)" by (cases p)
  show ?thesis
    unfolding topo_count_def add_cpu_def p prod.case One_nat_def
    by (intro bt_entry_weight) simp_all
qed

section \<open>The scan\<close>

text \<open>The CPUs of a list that exist and whose files name the place \<open>p\<close>.\<close>

definition cpus_at :: "(int \<Rightarrow> cpu_dir option) \<Rightarrow> int \<times> int \<times> int \<Rightarrow> int list \<Rightarrow> int list" where
  "cpus_at sysfs p cpus =
     filter (\<lambda>cpu. case sysfs cpu of None \<Rightarrow> False | Some d \<Rightarrow> cpu_ids cpu d = Inr p) cpus"

definition cpu_exists :: "(int \<Rightarrow> cpu_dir option) \<Rightarrow> int \<Rightarrow> bool" where
  "cpu_exists sysfs cpu \<longleftrightarrow> sysfs cpu \<noteq> None"

definition unreadable :: "(int \<Rightarrow> cpu_dir option) \<Rightarrow> int \<Rightarrow> bool" where
  "unreadable sysfs cpu = (case sysfs cpu of None \<Rightarrow> False | Some d \<Rightarrow> isl (cpu_ids cpu d))"

lemma not_isl_iff: "\<not> isl r \<longleftrightarrow> (\<exists>x. r = Inr x)"
  by (cases r) auto

lemma scan_cpus_ok:
  assumes "scan_cpus sysfs cpus t = Inr t'" and "topo_ok t"
  shows "topo_ok t'"
    and "topo_get t' p = topo_get t p @ map as_i32 (cpus_at sysfs p cpus)"
    and "topo_count t' = topo_count t + length (filter (cpu_exists sysfs) cpus)"
    and "\<forall>cpu\<in>set cpus. \<not> unreadable sysfs cpu"
  using assms
proof (induction sysfs cpus t rule: scan_cpus.induct)
  case (2 sysfs cpu rest t)
  { case 1 then show ?case using 2 by (auto split: option.splits simp: bind_sum_Inr_iff add_cpu_ok) }
  { case 2 then show ?case using "2.IH"
      by (auto split: option.splits simp: bind_sum_Inr_iff add_cpu_ok topo_get_add_cpu cpus_at_def) }
  { case 3 then show ?case using "2.IH"
      by (auto split: option.splits simp: bind_sum_Inr_iff add_cpu_ok topo_count_add_cpu cpu_exists_def) }
  { case 4 then show ?case using "2.IH"
      by (cases "sysfs cpu") (auto simp: bind_sum_Inr_iff add_cpu_ok unreadable_def [of sysfs cpu]) }
qed (simp_all add: cpus_at_def)

lemma scan_cpus_total:
  assumes "\<forall>cpu\<in>set cpus. \<not> unreadable sysfs cpu"
  shows "\<exists>t'. scan_cpus sysfs cpus t = Inr t'"
  using assms
proof (induction sysfs cpus t rule: scan_cpus.induct)
  case (2 sysfs cpu rest t)
  then show ?case by (cases "sysfs cpu") (auto simp: unreadable_def not_isl_iff)
qed simp

section \<open>The system built from the map\<close>

lemma build_nodes_shape:
  assumes "topo_ok t" and "n \<in> set (build_nodes t)" and "x \<in> set (complexes n)" and "c \<in> set (cores x)"
  shows "map ht_id (hyperthreads c) = topo_get t (node_id n, complex_id x, core_id c)"
    and "hyperthreads c \<noteq> []"
proof -
  obtain xs where n: "(node_id n, xs) \<in> set t"
    "complexes n = map (\<lambda>(xid, cs). CoreComplex_new xid
         (map (\<lambda>(cid, cpus). Core_new cid (map Hyperthread_new cpus)) cs)) xs"
    using assms(2) by (auto simp: build_nodes_def Node_new_def)
  obtain cs where x: "(complex_id x, cs) \<in> set xs"
    "cores x = map (\<lambda>(cid, cpus). Core_new cid (map Hyperthread_new cpus)) cs"
    using assms(3) by (auto simp: n(2) CoreComplex_new_def)
  obtain cpus where c: "(core_id c, cpus) \<in> set cs" "hyperthreads c = map Hyperthread_new cpus"
    using assms(4) by (auto simp: x(2) Core_new_def)
  note ok1 = assms(1) [unfolded topo_ok_def]
  have ok2: "bt_ok (\<lambda>cs. cs \<noteq> [] \<and> bt_ok (\<lambda>cpus. cpus \<noteq> []) cs) xs"
    using ok1 n(1) by (force simp: bt_ok_def)
  have ok3: "bt_ok (\<lambda>cpus. cpus \<noteq> []) cs" using ok2 x(1) by (force simp: bt_ok_def)
  have "cpus \<noteq> []" using ok3 c(1) by (force simp: bt_ok_def)
  then show "hyperthreads c \<noteq> []" by (simp add: c(2))
  have "bt_get [] t (node_id n) = xs" by (rule bt_get_member [OF bt_okD [OF ok1] n(1)])
  moreover have "bt_get [] xs (complex_id x) = cs" by (rule bt_get_member [OF bt_okD [OF ok2] x(1)])
  moreover have "bt_get [] cs (core_id c) = cpus" by (rule bt_get_member [OF bt_okD [OF ok3] c(1)])
  ultimately have "topo_get t (node_id n, complex_id x, core_id c) = cpus" by (simp add: topo_get_def)
  then show "map ht_id (hyperthreads c) = topo_get t (node_id n, complex_id x, core_id c)"
    by (simp add: c(2) comp_def Hyperthread_new_def)
qed

lemma build_nodes_complete:
  assumes "topo_get t (nid, xid, cid) \<noteq> []"
  shows "\<exists>n x c. n \<in> set (build_nodes t) \<and> x \<in> set (complexes n) \<and> c \<in> set (cores x)
    \<and> node_id n = nid \<and> complex_id x = xid \<and> core_id c = cid
    \<and> map ht_id (hyperthreads c) = topo_get t (nid, xid, cid)"
proof -
  let ?xs = "bt_get [] t nid" and ?l = "topo_get t (nid, xid, cid)"
  let ?cs = "bt_get [] ?xs xid"
  have l: "(cid, ?l) \<in> set ?cs" using assms bt_get_differs [of "[]" ?cs cid] by (simp add: topo_get_def)
  then have cs: "(xid, ?cs) \<in> set ?xs" by (intro bt_get_differs) auto
  then have xs: "(nid, ?xs) \<in> set t" by (intro bt_get_differs) auto
  define c where "c = Core_new cid (map Hyperthread_new ?l)"
  define x where "x = CoreComplex_new xid (map (\<lambda>(cid, cpus). Core_new cid (map Hyperthread_new cpus)) ?cs)"
  define n where "n = Node_new nid (map (\<lambda>(xid, cs). CoreComplex_new xid
         (map (\<lambda>(cid, cpus). Core_new cid (map Hyperthread_new cpus)) cs)) ?xs)"
  have "c \<in> set (cores x)" using l by (force simp: c_def x_def CoreComplex_new_def)
  moreover have "x \<in> set (complexes n)" using cs by (force simp: x_def n_def Node_new_def)
  moreover have "n \<in> set (build_nodes t)" using xs by (force simp: n_def build_nodes_def)
  moreover have "node_id n = nid" "complex_id x = xid" "core_id c = cid" "map ht_id (hyperthreads c) = ?l"
    by (simp_all add: n_def x_def c_def Node_new_def CoreComplex_new_def Core_new_def Hyperthread_new_def comp_def)
  ultimately show ?thesis by blast
qed

lemma build_nodes_sorted:
  assumes "topo_ok t"
  shows "sorted_wrt (<) (map node_id (build_nodes t))"
    and "n \<in> set (build_nodes t) \<Longrightarrow> sorted_wrt (<) (map complex_id (complexes n))"
    and "n \<in> set (build_nodes t) \<Longrightarrow> x \<in> set (complexes n) \<Longrightarrow> sorted_wrt (<) (map core_id (cores x))"
  using assms
  by (force simp: build_nodes_def topo_ok_def bt_ok_def Node_new_def CoreComplex_new_def Core_new_def
      comp_def case_prod_beta)+

section \<open>Properties\<close>

lemma fold_append: "fold (\<lambda>x acc. acc @ f x) xs acc = acc @ concat (map f xs)"
  by (induction xs arbitrary: acc) simp_all

lemma fold_count: "fold (\<lambda>x k. k + f x) xs k = k + sum_list (map f xs)" for k :: nat
  by (induction xs arbitrary: k) simp_all

lemma Node_cores_eq: "Node_cores n = concat (map cores (complexes n))"
  by (simp add: Node_cores_def fold_append)

lemma all_cores_eq:
  "all_cores (System_new ns) = sort_key core_id (concat (map Node_cores ns))"
  by (simp add: System_new_def fold_append)

lemma sum_sort_key: "sum_list (map f (sort_key k xs)) = sum_list (map f xs)" for f :: "'a \<Rightarrow> nat"
  by (metis mset_map mset_sort sum_mset_sum_list)

lemma sum_concat: "sum_list (map f (concat xss)) = sum_list (map (\<lambda>xs. sum_list (map f xs)) xss)"
  for f :: "'a \<Rightarrow> nat"
  by (induction xss) simp_all

lemma logical_cpus_build: "System_logical_cpus (System_new (build_nodes t)) = topo_count t"
  by (simp add: System_logical_cpus_def fold_count all_cores_eq sum_sort_key sum_concat Node_cores_eq
      build_nodes_def topo_count_def comp_def case_prod_beta Node_new_def CoreComplex_new_def Core_new_def)

lemma System_load_map:
  assumes "System_load num sysfs = Inr s"
  shows "\<exists>t. s = System_new (build_nodes t) \<and> topo_ok t
    \<and> (\<forall>p. topo_get t p = map as_i32 (cpus_at sysfs p [0 .. fst num - 1]))
    \<and> topo_count t = length (filter (cpu_exists sysfs) [0 .. fst num - 1])
    \<and> (\<forall>cpu\<in>{0 ..< fst num}. \<not> unreadable sysfs cpu)"
proof -
  obtain t where t: "scan_cpus sysfs [0 .. fst num - 1] [] = Inr t" "s = System_new (build_nodes t)"
    using assms by (auto simp: System_load_def bind_sum_Inr_iff split: if_splits)
  have empty: "topo_ok []" "topo_get [] p = []" "topo_count [] = 0" for p
    by (simp_all add: topo_ok_def topo_get_def topo_count_def bt_get_def split: prod.split)
  note scan = scan_cpus_ok [OF t(1) empty(1)]
  have "\<forall>cpu\<in>{0 ..< fst num}. \<not> unreadable sysfs cpu" using scan(4) by simp
  then show ?thesis using scan(1-3) empty t(2) by (intro exI [of _ t]) simp
qed

lemma read_id_None [simp]: "read_id d None = Inr d"
  by (simp add: read_id_def)

lemma load_shape:
  assumes "System_load num sysfs = Inr s"
    and "n \<in> set (nodes s)" and "x \<in> set (complexes n)" and "c \<in> set (cores x)"
  shows "hyperthreads c \<noteq> []"
    and "map ht_id (hyperthreads c)
      = map as_i32 (cpus_at sysfs (node_id n, complex_id x, core_id c) [0 .. fst num - 1])"
  using System_load_map [OF assms(1)] build_nodes_shape assms(2-) by fastforce+

lemma load_covers:
  assumes "System_load num sysfs = Inr s" and "0 \<le> cpu" and "cpu < fst num" and "sysfs cpu = Some d"
  shows "\<exists>n\<in>set (nodes s). \<exists>x\<in>set (complexes n). \<exists>c\<in>set (cores x).
    cpu_ids cpu d = Inr (node_id n, complex_id x, core_id c) \<and> as_i32 cpu \<in> ht_id ` set (hyperthreads c)"
proof -
  obtain t where t: "s = System_new (build_nodes t)"
    "\<forall>p. topo_get t p = map as_i32 (cpus_at sysfs p [0 .. fst num - 1])"
    "\<forall>cpu\<in>{0 ..< fst num}. \<not> unreadable sysfs cpu"
    using System_load_map [OF assms(1)] by blast
  obtain a b c where ids: "cpu_ids cpu d = Inr (a, b, c)"
  proof (cases "cpu_ids cpu d")
    case (Inl e)
    have "\<not> unreadable sysfs cpu" using t(3) assms(2,3) by simp
    then show ?thesis using Inl assms(4) by (simp add: unreadable_def)
  next
    case (Inr p)
    then show ?thesis by (cases p) (auto intro: that)
  qed
  then have "cpu \<in> set (cpus_at sysfs (a, b, c) [0 .. fst num - 1])"
    using assms by (simp add: cpus_at_def)
  then have mem: "as_i32 cpu \<in> set (topo_get t (a, b, c))" by (simp add: t(2))
  then have "topo_get t (a, b, c) \<noteq> []" by auto
  then obtain n x k where k: "n \<in> set (build_nodes t)" "x \<in> set (complexes n)" "k \<in> set (cores x)"
    "node_id n = a" "complex_id x = b" "core_id k = c" "map ht_id (hyperthreads k) = topo_get t (a, b, c)"
    using build_nodes_complete by blast
  have "as_i32 cpu \<in> set (map ht_id (hyperthreads k))" using mem k(7) by simp
  then show ?thesis using k(1-6) ids t(1) by auto
qed

lemma load_sorted:
  assumes "System_load num sysfs = Inr s"
  shows "sorted_wrt (<) (map node_id (nodes s))"
    and "n \<in> set (nodes s) \<Longrightarrow> sorted_wrt (<) (map complex_id (complexes n))"
    and "n \<in> set (nodes s) \<Longrightarrow> x \<in> set (complexes n) \<Longrightarrow> sorted_wrt (<) (map core_id (cores x))"
  using System_load_map [OF assms] build_nodes_sorted by auto

lemma is_space_newline: "is_space newline"
  by code_simp

lemma show_int_no_space: "c \<in> set (show_int i) \<Longrightarrow> \<not> is_space c"
proof (cases "c = CHR ''-''")
  case False
  assume "c \<in> set (show_int i)"
  then have "\<exists>n. c \<in> set (show_nat n)" using False by (auto simp: show_int_def split: if_splits)
  then show ?thesis using show_nat_chars digit_char_not_special(3) by metis
qed (simp add: is_space_def)

lemma read_shown:
  assumes "- (2 ^ 31) \<le> i" and "i < 2 ^ 31"
  shows "read_id dflt (Some (Inr (show_int i @ [newline]))) = Inr i"
proof -
  have "trim ([] @ show_int i @ [newline]) = show_int i"
    by (rule trim_no_space) (simp_all add: show_int_no_space is_space_newline)
  then show ?thesis using parse_i32_show [OF assms] by (simp add: read_id_def)
qed

lemma show_seven: "show_int 7 = ''7''"
proof -
  have "digit_char 7 = CHR ''7''" by code_simp
  then show ?thesis by (simp add: show_int_def show_nat.simps)
qed

text \<open>
  C26. A system that \<open>System::load\<close> returns is what sysfs says. The hyperthreads of every core
  are, in ascending order, exactly the existing CPUs whose files name that node, that
  complex and that core, and there is at least one; every existing CPU is in such a core; the
  nodes, the complexes of a node and the cores of a complex come in strictly ascending order
  of their ids, so none is there twice.
\<close>

theorem load_matches_sysfs:
  assumes "System_load num sysfs = Inr s"
  shows "(\<forall>n\<in>set (nodes s). \<forall>x\<in>set (complexes n). \<forall>c\<in>set (cores x).
      hyperthreads c \<noteq> []
      \<and> map ht_id (hyperthreads c)
        = map as_i32 (cpus_at sysfs (node_id n, complex_id x, core_id c) [0 .. fst num - 1]))
    \<and> (\<forall>cpu d. 0 \<le> cpu \<and> cpu < fst num \<and> sysfs cpu = Some d \<longrightarrow>
      (\<exists>n\<in>set (nodes s). \<exists>x\<in>set (complexes n). \<exists>c\<in>set (cores x).
        cpu_ids cpu d = Inr (node_id n, complex_id x, core_id c)
        \<and> as_i32 cpu \<in> ht_id ` set (hyperthreads c)))
    \<and> sorted_wrt (<) (map node_id (nodes s))
    \<and> (\<forall>n\<in>set (nodes s). sorted_wrt (<) (map complex_id (complexes n))
        \<and> (\<forall>x\<in>set (complexes n). sorted_wrt (<) (map core_id (cores x))))"
  using load_shape [OF assms] load_covers [OF assms] load_sorted [OF assms]
  by (intro conjI ballI allI impI) auto

theorem load_matches_sysfs_witness:
  "map ht_id (hyperthreads (hd (cores (hd (complexes (hd (nodes
     (projr (System_load (3, []) (\<lambda>cpu. if cpu = 1 then None else Some
       \<lparr>package_file = None, core_file = Some (Inr (''7'' @ [newline])), die_file = None,
        cache_dir = None\<rparr>))))))))))
   = [0, 2]"
proof -
  let ?fs = "\<lambda>cpu::int. if cpu = 1 then None else Some
       \<lparr>package_file = None, core_file = Some (Inr (''7'' @ [newline])), die_file = None,
        cache_dir = None\<rparr>"
  have range: "[0 .. 2] = [0, 1, 2 :: int]" by (simp add: upto.simps)
  have seven: "read_id d (Some (Inr (CHR ''7'' # newline # []))) = Inr 7" for d
    using read_shown [of 7 d] by (simp add: show_seven)
  let ?ns = "[Node_new 0 [CoreComplex_new 0 [Core_new 7 [Hyperthread_new 0, Hyperthread_new 2]]]]"
  have built: "build_nodes (add_cpu (0, 0, 7) 2 (add_cpu (0, 0, 7) 0 [])) = ?ns"
    by (simp add: build_nodes_def add_cpu_def)
  have run: "System_load (3, []) ?fs = Inr (System_new ?ns)"
    unfolding built [symmetric] by (simp add: System_load_def range cpu_ids_def seven as_i32_def)
  show ?thesis using load_matches_sysfs [OF run]
    by (simp add: run cpus_at_def range cpu_ids_def seven as_i32_def
        Node_new_def CoreComplex_new_def Core_new_def)
qed

text \<open>
  After a successful load, the number of logical CPUs is the number of CPU directories that
  exist, and the flat list of all cores is sorted by id and has exactly the cores of the nodes.
\<close>

theorem load_counts_cpus:
  assumes "System_load num sysfs = Inr s"
  shows "System_logical_cpus s = length (filter (cpu_exists sysfs) [0 .. fst num - 1])
    \<and> sorted (map core_id (all_cores s))
    \<and> set (all_cores s) = (\<Union>n\<in>set (nodes s). \<Union>x\<in>set (complexes n). set (cores x))"
proof -
  obtain t where "s = System_new (build_nodes t)"
    "topo_count t = length (filter (cpu_exists sysfs) [0 .. fst num - 1])"
    using System_load_map [OF assms] by blast
  then show ?thesis by (simp add: logical_cpus_build all_cores_eq Node_cores_eq)
qed

theorem load_counts_cpus_witness:
  "\<exists>s. System_load (2, []) (\<lambda>cpu. Some \<lparr>package_file = None, core_file = None, die_file = None,
      cache_dir = None\<rparr>) = Inr s \<and> System_logical_cpus s = 2"
proof -
  let ?fs = "\<lambda>cpu::int. Some \<lparr>package_file = None, core_file = None, die_file = None,
      cache_dir = None\<rparr>"
  have range: "[0 .. 1] = [0, 1 :: int]" by (simp add: upto.simps)
  have run: "System_load (2, []) ?fs = Inr (System_new (build_nodes
      (add_cpu (0, 0, 1) 1 (add_cpu (0, 0, 0) 0 []))))"
    by (simp add: System_load_def range cpu_ids_def as_i32_def)
  show ?thesis using load_counts_cpus [OF run] run by (auto simp: range cpu_exists_def)
qed

text \<open>
  \<open>System::load\<close> fails exactly when the system reports no CPUs or when some existing CPU has
  a topology or cache file that cannot be read; contents that do not parse are never an error.
\<close>

theorem load_fails_iff:
  "isl (System_load num sysfs) \<longleftrightarrow>
     fst num \<le> 0 \<or> (\<exists>cpu\<in>{0 ..< fst num}. unreadable sysfs cpu)"
proof (cases "scan_cpus sysfs [0 .. fst num - 1] []")
  case (Inl e)
  then have "\<exists>cpu\<in>set [0 .. fst num - 1]. unreadable sysfs cpu"
    using scan_cpus_total [of "[0 .. fst num - 1]" sysfs "[]"] by auto
  then show ?thesis using Inl by (auto simp: System_load_def)
next
  case (Inr t)
  have "topo_ok []" by (simp add: topo_ok_def)
  then have "\<forall>cpu\<in>set [0 .. fst num - 1]. \<not> unreadable sysfs cpu"
    using Inr by (intro scan_cpus_ok(4))
  then show ?thesis using Inr by (auto simp: System_load_def)
qed

lemma as_i32_id: "0 \<le> i \<Longrightarrow> i < 2 ^ 31 \<Longrightarrow> as_i32 i = i"
  by (simp add: as_i32_def signed_of_int signed_take_bit_int_eq_self)

text \<open>
  On a machine with at most \<open>2 ^ 31\<close> CPUs, a thread that runs on any CPU that existed when the
  topology was loaded finds its core: \<open>current_core\<close> succeeds with the core whose id sysfs gave
  for that CPU, \<open>current_complex\<close> and \<open>current_node\<close> with the complex and the node sysfs gave.
\<close>

theorem loaded_cpu_is_found:
  assumes "System_load num sysfs = Inr s" and "fst num \<le> 2 ^ 31"
    and "0 \<le> cpu" and "cpu < fst num" and "sysfs cpu = Some d"
  shows "\<exists>n x c. current_node s (cpu, msg) = Inr (Inr n) \<and> current_complex s (cpu, msg) = Inr (Inr x)
    \<and> current_core s (cpu, msg) = Inr (Inr c)
    \<and> cpu_ids cpu d = Inr (node_id n, complex_id x, core_id c)"
proof -
  have small: "as_i32 k = k" if "k \<in> set [0 .. fst num - 1]" for k
    using that assms(2) by (intro as_i32_id) auto
  obtain t where t: "s = System_new (build_nodes t)" using System_load_map [OF assms(1)] by blast
  have cpu: "as_i32 cpu = cpu" using assms by (intro small) simp
  obtain n0 x0 c0 where "n0 \<in> set (nodes s)" "x0 \<in> set (complexes n0)" "c0 \<in> set (cores x0)"
    and "cpu \<in> ht_id ` set (hyperthreads c0)"
    using load_covers [OF assms(1,3-5)] unfolding cpu by blast
  then have "cpu \<in> node_ids (build_nodes t)" using t by (auto simp: node_ids_def)
  from lookups_found [OF assms(3) this] obtain n x c h where
    at: "n \<in> set (nodes s)" "x \<in> set (complexes n)" "c \<in> set (cores x)"
      "h \<in> set (hyperthreads c)" "ht_id h = cpu"
    and found: "current_node s (cpu, msg) = Inr (Inr n)" "current_complex s (cpu, msg) = Inr (Inr x)"
      "current_core s (cpu, msg) = Inr (Inr c)"
    using t by (metis System_new_nodes)
  have "cpu \<in> set (map ht_id (hyperthreads c))" using at(4,5) by auto
  then obtain k where "k \<in> set (cpus_at sysfs (node_id n, complex_id x, core_id c) [0 .. fst num - 1])"
    "as_i32 k = cpu" unfolding load_shape(2) [OF assms(1) at(1-3)] by auto
  then have "cpu_ids cpu d = Inr (node_id n, complex_id x, core_id c)"
    using small [of k] assms(5) by (simp add: cpus_at_def)
  then show ?thesis using found by blast
qed

theorem loaded_cpu_is_found_witness:
  "\<exists>s c. System_load (2, []) (\<lambda>cpu. Some \<lparr>package_file = None, core_file = None, die_file = None,
      cache_dir = None\<rparr>) = Inr s \<and> current_core s (1, []) = Inr (Inr c) \<and> core_id c = 1"
proof -
  let ?d = "\<lparr>package_file = None, core_file = None, die_file = None, cache_dir = None\<rparr>"
  have range: "[0 .. 1] = [0, 1 :: int]" by (simp add: upto.simps)
  have run: "System_load (2, []) (\<lambda>_. Some ?d) = Inr (System_new (build_nodes
      (add_cpu (0, 0, 1) 1 (add_cpu (0, 0, 0) 0 []))))"
    by (simp add: System_load_def range cpu_ids_def as_i32_def)
  show ?thesis using loaded_cpu_is_found [OF run, of 1 ?d "[]"] run
    by (auto simp: cpu_ids_def as_i32_def)
qed

text \<open>
  The id file of a CPU, on its whole domain: absent, it is the default; when it cannot be
  read, the load fails with that error; written as the kernel writes it, in decimal with a
  newline, every \<open>i32\<close> reads back as itself; any other contents are the default.
\<close>

theorem read_id_cases:
  shows "read_id dflt None = Inr dflt
    \<and> read_id dflt (Some (Inl e)) = Inl e
    \<and> (i \<in> {- (2 ^ 31) ..< 2 ^ 31} \<longrightarrow> read_id dflt (Some (Inr (show_int i @ [newline]))) = Inr i)
    \<and> (parse_i32 (trim s) = None \<longrightarrow> read_id dflt (Some (Inr s)) = Inr dflt)"
  using read_shown [of i dflt] by (auto simp: read_id_def)

theorem read_id_cases_witness:
  "read_id 0 (Some (Inr (show_int (- 12) @ [newline]))) = Inr (- 12)
   \<and> read_id 4 (Some (Inr ''x'')) = Inr 4"
proof -
  have "parse_i32 (trim ''x'') = None"
    by (simp add: parse_i32_def parse_unsigned_def parse_digits_def trim_def trim_start_def
        is_space_def digit_of_def)
  then show ?thesis
    using read_id_cases [of 0 undefined "- 12" "[]"] read_id_cases [of 4 undefined 0 "''x''"] by simp
qed

end
