(* ===== verification/Memfd.thy ===== *)
theory Memfd
  imports Prelude
begin

text \<open>
  \<open>util/memfd.rs\<close>: creation and release of a memory-backed file descriptor. The system
  calls are parameters (record \<open>memfd_env\<close>: what each call answers); the effect they have
  on the process, the open descriptors and the mappings, is the state \<open>kernel\<close>.
\<close>

section \<open>State and system calls\<close>

record kernel =
  open_fds :: "int set"
  mappings :: "(usize \<times> usize) set"

record memfd_env =
  sc_page_size :: "string + usize option"
  sc_memfd_create :: int
  sc_errno :: nat
  sc_ftruncate :: "usize \<Rightarrow> string option"
  sc_mmap :: "usize \<Rightarrow> string + usize"

record memfd =
  fd :: int
  data :: usize
  fsize :: usize

definition close_fd :: "int \<Rightarrow> kernel \<Rightarrow> kernel" where
  "close_fd f k = k\<lparr>open_fds := open_fds k - {f}\<rparr>"

text \<open>Position of the first NUL byte of a name, which \<open>CString::new\<close> refuses.\<close>

fun nul_position :: "string \<Rightarrow> nat option" where
  "nul_position [] = None"
| "nul_position (c # cs) = (if c = CHR 0x00 then Some 0 else map_option Suc (nul_position cs))"

section \<open>Operations\<close>

definition mmap_step :: "memfd_env \<Rightarrow> int \<Rightarrow> usize \<Rightarrow> kernel \<Rightarrow> memfd result outcome \<times> kernel" where
  "mmap_step env f rounded k =
     (if rounded = 0 then (Inl UnwrapNone, k)
      else case sc_mmap env rounded of
        Inl e \<Rightarrow> (Inr (Inl (Anyhow (''Memory mapping failed: '' @ e))), close_fd f k)
      | Inr addr \<Rightarrow>
          (Inr (Inr \<lparr>fd = f, data = addr, fsize = rounded\<rparr>),
           k\<lparr>mappings := insert (addr, rounded) (mappings k)\<rparr>))"

definition memfd_open_step :: "memfd_env \<Rightarrow> usize \<Rightarrow> kernel \<Rightarrow> memfd result outcome \<times> kernel" where
  "memfd_open_step env rounded k =
     (let f = sc_memfd_create env in
      if f = -1 then (Inr (Inl (OsError (sc_errno env))), k)
      else let k1 = k\<lparr>open_fds := insert f (open_fds k)\<rparr> in
        case sc_ftruncate env rounded of
          Some e \<Rightarrow> (Inr (Inl (Anyhow (''Failed to set size: '' @ e))), close_fd f k1)
        | None \<Rightarrow> mmap_step env f rounded k1)"

definition MemFd_create ::
    "bool \<Rightarrow> memfd_env \<Rightarrow> string \<Rightarrow> usize \<Rightarrow> kernel \<Rightarrow> memfd result outcome \<times> kernel" where
  "MemFd_create oc env name sz k =
     (case sc_page_size env of
        Inl e \<Rightarrow> (Inr (Inl (Anyhow (''System error: '' @ e))), k)
      | Inr None \<Rightarrow> (Inl UnwrapNone, k)
      | Inr (Some page) \<Rightarrow>
          (case round_up oc sz page of
             Inl p \<Rightarrow> (Inl p, k)
           | Inr rounded \<Rightarrow>
               (case nul_position name of
                  Some i \<Rightarrow>
                    (Inr (Inl (Anyhow (''Invalid memfd name: nul byte found in provided data at position: ''
                       @ show_nat i))), k)
                | None \<Rightarrow> memfd_open_step env rounded k)))"

definition MemFd_drop :: "memfd \<Rightarrow> kernel \<Rightarrow> kernel" where
  "MemFd_drop m k =
     (let k1 = (if data m \<noteq> 0 then k\<lparr>mappings := mappings k - {(data m, fsize m)}\<rparr> else k)
      in if fd m \<noteq> -1 then close_fd (fd m) k1 else k1)"

section \<open>What every creation does\<close>

named_theorems memfd_defs \<open>unfolding the creation\<close>

lemmas [memfd_defs] = MemFd_create_def memfd_open_step_def mmap_step_def Let_def

lemma MemFd_create_Ok:
  assumes "MemFd_create oc env name sz k = (Inr (Inr m), k')"
  obtains page where "sc_page_size env = Inr (Some page)"
    and "round_up oc sz page = Inr (fsize m)" and "fsize m \<noteq> 0"
    and "sc_mmap env (fsize m) = Inr (data m)"
    and "fd m = sc_memfd_create env" and "fd m \<noteq> -1"
    and "k' = \<lparr>open_fds = insert (fd m) (open_fds k),
               mappings = insert (data m, fsize m) (mappings k)\<rparr>"
  using assms
  by (auto simp: memfd_defs split: sum.splits option.splits if_splits)

lemma close_fd_insert:
  "f \<notin> open_fds k \<Longrightarrow> close_fd f (k\<lparr>open_fds := insert f (open_fds k)\<rparr>) = k"
  by (simp add: close_fd_def)

text \<open>
  The answers of a working kernel for the witnesses: 4 KiB pages, descriptor 3, a mapping at
  \<open>0x7000_0000\<close>. \<open>env_bad_mmap\<close> refuses the mapping.
\<close>

definition env_ok :: memfd_env where
  "env_ok = \<lparr>sc_page_size = Inr (Some 4096), sc_memfd_create = 3, sc_errno = 0,
             sc_ftruncate = (\<lambda>_. None), sc_mmap = (\<lambda>_. Inr 0x70000000)\<rparr>"

definition env_bad_mmap :: memfd_env where
  "env_bad_mmap = env_ok\<lparr>sc_mmap := (\<lambda>_. Inl ''ENOMEM'')\<rparr>"

definition kernel_stdio :: kernel where
  "kernel_stdio = \<lparr>open_fds = {0, 1, 2}, mappings = {}\<rparr>"

lemma is_pow2_4096: "is_pow2 4096"
  unfolding is_pow2_def by (rule exI [of _ 12]) simp

lemma round_up_eval:
  "round_up oc 5000 4096 = Inr 8192" "round_up oc 0 4096 = Inr 0"
  by (simp_all add: round_up_def add_ck_def sub_ck_def)

lemma MemFd_create_5000:
  "MemFd_create oc env_ok ''test'' 5000 kernel_stdio =
     (Inr (Inr \<lparr>fd = 3, data = 0x70000000, fsize = 8192\<rparr>),
      \<lparr>open_fds = {0, 1, 2, 3}, mappings = {(0x70000000, 8192)}\<rparr>)"
  by (simp add: memfd_defs env_ok_def kernel_stdio_def round_up_eval insert_commute)

section \<open>Properties\<close>

text \<open>
  A memfd that \<open>MemFd::create\<close> returns has the requested size rounded up to the page
  size: a multiple of the page, at least the request, less than a page more, and the least
  such multiple; this holds in debug and in release builds alike.
\<close>
theorem memfd_size_rounds_up:
  assumes "MemFd_create oc env name sz k = (Inr (Inr m), k')"
    and "sc_page_size env = Inr (Some page)" and "is_pow2 page"
    and "unat sz + unat page < 2 ^ 64"
  shows "unat page dvd unat (fsize m) \<and> unat sz \<le> unat (fsize m)
    \<and> unat (fsize m) < unat sz + unat page
    \<and> (\<forall>n. unat page dvd n \<longrightarrow> unat sz \<le> n \<longrightarrow> unat (fsize m) \<le> n)"
proof -
  from assms(1,2) have "round_up oc sz page = Inr (fsize m)"
    by (elim MemFd_create_Ok) simp
  then show ?thesis
    using round_up_ok [OF assms(3,4), of oc] by (metis sum.inject(2))
qed

theorem memfd_size_rounds_up_witness:
  "4096 dvd unat (8192 :: usize) \<and> unat (5000 :: usize) \<le> unat (8192 :: usize)"
proof -
  have p: "sc_page_size env_ok = Inr (Some 4096)" by (simp add: env_ok_def)
  have b: "unat (5000 :: usize) + unat (4096 :: usize) < 2 ^ 64" by simp
  show ?thesis
    using memfd_size_rounds_up [OF MemFd_create_5000 p is_pow2_4096 b] by simp
qed

text \<open>
  C37. No descriptor leaks on an error: whenever \<open>MemFd::create\<close> returns \<open>Err\<close>, at any of
  its error exits, the open descriptors and the mappings of the process are what they were,
  if the kernel hands out a descriptor that was not open.
\<close>
theorem memfd_error_restores_kernel:
  assumes "MemFd_create oc env name sz k = (Inr (Inl e), k')"
    and "sc_memfd_create env \<notin> open_fds k"
  shows "k' = k"
  using assms
  by (auto simp: memfd_defs close_fd_insert split: sum.splits option.splits if_splits)

theorem memfd_error_restores_kernel_witness:
  "MemFd_create True env_bad_mmap ''test'' 5000 kernel_stdio =
     (Inr (Inl (Anyhow ''Memory mapping failed: ENOMEM'')), kernel_stdio)"
proof -
  let ?r = "MemFd_create True env_bad_mmap ''test'' 5000 kernel_stdio"
  have run: "?r = (Inr (Inl (Anyhow ''Memory mapping failed: ENOMEM'')), snd ?r)"
    by (simp add: memfd_defs env_bad_mmap_def env_ok_def round_up_eval)
  have "sc_memfd_create env_bad_mmap \<notin> open_fds kernel_stdio"
    by (simp add: env_bad_mmap_def env_ok_def kernel_stdio_def)
  from memfd_error_restores_kernel [OF run this] run show ?thesis by simp
qed

text \<open>
  Dropping a memfd undoes its creation: if the kernel hands out a fresh descriptor and
  maps the memory at a fresh non-null address, the drop leaves the process with exactly the
  descriptors and mappings it had before the creation.
\<close>
theorem memfd_drop_undoes_create:
  assumes "MemFd_create oc env name sz k = (Inr (Inr m), k')"
    and "fd m \<notin> open_fds k" and "data m \<noteq> 0" and "(data m, fsize m) \<notin> mappings k"
  shows "MemFd_drop m k' = k"
  using assms(1)
proof (rule MemFd_create_Ok)
  fix page
  assume "fd m \<noteq> -1" and "k' = \<lparr>open_fds = insert (fd m) (open_fds k),
    mappings = insert (data m, fsize m) (mappings k)\<rparr>"
  with assms(2-4) show ?thesis by (simp add: MemFd_drop_def close_fd_def)
qed

theorem memfd_drop_undoes_create_witness:
  "MemFd_drop \<lparr>fd = 3, data = 0x70000000, fsize = 8192\<rparr>
     \<lparr>open_fds = {0, 1, 2, 3}, mappings = {(0x70000000, 8192)}\<rparr> = kernel_stdio"
  by (rule memfd_drop_undoes_create [OF MemFd_create_5000]) (simp_all add: kernel_stdio_def)

text \<open>
  A request of zero bytes does not return: the rounded size is zero, the unwrap of the
  non-zero mapping length panics after the descriptor was opened, and the descriptor stays
  open, because the only owner of it, the result, was never built.
\<close>
theorem memfd_zero_size_leaks:
  assumes "sc_page_size env = Inr (Some page)" and "is_pow2 page"
    and "nul_position name = None" and "sc_memfd_create env \<noteq> -1" and "sc_ftruncate env 0 = None"
  shows "MemFd_create oc env name 0 k =
    (Inl UnwrapNone, k\<lparr>open_fds := insert (sc_memfd_create env) (open_fds k)\<rparr>)"
proof -
  have "unat (0 :: usize) + unat page < 2 ^ 64" using unsigned_less [where 'a = nat, of page] by simp
  then obtain r where r: "round_up oc 0 page = Inr r" and "unat r < unat page" and "unat page dvd unat r"
    using assms(2) by (auto elim: round_up_ok [of page 0 oc])
  then have "unat r = 0" by (metis nat_dvd_not_less not_gr_zero)
  then have "r = 0" by (simp add: unat_eq_0)
  with r assms show ?thesis by (simp add: memfd_defs)
qed

theorem memfd_zero_size_leaks_witness:
  "MemFd_create False env_ok ''test'' 0 kernel_stdio =
     (Inl UnwrapNone, kernel_stdio\<lparr>open_fds := {0, 1, 2, 3}\<rparr>)"
  using memfd_zero_size_leaks [of env_ok 4096 "''test''" False kernel_stdio] is_pow2_4096
  by (simp add: env_ok_def kernel_stdio_def insert_commute)

end
