(* ===== verification/Shared.thy ===== *)
theory Shared
  imports Memfd
begin

text \<open>
  \<open>util/shared.rs\<close>: the bump allocator over a memfd, with its compare-and-swap loop as a
  step relation over any number of threads, and the two containers that live in it,
  \<open>SharedBox\<close> and \<open>SharedVec\<close>, over a store from addresses to typed objects.
\<close>

section \<open>Layouts\<close>

record layout =
  lsize :: usize
  lalign :: usize

text \<open>
  The invariant of \<open>std::alloc::Layout\<close>: the alignment is a power of two and the size,
  rounded up to it, does not pass \<open>isize::MAX\<close>.
\<close>

definition layout_ok :: "layout \<Rightarrow> bool" where
  "layout_ok l \<longleftrightarrow> is_pow2 (lalign l) \<and> unat (lsize l) + unat (lalign l) \<le> 2 ^ 63"

text \<open>\<open>Layout::array\<close>: the layout of \<open>n\<close> elements, refused when it would pass the limit.\<close>

definition layout_array :: "layout \<Rightarrow> usize \<Rightarrow> layout option" where
  "layout_array elem n =
     (if lsize elem \<noteq> 0 \<and> (2 ^ 63 - unat (lalign elem)) div unat (lsize elem) < unat n then None
      else Some \<lparr>lsize = lsize elem * n, lalign = lalign elem\<rparr>)"

lemma layout_array_Some:
  assumes "layout_array elem n = Some l"
  shows "lalign l = lalign elem" and "unat (lsize l) = unat (lsize elem) * unat n"
    and "layout_ok elem \<Longrightarrow> layout_ok l"
proof -
  have l: "l = \<lparr>lsize = lsize elem * n, lalign = lalign elem\<rparr>"
    and room: "lsize elem = 0 \<or> unat n \<le> (2 ^ 63 - unat (lalign elem)) div unat (lsize elem)"
    using assms by (auto simp: layout_array_def not_less split: if_splits)
  show "lalign l = lalign elem" by (simp add: l)
  have le: "unat (lsize elem) * unat n \<le> 2 ^ 63 - unat (lalign elem)"
  proof (cases "lsize elem = 0")
    case False
    with room have "unat n * unat (lsize elem)
        \<le> (2 ^ 63 - unat (lalign elem)) div unat (lsize elem) * unat (lsize elem)"
      by (intro mult_le_mono1) simp
    also have "\<dots> \<le> 2 ^ 63 - unat (lalign elem)" by (rule div_times_less_eq_dividend)
    finally show ?thesis by (simp add: mult.commute)
  qed simp
  then have "unat (lsize elem) * unat n < 2 ^ 64" by simp
  then show eq: "unat (lsize l) = unat (lsize elem) * unat n"
    by (simp add: l unat_word_ariths)
  show "layout_ok l" if "layout_ok elem"
  proof -
    have "unat (lalign elem) \<le> 2 ^ 63" using that by (simp add: layout_ok_def)
    with le have "unat (lsize elem) * unat n + unat (lalign elem) \<le> 2 ^ 63" by linarith
    with that show ?thesis unfolding layout_ok_def eq by (simp add: l)
  qed
qed

section \<open>The allocator\<close>

record bump =
  bmem :: memfd
  next_off :: usize

definition BumpAllocator_new ::
    "bool \<Rightarrow> memfd_env \<Rightarrow> string \<Rightarrow> usize \<Rightarrow> kernel \<Rightarrow> bump result outcome \<times> kernel" where
  "BumpAllocator_new oc env name sz k =
     (case MemFd_create oc env name sz k of
        (Inl p, k') \<Rightarrow> (Inl p, k')
      | (Inr (Inl e), k') \<Rightarrow> (Inr (Inl e), k')
      | (Inr (Inr m), k') \<Rightarrow> (Inr (Inr \<lparr>bmem = m, next_off = 0\<rparr>), k'))"

text \<open>
  From the loaded position: the aligned offset and the new position, or \<open>None\<close> when the
  block does not fit (the null pointer of the code).
\<close>

definition alloc_target :: "bool \<Rightarrow> usize \<Rightarrow> layout \<Rightarrow> usize \<Rightarrow> (usize \<times> usize) option outcome" where
  "alloc_target oc msize l current =
     bind_sum (round_up oc current (lalign l)) (\<lambda>aligned.
     bind_sum (add_ck oc aligned (lsize l)) (\<lambda>end_off.
       Inr (if msize < end_off then None else Some (aligned, end_off))))"

text \<open>
  \<open>alloc\<close> when \<open>others\<close> are the positions that other threads leave in \<open>next\<close> between this
  thread's loads and its exchanges: each failed exchange calls \<open>alloc\<close> again. The recursion
  is on that list, so it ends once the others stop, and \<open>alloc\<close> is the call with no
  interference.
\<close>

fun alloc_against :: "bool \<Rightarrow> layout \<Rightarrow> usize list \<Rightarrow> bump \<Rightarrow> (usize option \<times> bump) outcome" where
  "alloc_against oc l [] b =
     bind_sum (alloc_target oc (fsize (bmem b)) l (next_off b)) (\<lambda>r.
       case r of
         None \<Rightarrow> Inr (None, b)
       | Some (aligned, e) \<Rightarrow> Inr (Some (data (bmem b) + aligned), b\<lparr>next_off := e\<rparr>))"
| "alloc_against oc l (x # others) b =
     bind_sum (alloc_target oc (fsize (bmem b)) l (next_off b)) (\<lambda>r.
       case r of
         None \<Rightarrow> Inr (None, b\<lparr>next_off := x\<rparr>)
       | Some (aligned, e) \<Rightarrow>
           if x = next_off b
           then Inr (Some (data (bmem b) + aligned), b\<lparr>next_off := e\<rparr>)
           else alloc_against oc l others (b\<lparr>next_off := x\<rparr>))"

definition alloc :: "bool \<Rightarrow> layout \<Rightarrow> bump \<Rightarrow> (usize option \<times> bump) outcome" where
  "alloc oc l b = alloc_against oc l [] b"

definition used :: "bump \<Rightarrow> usize" where
  "used b = next_off b"

definition available :: "bool \<Rightarrow> bump \<Rightarrow> usize outcome" where
  "available oc b = sub_ck oc (fsize (bmem b)) (used b)"

text \<open>
  A position inside a mapping of less than \<open>2 ^ 63\<close> bytes, which is every size
  \<open>ftruncate\<close> accepts.
\<close>

definition bump_ok :: "bump \<Rightarrow> bool" where
  "bump_ok b \<longleftrightarrow> unat (fsize (bmem b)) < 2 ^ 63 \<and> next_off b \<le> fsize (bmem b)"

text \<open>The offset the code computes: the least multiple of the alignment from a position on.\<close>

lemma alloc_target_cases:
  assumes "layout_ok l" and "unat msize < 2 ^ 63" and "c \<le> msize"
  obtains aligned end_off where
      "alloc_target oc msize l c = Inr (if msize < end_off then None else Some (aligned, end_off))"
    and "unat end_off = unat aligned + unat (lsize l)"
    and "unat (lalign l) dvd unat aligned" and "unat c \<le> unat aligned"
    and "\<And>m. unat (lalign l) dvd m \<Longrightarrow> unat c \<le> m \<Longrightarrow> unat aligned \<le> m"
proof -
  have c: "unat c < 2 ^ 63" using assms(2,3) by (simp add: word_le_nat_alt)
  have pow: "is_pow2 (lalign l)" and lim: "unat (lsize l) + unat (lalign l) \<le> 2 ^ 63"
    using assms(1) by (auto simp: layout_ok_def)
  have "unat c + unat (lalign l) < 2 ^ 64" using c lim by simp
  from round_up_ok [OF pow this] obtain r where r: "round_up oc c (lalign l) = Inr r"
    and bounds: "unat (lalign l) dvd unat r" "unat c \<le> unat r" "unat r < unat c + unat (lalign l)"
    and least: "\<And>m. unat (lalign l) dvd m \<Longrightarrow> unat c \<le> m \<Longrightarrow> unat r \<le> m"
    by metis
  have fits: "unat r + unat (lsize l) < 2 ^ 64" using bounds(3) c lim by simp
  then have "alloc_target oc msize l c
      = Inr (if msize < r + lsize l then None else Some (r, r + lsize l))"
    by (simp add: alloc_target_def r add_ck_ok)
  moreover have "unat (r + lsize l) = unat r + unat (lsize l)"
    using fits by (intro unat_add_no_overflow) simp
  ultimately show thesis using that bounds least by blast
qed

section \<open>The exchange loop with any number of threads\<close>

text \<open>
  A thread is outside the allocator, has called it (\<open>Want\<close>), has loaded the position
  (\<open>Loaded\<close>), or is about to return (\<open>Got\<close>). Each rule is one atomic access of the code.
  \<open>grants\<close> is a ghost: the blocks handed out so far, the latest first.
\<close>

datatype apc =
    Outside
  | Want layout
  | Loaded layout usize
  | Got "usize option"
  | Crashed panic

record asys =
  abump :: bump
  apcs :: "nat \<Rightarrow> apc"
  grants :: "(usize \<times> layout) list"

definition set_apc :: "nat \<Rightarrow> apc \<Rightarrow> asys \<Rightarrow> asys" where
  "set_apc t p s = s\<lparr>apcs := (apcs s)(t := p)\<rparr>"

definition claim_block :: "usize \<Rightarrow> usize \<Rightarrow> layout \<Rightarrow> asys \<Rightarrow> asys" where
  "claim_block aligned e l s =
     s\<lparr>abump := (abump s)\<lparr>next_off := e\<rparr>, grants := (aligned, l) # grants s\<rparr>"

inductive astep :: "bool \<Rightarrow> asys \<Rightarrow> asys \<Rightarrow> bool" for oc where
  call: "apcs s t = Outside \<Longrightarrow> layout_ok l \<Longrightarrow> astep oc s (set_apc t (Want l) s)"
| load: "apcs s t = Want l \<Longrightarrow> astep oc s (set_apc t (Loaded l (next_off (abump s))) s)"
| crash: "apcs s t = Loaded l c \<Longrightarrow> alloc_target oc (fsize (bmem (abump s))) l c = Inl p \<Longrightarrow>
    astep oc s (set_apc t (Crashed p) s)"
| full: "apcs s t = Loaded l c \<Longrightarrow> alloc_target oc (fsize (bmem (abump s))) l c = Inr None \<Longrightarrow>
    astep oc s (set_apc t (Got None) s)"
| exchange: "apcs s t = Loaded l c \<Longrightarrow>
    alloc_target oc (fsize (bmem (abump s))) l c = Inr (Some (aligned, e)) \<Longrightarrow>
    next_off (abump s) = c \<Longrightarrow>
    astep oc s (set_apc t (Got (Some (data (bmem (abump s)) + aligned))) (claim_block aligned e l s))"
| retry: "apcs s t = Loaded l c \<Longrightarrow>
    alloc_target oc (fsize (bmem (abump s))) l c = Inr (Some (aligned, e)) \<Longrightarrow>
    next_off (abump s) \<noteq> c \<Longrightarrow>
    astep oc s (set_apc t (Want l) s)"
| return: "apcs s t = Got r \<Longrightarrow> astep oc s (set_apc t Outside s)"

definition asys_init :: "memfd \<Rightarrow> asys" where
  "asys_init m = \<lparr>abump = \<lparr>bmem = m, next_off = 0\<rparr>, apcs = (\<lambda>_. Outside), grants = []\<rparr>"

inductive areachable :: "bool \<Rightarrow> memfd \<Rightarrow> asys \<Rightarrow> bool" for oc m where
  start: "areachable oc m (asys_init m)"
| step: "areachable oc m s \<Longrightarrow> astep oc s s' \<Longrightarrow> areachable oc m s'"

text \<open>The offsets a block occupies.\<close>

definition block :: "usize \<times> layout \<Rightarrow> nat set" where
  "block g = {unat (fst g) ..< unat (fst g) + unat (lsize (snd g))}"

definition block_end :: "usize \<times> layout \<Rightarrow> nat" where
  "block_end g = unat (fst g) + unat (lsize (snd g))"

text \<open>
  The invariant of the loop: the blocks lie in the order they were granted, each aligned, and
  the position is the end of the last; what a thread has loaded never passes the position; no thread crashed.
\<close>

definition pc_ok :: "usize \<Rightarrow> apc \<Rightarrow> bool" where
  "pc_ok pos p = (case p of
     Want l \<Rightarrow> layout_ok l | Loaded l c \<Rightarrow> layout_ok l \<and> c \<le> pos | Crashed _ \<Rightarrow> False | _ \<Rightarrow> True)"

definition grants_ok :: "nat \<Rightarrow> (usize \<times> layout) list \<Rightarrow> bool" where
  "grants_ok pos gs \<longleftrightarrow> pos = (case gs of [] \<Rightarrow> 0 | g # _ \<Rightarrow> block_end g)
     \<and> sorted_wrt (\<lambda>newer older. block_end older \<le> unat (fst newer)) gs
     \<and> (\<forall>g\<in>set gs. block_end g \<le> pos \<and> unat (lalign (snd g)) dvd unat (fst g))"

definition alloc_inv :: "memfd \<Rightarrow> asys \<Rightarrow> bool" where
  "alloc_inv m s \<longleftrightarrow> bmem (abump s) = m \<and> bump_ok (abump s)
     \<and> (\<forall>t. pc_ok (next_off (abump s)) (apcs s t))
     \<and> grants_ok (unat (next_off (abump s))) (grants s)"

lemma grants_ok_Cons:
  assumes "grants_ok pos gs" and "pos \<le> unat a" and "unat (lalign l) dvd unat a"
    and "unat a + unat (lsize l) = pos'"
  shows "grants_ok pos' ((a, l) # gs)"
proof -
  have below: "block_end g \<le> pos" if "g \<in> set gs" for g
    using assms(1) that by (auto simp: grants_ok_def)
  then show ?thesis
    using assms by (force simp: grants_ok_def block_end_def)
qed

lemma alloc_target_advances:
  assumes "layout_ok l" and "unat msize < 2 ^ 63" and "c \<le> msize"
    and "alloc_target oc msize l c = Inr (Some (aligned, e))"
  shows "unat c \<le> unat aligned" and "unat (lalign l) dvd unat aligned"
    and "unat aligned + unat (lsize l) = unat e" and "c \<le> e" and "e \<le> msize"
proof -
  from alloc_target_cases [OF assms(1-3), of oc] obtain r e' where
    r: "alloc_target oc msize l c = Inr (if msize < e' then None else Some (r, e'))"
    "unat e' = unat r + unat (lsize l)" "unat (lalign l) dvd unat r" "unat c \<le> unat r"
    by metis
  with assms(4) have "r = aligned" "e' = e" "\<not> msize < e" by (auto split: if_splits)
  with r show "unat c \<le> unat aligned" and "unat (lalign l) dvd unat aligned"
    and "unat aligned + unat (lsize l) = unat e" and "c \<le> e" and "e \<le> msize"
    by (simp_all add: word_le_nat_alt word_less_nat_alt not_less)
qed

lemma alloc_target_no_panic:
  assumes "layout_ok l" and "unat msize < 2 ^ 63" and "c \<le> msize"
  shows "alloc_target oc msize l c \<noteq> Inl p"
  using alloc_target_cases [OF assms, of oc] by (metis sum.distinct(1))

lemma pc_ok_mono: "pc_ok pos p \<Longrightarrow> pos \<le> pos' \<Longrightarrow> pc_ok pos' p"
  by (auto simp: pc_ok_def split: apc.splits)

lemma loaded_ok:
  assumes "alloc_inv m s" and "apcs s t = Loaded l c"
  shows "layout_ok l" and "unat (fsize (bmem (abump s))) < 2 ^ 63"
    and "c \<le> next_off (abump s)" and "c \<le> fsize (bmem (abump s))"
proof -
  have "pc_ok (next_off (abump s)) (apcs s t)" using assms(1) by (simp add: alloc_inv_def)
  with assms show "layout_ok l" "c \<le> next_off (abump s)" by (auto simp: pc_ok_def)
  moreover show "unat (fsize (bmem (abump s))) < 2 ^ 63"
    using assms(1) by (auto simp: alloc_inv_def bump_ok_def)
  ultimately show "c \<le> fsize (bmem (abump s))"
    using assms(1) by (auto simp: alloc_inv_def bump_ok_def)
qed

lemma want_ok:
  assumes "alloc_inv m s" and "apcs s t = Want l"
  shows "layout_ok l"
proof -
  have "pc_ok (next_off (abump s)) (apcs s t)" using assms(1) by (simp add: alloc_inv_def)
  with assms(2) show ?thesis by (simp add: pc_ok_def)
qed

lemma alloc_inv_set_apc:
  "alloc_inv m s \<Longrightarrow> pc_ok (next_off (abump s)) p \<Longrightarrow> alloc_inv m (set_apc t p s)"
  by (simp add: alloc_inv_def set_apc_def)

lemma astep_inv:
  assumes "astep oc s s'" and "alloc_inv m s"
  shows "alloc_inv m s'"
  using assms
proof (induction rule: astep.induct)
  case (exchange s t l c aligned e)
  then have ok: "bump_ok (abump s)" "layout_ok l" "bmem (abump s) = m"
    and gs: "grants_ok (unat (next_off (abump s))) (grants s)"
    and pcs: "\<And>u. pc_ok (next_off (abump s)) (apcs s u)"
    by (auto simp: alloc_inv_def pc_ok_def dest: spec [of _ t])
  note adv = alloc_target_advances [OF ok(2) _ _ exchange.hyps(2)]
  have next_le: "next_off (abump s) \<le> e" and "e \<le> fsize m"
    using adv(4,5) ok exchange.hyps(3) by (auto simp: bump_ok_def)
  moreover have "grants_ok (unat e) ((aligned, l) # grants s)"
    using adv(1-3) ok exchange.hyps(3) gs by (intro grants_ok_Cons [OF gs]) (auto simp: bump_ok_def)
  moreover have "pc_ok e (apcs s u)" for u
    using pcs next_le by (rule pc_ok_mono)
  ultimately show ?case
    using ok by (auto simp: alloc_inv_def set_apc_def claim_block_def bump_ok_def pc_ok_def)
next
  case (crash s t l c p)
  then show ?case
    using alloc_target_no_panic [OF loaded_ok(1,2,4) [OF crash.prems crash.hyps(1)], of oc p] by simp
qed (auto intro!: alloc_inv_set_apc simp: pc_ok_def want_ok loaded_ok)

lemma asys_init_inv: "unat (fsize m) < 2 ^ 63 \<Longrightarrow> alloc_inv m (asys_init m)"
  by (simp add: alloc_inv_def asys_init_def bump_ok_def pc_ok_def grants_ok_def)

lemma areachable_inv:
  assumes "areachable oc m s" and "unat (fsize m) < 2 ^ 63"
  shows "alloc_inv m s"
  using assms by (induction rule: areachable.induct) (auto intro: asys_init_inv astep_inv)

text \<open>A thread that runs alone through the loop does what \<open>alloc\<close> computes.\<close>

definition after_alloc :: "nat \<Rightarrow> layout \<Rightarrow> usize option \<Rightarrow> bump \<Rightarrow> asys \<Rightarrow> asys" where
  "after_alloc t l r b s =
     (case r of
        None \<Rightarrow> set_apc t (Got None) s
      | Some p \<Rightarrow> set_apc t (Got (Some p))
          (s\<lparr>abump := b, grants := (p - data (bmem (abump s)), l) # grants s\<rparr>))"

lemma set_apc_set_apc [simp]: "set_apc t p (set_apc t q s) = set_apc t p s"
  by (simp add: set_apc_def)

lemma set_apc_fields [simp]:
  "abump (set_apc t p s) = abump s" "grants (set_apc t p s) = grants s"
  "apcs (set_apc t p s) t = p"
  by (simp_all add: set_apc_def)

lemma alloc_Inr_cases:
  assumes "alloc oc l b = Inr (r, b')"
  obtains (no_room) "r = None" and "b' = b"
      and "alloc_target oc (fsize (bmem b)) l (next_off b) = Inr None"
    | (granted) aligned e where "r = Some (data (bmem b) + aligned)" and "b' = b\<lparr>next_off := e\<rparr>"
      and "alloc_target oc (fsize (bmem b)) l (next_off b) = Inr (Some (aligned, e))"
proof -
  have "\<exists>x. alloc_target oc (fsize (bmem b)) l (next_off b) = Inr x
      \<and> (case x of None \<Rightarrow> Inr (None, b)
          | Some (aligned, e) \<Rightarrow> Inr (Some (data (bmem b) + aligned), b\<lparr>next_off := e\<rparr>))
            = (Inr (r, b') :: (usize option \<times> bump) outcome)"
    using assms by (simp add: alloc_def bind_sum_Inr_iff)
  then obtain x where x: "alloc_target oc (fsize (bmem b)) l (next_off b) = Inr x"
    and r: "(case x of None \<Rightarrow> Inr (None, b)
          | Some (aligned, e) \<Rightarrow> Inr (Some (data (bmem b) + aligned), b\<lparr>next_off := e\<rparr>))
            = (Inr (r, b') :: (usize option \<times> bump) outcome)"
    by blast
  show thesis
  proof (cases x)
    case None
    show ?thesis by (rule no_room) (use x r None in simp_all)
  next
    case (Some y)
    obtain aligned e where y: "y = (aligned, e)" by (cases y)
    show ?thesis by (rule granted [of aligned e]) (use x r Some y in simp_all)
  qed
qed

lemma alloc_alone:
  assumes "apcs s t = Outside" and "layout_ok l" and "alloc oc l (abump s) = Inr (r, b)"
  shows "(astep oc)\<^sup>*\<^sup>* s (after_alloc t l r b s)"
proof -
  let ?c = "next_off (abump s)" and ?loaded = "set_apc t (Loaded l (next_off (abump s))) s"
  have "astep oc s (set_apc t (Want l) s)" using assms(1,2) by (rule astep.call)
  moreover have "astep oc (set_apc t (Want l) s) ?loaded"
    using astep.load [of "set_apc t (Want l) s" t l oc] by simp
  moreover have "astep oc ?loaded (after_alloc t l r b s)"
    using assms(3)
  proof (cases rule: alloc_Inr_cases)
    case no_room
    then show ?thesis
      using astep.full [of ?loaded t l ?c oc] by (simp add: after_alloc_def)
  next
    case (granted aligned e)
    have "set_apc t (Got r) (claim_block aligned e l ?loaded) = after_alloc t l r b s"
      by (simp add: after_alloc_def claim_block_def set_apc_def granted)
    then show ?thesis
      using astep.exchange [of ?loaded t l ?c oc aligned e] granted by simp
  qed
  ultimately show ?thesis
    by (meson converse_rtranclp_into_rtranclp r_into_rtranclp)
qed

lemma areachable_steps:
  assumes "(astep oc)\<^sup>*\<^sup>* s s'" and "areachable oc m s"
  shows "areachable oc m s'"
  using assms by (induction rule: rtranclp_induct) (auto intro: areachable.step)

lemma areachable_after_alloc:
  assumes "areachable oc m s" and "apcs s t = Outside" and "layout_ok l"
    and "alloc oc l (abump s) = Inr (r, b)"
  shows "areachable oc m (after_alloc t l r b s)"
  using alloc_alone [OF assms(2-4)] assms(1) by (rule areachable_steps)

text \<open>
  A run for the witnesses: over a mapping of 8192 bytes, thread 0 takes 100 bytes aligned to 8
  and thread 1 then takes 64 bytes aligned to 16; thread 2 has loaded the position in between.
\<close>

definition mem_8k :: memfd where
  "mem_8k = \<lparr>fd = 3, data = 0x70000000, fsize = 8192\<rparr>"

definition layout_a :: layout where
  "layout_a = \<lparr>lsize = 100, lalign = 8\<rparr>"

definition layout_b :: layout where
  "layout_b = \<lparr>lsize = 64, lalign = 16\<rparr>"

lemma is_pow2_small: "is_pow2 8" "is_pow2 16"
  unfolding is_pow2_def by (rule exI [of _ 3], simp) (rule exI [of _ 4], simp)

lemma layouts_ok: "layout_ok layout_a" "layout_ok layout_b"
  by (simp_all add: layout_ok_def layout_a_def layout_b_def is_pow2_small)

definition demo_state :: asys where
  "demo_state = after_alloc 1 layout_b (Some 0x70000070) \<lparr>bmem = mem_8k, next_off = 176\<rparr>
     (set_apc 2 (Loaded layout_a 100)
       (after_alloc 0 layout_a (Some 0x70000000) \<lparr>bmem = mem_8k, next_off = 100\<rparr>
         (asys_init mem_8k)))"

lemma demo_allocs:
  "alloc oc layout_a \<lparr>bmem = mem_8k, next_off = 0\<rparr>
     = Inr (Some 0x70000000, \<lparr>bmem = mem_8k, next_off = 100\<rparr>)"
  "alloc oc layout_b \<lparr>bmem = mem_8k, next_off = 100\<rparr>
     = Inr (Some 0x70000070, \<lparr>bmem = mem_8k, next_off = 176\<rparr>)"
  by (simp_all add: alloc_def alloc_target_def round_up_def add_ck_def sub_ck_def layout_a_def
      layout_b_def mem_8k_def)

lemma demo_state_eq:
  "demo_state = \<lparr>abump = \<lparr>bmem = mem_8k, next_off = 176\<rparr>,
     apcs = (\<lambda>_. Outside)(0 := Got (Some 0x70000000), 2 := Loaded layout_a 100,
       1 := Got (Some 0x70000070)),
     grants = [(112, layout_b), (0, layout_a)]\<rparr>"
  by (simp add: demo_state_def after_alloc_def asys_init_def set_apc_def mem_8k_def)

lemma demo_reachable: "areachable oc mem_8k demo_state"
proof -
  let ?s1 = "after_alloc 0 layout_a (Some 0x70000000) \<lparr>bmem = mem_8k, next_off = 100\<rparr>
    (asys_init mem_8k)"
  have fields: "abump ?s1 = \<lparr>bmem = mem_8k, next_off = 100\<rparr>" "apcs ?s1 2 = Outside" "apcs ?s1 1 = Outside"
    by (simp_all add: after_alloc_def set_apc_def asys_init_def)
  have "areachable oc mem_8k ?s1"
    by (rule areachable_after_alloc [OF areachable.start _ layouts_ok(1)])
      (simp_all add: asys_init_def demo_allocs)
  then have "areachable oc mem_8k (set_apc 2 (Want layout_a) ?s1)"
    using fields layouts_ok by (blast intro: areachable.step astep.call)
  then have "areachable oc mem_8k (set_apc 2 (Loaded layout_a 100) ?s1)"
    using astep.load [of "set_apc 2 (Want layout_a) ?s1" 2 layout_a oc] fields
    by (auto intro: areachable.step)
  then show ?thesis unfolding demo_state_def
    by (rule areachable_after_alloc [OF _ _ layouts_ok(2)])
      (use fields in \<open>simp_all add: set_apc_def demo_allocs\<close>)
qed

section \<open>Properties\<close>

lemma sorted_wrt_nth_pair:
  "sorted_wrt P xs \<Longrightarrow> i < j \<Longrightarrow> j < length xs \<Longrightarrow> P (xs ! i) (xs ! j)"
  by (rule sorted_wrt_nth_less)

lemma blocks_disjoint:
  assumes "block_end older \<le> unat (fst newer)"
  shows "block newer \<inter> block older = {}"
  using assms by (auto simp: block_def block_end_def)

text \<open>
  C5. Any number of threads calling \<open>BumpAllocator::alloc\<close> at once, interleaved at every load
  and compare-and-swap, receive blocks that do not overlap: in every reachable state any two
  granted blocks are disjoint, and each lies inside the mapping at an offset that is a
  multiple of its alignment.
\<close>
theorem bump_blocks_disjoint:
  assumes "areachable oc m s" and "unat (fsize m) < 2 ^ 63"
  shows "(\<forall>i j. i < j \<longrightarrow> j < length (grants s) \<longrightarrow> block (grants s ! i) \<inter> block (grants s ! j) = {})
    \<and> (\<forall>g\<in>set (grants s). block g \<subseteq> {..< unat (fsize m)} \<and> unat (lalign (snd g)) dvd unat (fst g))"
proof -
  have inv: "alloc_inv m s" using assms by (rule areachable_inv)
  then have gs: "grants_ok (unat (next_off (abump s))) (grants s)"
    and le: "unat (next_off (abump s)) \<le> unat (fsize m)"
    by (auto simp: alloc_inv_def bump_ok_def word_le_nat_alt)
  then have "block_end (grants s ! j) \<le> unat (fst (grants s ! i))"
    if "i < j" "j < length (grants s)" for i j
    using that sorted_wrt_nth_pair by (fastforce simp: grants_ok_def)
  moreover have "block_end g \<le> unat (fsize m)" if "g \<in> set (grants s)" for g
    using gs le that by (fastforce simp: grants_ok_def)
  ultimately show ?thesis
    using gs blocks_disjoint by (fastforce simp: grants_ok_def block_def block_end_def)
qed

theorem bump_blocks_disjoint_witness:
  "block (112, layout_b) \<inter> block (0, layout_a) = {} \<and> unat (16 :: usize) dvd unat (112 :: usize)"
proof -
  have "unat (fsize mem_8k) < 2 ^ 63" by (simp add: mem_8k_def)
  note disjoint = bump_blocks_disjoint [OF demo_reachable this]
  have "block (grants demo_state ! 0) \<inter> block (grants demo_state ! 1) = {}"
    by (rule conjunct1 [OF disjoint, rule_format]) (simp_all add: demo_state_eq)
  moreover have "\<forall>g\<in>set (grants demo_state). unat (lalign (snd g)) dvd unat (fst g)"
    using disjoint by blast
  ultimately show ?thesis by (simp add: demo_state_eq layout_b_def)
qed

text \<open>
  The allocator's arithmetic never overflows: with valid layouts and a mapping below
  \<open>2 ^ 63\<close> bytes no thread of any reachable state has panicked, in debug builds where the
  additions and subtractions are checked as in release builds.
\<close>
theorem bump_never_panics:
  assumes "areachable oc m s" and "unat (fsize m) < 2 ^ 63"
  shows "apcs s t \<noteq> Crashed p"
proof -
  have "pc_ok (next_off (abump s)) (apcs s t)"
    using areachable_inv [OF assms] by (simp add: alloc_inv_def)
  then show ?thesis by (auto simp: pc_ok_def)
qed

theorem bump_never_panics_witness: "apcs demo_state 2 \<noteq> Crashed ArithOverflow"
  using bump_never_panics [OF demo_reachable] by (simp add: mem_8k_def)

text \<open>
  A thread retries only because another thread got memory: when the exchange of a thread
  that loaded the position \<open>c\<close> is going to fail, the last granted block ends strictly
  after \<open>c\<close>, so it was granted after the load. The loop is lock-free.
\<close>
theorem bump_retry_means_progress:
  assumes "areachable oc m s" and "unat (fsize m) < 2 ^ 63"
    and "apcs s t = Loaded l c" and "next_off (abump s) \<noteq> c"
  shows "\<exists>g gs. grants s = g # gs \<and> unat c < block_end g
    \<and> block_end g = unat (next_off (abump s))"
proof -
  have inv: "alloc_inv m s" using assms(1,2) by (rule areachable_inv)
  have "c \<le> next_off (abump s)" using inv assms(3) by (rule loaded_ok(3))
  with assms(4) have "unat c < unat (next_off (abump s))" by (simp add: flip: word_less_nat_alt)
  then show ?thesis
    using inv by (auto simp: alloc_inv_def grants_ok_def split: list.splits)
qed

theorem bump_retry_means_progress_witness:
  "\<exists>g gs. grants demo_state = g # gs \<and> unat (100 :: usize) < block_end g
    \<and> block_end g = unat (next_off (abump demo_state))"
  by (rule bump_retry_means_progress [OF demo_reachable, of 2 layout_a])
    (simp_all add: demo_state_eq mem_8k_def)

text \<open>
  C28. Every branch of \<open>alloc\<close>: it takes the least offset from the current position on that
  the alignment divides; if the block from there ends inside the mapping, it returns its
  address and moves the position to its end, and otherwise it returns null and leaves the
  allocator as it was.
\<close>
theorem alloc_spec:
  assumes "bump_ok b" and "layout_ok l"
  shows "\<exists>aligned. unat (lalign l) dvd unat aligned \<and> unat (used b) \<le> unat aligned
    \<and> (\<forall>k. unat (lalign l) dvd k \<longrightarrow> unat (used b) \<le> k \<longrightarrow> unat aligned \<le> k)
    \<and> alloc oc l b =
        (if unat aligned + unat (lsize l) \<le> unat (fsize (bmem b))
         then Inr (Some (data (bmem b) + aligned), b\<lparr>next_off := aligned + lsize l\<rparr>)
         else Inr (None, b))"
proof -
  have "unat (fsize (bmem b)) < 2 ^ 63" "next_off b \<le> fsize (bmem b)"
    using assms(1) by (auto simp: bump_ok_def)
  from alloc_target_cases [OF assms(2) this, of oc] obtain aligned e where
    r: "alloc_target oc (fsize (bmem b)) l (next_off b)
      = Inr (if fsize (bmem b) < e then None else Some (aligned, e))"
    "unat e = unat aligned + unat (lsize l)" "unat (lalign l) dvd unat aligned"
    "unat (next_off b) \<le> unat aligned"
    "\<And>k. unat (lalign l) dvd k \<Longrightarrow> unat (next_off b) \<le> k \<Longrightarrow> unat aligned \<le> k"
    by metis
  have "e = aligned + lsize l"
    using r(2) unsigned_less [where 'a = nat, of e]
    by (simp add: word_unat_eq_iff unat_add_no_overflow)
  then show ?thesis
    using r by (intro exI [of _ aligned])
      (auto simp: alloc_def used_def word_less_nat_alt not_less)
qed

theorem alloc_spec_witness:
  "\<exists>aligned. unat (16 :: usize) dvd unat aligned \<and> unat (100 :: usize) \<le> unat aligned
    \<and> alloc False layout_b \<lparr>bmem = mem_8k, next_off = 100\<rparr> =
        (if unat aligned + 64 \<le> 8192
         then Inr (Some (0x70000000 + aligned), \<lparr>bmem = mem_8k, next_off = aligned + 64\<rparr>)
         else Inr (None, \<lparr>bmem = mem_8k, next_off = 100\<rparr>))"
proof -
  have "bump_ok \<lparr>bmem = mem_8k, next_off = 100\<rparr>" by (simp add: bump_ok_def mem_8k_def)
  from alloc_spec [OF this layouts_ok(2), of False] show ?thesis
    by (auto simp: layout_b_def mem_8k_def used_def)
qed

text \<open>
  The step relation refines the function: a thread that calls the allocator and runs with
  nobody in between takes steps of the relation that end with exactly the pointer and the
  allocator state that \<open>alloc\<close> computes.
\<close>
theorem alloc_refined_by_steps:
  assumes "apcs s t = Outside" and "layout_ok l" and "alloc oc l (abump s) = Inr (r, b)"
  shows "\<exists>s'. (astep oc)\<^sup>*\<^sup>* s s' \<and> apcs s' t = Got r \<and> abump s' = b"
proof -
  have "abump (after_alloc t l r b s) = b"
    using assms(3) by (cases rule: alloc_Inr_cases) (auto simp: after_alloc_def)
  moreover have "apcs (after_alloc t l r b s) t = Got r"
    by (auto simp: after_alloc_def split: option.splits)
  ultimately show ?thesis using alloc_alone [OF assms] by blast
qed

theorem alloc_refined_by_steps_witness:
  "\<exists>s'. (astep True)\<^sup>*\<^sup>* (asys_init mem_8k) s' \<and> apcs s' 0 = Got (Some 0x70000000)
    \<and> abump s' = \<lparr>bmem = mem_8k, next_off = 100\<rparr>"
  by (rule alloc_refined_by_steps [of _ _ layout_a])
    (simp_all add: asys_init_def layouts_ok demo_allocs)

text \<open>
  The accounting of the allocator is exact and cannot underflow: \<open>used\<close> and
  \<open>available\<close> always sum to the size of the mapping, a successful allocation takes at least
  its size from what is available, and the position stays inside the mapping.
\<close>
theorem alloc_accounting:
  assumes "bump_ok b" and "layout_ok l" and "alloc oc l b = Inr (Some p, b')"
  shows "bump_ok b' \<and> (\<exists>a a'. available oc b = Inr a \<and> available oc b' = Inr a'
    \<and> unat (used b') + unat a' = unat (fsize (bmem b))
    \<and> unat a' + unat (lsize l) \<le> unat a)"
  using assms(3)
proof (cases rule: alloc_Inr_cases)
  case (granted aligned e)
  note adv = alloc_target_advances [OF assms(2) _ _ granted(3)]
  have "unat (next_off b) \<le> unat aligned" "unat aligned + unat (lsize l) = unat e"
    "e \<le> fsize (bmem b)"
    using adv assms(1) by (auto simp: bump_ok_def)
  then show ?thesis
    using assms(1) granted(2)
    by (auto simp: bump_ok_def available_def used_def sub_ck_ok word_le_nat_alt
        unat_sub_no_underflow)
qed simp

theorem alloc_accounting_witness:
  "\<exists>a a'. available True \<lparr>bmem = mem_8k, next_off = 0\<rparr> = Inr a
    \<and> available True \<lparr>bmem = mem_8k, next_off = 100\<rparr> = Inr a'
    \<and> unat a' + unat (lsize layout_a) \<le> unat a"
proof -
  have "bump_ok \<lparr>bmem = mem_8k, next_off = 0\<rparr>" by (simp add: bump_ok_def mem_8k_def)
  from alloc_accounting [OF this layouts_ok(1) demo_allocs(1), of True] show ?thesis by blast
qed

end
