(* ===== verification/Containers.thy ===== *)
theory Containers
  imports Shared
begin

text \<open>
  The containers of \<open>util/shared.rs\<close> over a store of typed objects: \<open>SharedBox\<close> is the
  address of its object, \<open>SharedVec\<close> a base address with a length and a capacity. Cloning
  copies the handle, so two handles alias; the store makes that visible. The interface of a
  bounded vector is the locale \<open>bounded_vec\<close>; its client is the fill loop of
  \<open>Context::allocate_vec\<close>.
\<close>

type_synonym 'v heap = "usize \<rightharpoonup> 'v"

section \<open>SharedBox\<close>

definition SharedBox_new ::
    "bool \<Rightarrow> layout \<Rightarrow> 'v \<Rightarrow> bump \<times> 'v heap \<Rightarrow> (usize result \<times> bump \<times> 'v heap) outcome" where
  "SharedBox_new oc l v st =
     (case st of (b, h) \<Rightarrow>
       bind_sum (alloc oc l b) (\<lambda>(r, b').
         case r of
           None \<Rightarrow> Inr (Inl (Anyhow ''Failed to allocate memory''), b', h)
         | Some p \<Rightarrow> Inr (Inr p, b', h(p \<mapsto> v))))"

definition box_clone :: "usize \<Rightarrow> usize" where
  "box_clone p = p"

definition box_read :: "usize \<Rightarrow> 'v heap \<Rightarrow> 'v option" where
  "box_read p h = h p"

definition box_write :: "usize \<Rightarrow> 'v \<Rightarrow> 'v heap \<Rightarrow> 'v heap" where
  "box_write p v h = h(p \<mapsto> v)"

text \<open>The drop asserts that the type needs no drop of its own.\<close>

definition SharedBox_drop :: "bool \<Rightarrow> unit outcome" where
  "SharedBox_drop needs_drop = (if needs_drop then Inl AssertFailed else Inr ())"

section \<open>SharedVec\<close>

record svec =
  vptr :: usize
  vlen :: usize
  vcap :: usize
  vstride :: usize

definition elem_addr :: "svec \<Rightarrow> usize \<Rightarrow> usize" where
  "elem_addr v i = vptr v + i * vstride v"

definition SharedVec_with_capacity ::
    "bool \<Rightarrow> layout \<Rightarrow> usize \<Rightarrow> bump \<Rightarrow> (svec result \<times> bump) outcome" where
  "SharedVec_with_capacity oc elem capacity b =
     (case layout_array elem capacity of
        None \<Rightarrow> Inr (Inl (Anyhow ''Failed to create layout for SharedVec''), b)
      | Some l \<Rightarrow>
          bind_sum (alloc oc l b) (\<lambda>(r, b').
            case r of
              None \<Rightarrow> Inr (Inl (Anyhow ''Failed to allocate memory for SharedVec''), b')
            | Some p \<Rightarrow> Inr (Inr \<lparr>vptr = p, vlen = 0, vcap = capacity, vstride = lsize elem\<rparr>, b')))"

definition SharedVec_push ::
    "bool \<Rightarrow> 'v \<Rightarrow> svec \<times> 'v heap \<Rightarrow> (svec \<times> 'v heap) result outcome" where
  "SharedVec_push oc x st =
     (case st of (v, h) \<Rightarrow>
       if vlen v = vcap v then Inr (Inl (Anyhow ''SharedVec capacity exceeded''))
       else bind_sum (add_ck oc (vlen v) 1) (\<lambda>n.
              Inr (Inr (v\<lparr>vlen := n\<rparr>, h(elem_addr v (vlen v) \<mapsto> x)))))"

definition SharedVec_len :: "svec \<Rightarrow> usize" where
  "SharedVec_len v = vlen v"

definition SharedVec_is_empty :: "svec \<Rightarrow> bool" where
  "SharedVec_is_empty v = (vlen v = 0)"

definition SharedVec_capacity :: "svec \<Rightarrow> usize" where
  "SharedVec_capacity v = vcap v"

definition SharedVec_get :: "svec \<times> 'v heap \<Rightarrow> usize \<Rightarrow> 'v option" where
  "SharedVec_get st i =
     (case st of (v, h) \<Rightarrow> if vlen v \<le> i then None else h (elem_addr v i))"

text \<open>A store through the reference of \<open>get_mut\<close>.\<close>

definition SharedVec_set :: "usize \<Rightarrow> 'v \<Rightarrow> svec \<times> 'v heap \<Rightarrow> (svec \<times> 'v heap) option" where
  "SharedVec_set i x st =
     (case st of (v, h) \<Rightarrow> if vlen v \<le> i then None else Some (v, h(elem_addr v i \<mapsto> x)))"

definition SharedVec_index :: "svec \<times> 'v heap \<Rightarrow> usize \<Rightarrow> 'v outcome" where
  "SharedVec_index st i =
     (case SharedVec_get st i of None \<Rightarrow> Inl (PanicMsg ''Index out of bounds'') | Some x \<Rightarrow> Inr x)"

definition SharedVec_clone :: "svec \<Rightarrow> svec" where
  "SharedVec_clone v = v"

text \<open>The addresses whose objects the drop destroys in place, in order.\<close>

definition SharedVec_drop :: "svec \<Rightarrow> usize list" where
  "SharedVec_drop v = map (\<lambda>i. elem_addr v (word_of_nat i)) [0 ..< unat (vlen v)]"

section \<open>The interface of a bounded vector\<close>

fun push_all :: "('v \<Rightarrow> 's \<Rightarrow> 's result outcome) \<Rightarrow> 'v list \<Rightarrow> 's \<Rightarrow> 's result outcome" where
  "push_all push [] s = Inr (Inr s)"
| "push_all push (x # xs) s =
     (case push x s of
        Inr (Inr s') \<Rightarrow> push_all push xs s'
      | Inr (Inl e) \<Rightarrow> Inr (Inl e)
      | Inl p \<Rightarrow> Inl p)"

locale bounded_vec =
  fixes push :: "'v \<Rightarrow> 's \<Rightarrow> 's result outcome"
    and get :: "'s \<Rightarrow> usize \<Rightarrow> 'v option"
    and cap :: "'s \<Rightarrow> nat"
    and contents :: "'s \<Rightarrow> 'v list"
    and invar :: "'s \<Rightarrow> bool"
  assumes room: "invar s \<Longrightarrow> length (contents s) \<le> cap s"
    and push_room: "invar s \<Longrightarrow> length (contents s) < cap s \<Longrightarrow>
      \<exists>s'. push x s = Inr (Inr s') \<and> invar s' \<and> contents s' = contents s @ [x] \<and> cap s' = cap s"
    and push_full: "invar s \<Longrightarrow> length (contents s) = cap s \<Longrightarrow> \<exists>e. push x s = Inr (Inl e)"
    and get_nth: "invar s \<Longrightarrow>
      get s i = (if unat i < length (contents s) then Some (contents s ! unat i) else None)"
begin

lemma push_all_fits:
  assumes "invar s" and "length (contents s) + length xs \<le> cap s"
  shows "\<exists>s'. push_all push xs s = Inr (Inr s') \<and> invar s' \<and> contents s' = contents s @ xs
    \<and> cap s' = cap s"
  using assms
proof (induction xs arbitrary: s)
  case Nil
  then show ?case by simp
next
  case (Cons x xs)
  then obtain s' where s': "push x s = Inr (Inr s')" "invar s'" "contents s' = contents s @ [x]"
    "cap s' = cap s"
    using push_room [of s x] by auto
  have "length (contents s') + length xs \<le> cap s'" using Cons.prems s' by simp
  from Cons.IH [OF s'(2) this] s' show ?case by auto
qed

lemma push_all_overflows:
  assumes "invar s" and "cap s < length (contents s) + length xs"
  shows "\<exists>e. push_all push xs s = Inr (Inl e)"
  using assms
proof (induction xs arbitrary: s)
  case Nil
  then show ?case using room [of s] by simp
next
  case (Cons x xs)
  show ?case
  proof (cases "length (contents s) < cap s")
    case True
    from push_room [OF Cons.prems(1) this, of x] obtain s' where s': "push x s = Inr (Inr s')"
      "invar s'" "contents s' = contents s @ [x]" "cap s' = cap s" by auto
    then show ?thesis using Cons.IH [of s'] Cons.prems by simp
  next
    case False
    then have "length (contents s) = cap s" using room [OF Cons.prems(1)] by simp
    from push_full [OF Cons.prems(1) this, of x] show ?thesis by auto
  qed
qed

lemma filled_reads_back:
  assumes "invar s" and "contents s = []" and "length xs \<le> cap s" and "unat i < length xs"
  shows "\<exists>s'. push_all push xs s = Inr (Inr s') \<and> get s' i = Some (xs ! unat i)"
  using push_all_fits [OF assms(1)] assms(2-4) get_nth by force

end

section \<open>SharedVec is a bounded vector\<close>

text \<open>
  The vector's elements are the objects at its first \<open>len\<close> slots. The invariant: the length
  stays within the capacity, the elements are not zero-sized, the slots fit in the address
  space, and every slot below the length holds an object.
\<close>

fun vec_contents :: "svec \<times> 'v heap \<Rightarrow> 'v list" where
  "vec_contents (v, h) = map (\<lambda>i. the (h (elem_addr v (word_of_nat i)))) [0 ..< unat (vlen v)]"

fun vec_cap :: "svec \<times> 'v heap \<Rightarrow> nat" where
  "vec_cap (v, h) = unat (vcap v)"

definition vec_shape :: "svec \<Rightarrow> bool" where
  "vec_shape v \<longleftrightarrow> vlen v \<le> vcap v \<and> vstride v \<noteq> 0
     \<and> unat (vptr v) + unat (vcap v) * unat (vstride v) < 2 ^ 64"

fun vec_invar :: "svec \<times> 'v heap \<Rightarrow> bool" where
  "vec_invar (v, h) \<longleftrightarrow> vec_shape v \<and> (\<forall>i < vlen v. h (elem_addr v i) \<noteq> None)"

lemma unat_elem_addr:
  assumes "vec_shape v" and "i < vcap v"
  shows "unat (elem_addr v i) = unat (vptr v) + unat i * unat (vstride v)"
proof -
  have "unat i * unat (vstride v) \<le> unat (vcap v) * unat (vstride v)"
    using assms(2) by (intro mult_le_mono1) (simp add: word_less_nat_alt)
  then have "unat (vptr v) + unat i * unat (vstride v) < 2 ^ 64"
    using assms(1) unfolding vec_shape_def by linarith
  then show ?thesis
    by (simp add: elem_addr_def unat_word_ariths)
qed

lemma elem_addr_inject:
  assumes "vec_shape v" and "i < vcap v" and "j < vcap v"
  shows "elem_addr v i = elem_addr v j \<longleftrightarrow> i = j"
proof -
  have "unat (vstride v) \<noteq> 0" using assms(1) by (simp add: vec_shape_def unat_eq_0)
  then show ?thesis
    using unat_elem_addr [OF assms(1,2)] unat_elem_addr [OF assms(1,3)]
    by (auto simp: word_unat_eq_iff)
qed

lemma below_len_below_cap: "vec_shape v \<Longrightarrow> i < vlen v \<Longrightarrow> i < vcap v"
  by (auto simp: vec_shape_def)

lemma less_len_nat: "n < unat (vlen v) \<Longrightarrow> word_of_nat n < vlen v"
  by (simp add: word_less_nat_alt unat_of_nat le_less_trans [OF mod_less_eq_dividend])

lemma push_extends:
  fixes x :: 'v
  assumes "vec_invar (v, h)" and "vlen v \<noteq> vcap v"
  defines "s' \<equiv> (v\<lparr>vlen := vlen v + 1\<rparr>, h(elem_addr v (vlen v) \<mapsto> x))"
  shows "SharedVec_push oc x (v, h) = Inr (Inr s')" and "vec_invar s'"
    and "vec_contents s' = vec_contents (v, h) @ [x]" and "vec_cap s' = vec_cap (v, h)"
proof -
  have shape: "vec_shape v" and lt: "vlen v < vcap v"
    using assms(1,2) by (auto simp: vec_shape_def)
  have one: "unat (vlen v) + 1 < 2 ^ 64"
    using lt unsigned_less [where 'a = nat, of "vcap v"] by (simp add: word_less_nat_alt)
  then have len: "unat (vlen v + 1) = unat (vlen v) + 1"
    using unat_add_no_overflow [of "vlen v" 1] by simp
  show "SharedVec_push oc x (v, h) = Inr (Inr s')"
    using assms(2) one by (simp add: SharedVec_push_def s'_def add_ck_ok)
  have addr: "elem_addr (v\<lparr>vlen := n\<rparr>) = elem_addr v" for n
    by (simp add: elem_addr_def fun_eq_iff)
  have other: "elem_addr v i \<noteq> elem_addr v (vlen v)" if "i < vlen v" for i
    using that lt elem_addr_inject [OF shape, of i "vlen v"] by auto
  have "vec_shape (v\<lparr>vlen := vlen v + 1\<rparr>)"
    using shape lt len by (simp add: vec_shape_def word_le_nat_alt word_less_nat_alt)
  moreover have "i < vlen v \<or> i = vlen v" if "i < vlen v + 1" for i
    using that len by (auto simp: word_less_nat_alt word_unat_eq_iff)
  ultimately show "vec_invar s'"
    using assms(1) by (auto simp: s'_def addr)
  show "vec_contents s' = vec_contents (v, h) @ [x]"
    using other less_len_nat [of _ v] by (auto simp: s'_def len addr)
  show "vec_cap s' = vec_cap (v, h)" by (simp add: s'_def)
qed

lemma vec_get_nth:
  assumes "vec_invar (v, h)"
  shows "SharedVec_get (v, h) i =
    (if unat i < length (vec_contents (v, h)) then Some (vec_contents (v, h) ! unat i) else None)"
  using assms by (auto simp: SharedVec_get_def word_less_nat_alt word_le_nat_alt)

interpretation shared_vec: bounded_vec "SharedVec_push oc" SharedVec_get vec_cap vec_contents vec_invar
  for oc
proof
  fix s :: "svec \<times> 'v heap" and x :: 'v and i
  obtain v h where s: "s = (v, h)" by (cases s)
  show "length (vec_contents s) \<le> vec_cap s" if "vec_invar s"
    using that by (simp add: s vec_shape_def word_le_nat_alt)
  show "\<exists>s'. SharedVec_push oc x s = Inr (Inr s') \<and> vec_invar s' \<and> vec_contents s' = vec_contents s @ [x]
      \<and> vec_cap s' = vec_cap s" if "vec_invar s" "length (vec_contents s) < vec_cap s"
  proof -
    have inv: "vec_invar (v, h)" and ne: "vlen v \<noteq> vcap v" using that by (auto simp: s)
    show ?thesis unfolding s using push_extends [OF inv ne] by blast
  qed
  show "\<exists>e. SharedVec_push oc x s = Inr (Inl e)"
    if "vec_invar s" "length (vec_contents s) = vec_cap s"
    using that by (simp add: s SharedVec_push_def word_unat_eq_iff)
  show "SharedVec_get s i =
      (if unat i < length (vec_contents s) then Some (vec_contents s ! unat i) else None)"
    if "vec_invar s"
    using that unfolding s by (rule vec_get_nth)
qed

section \<open>Properties\<close>

text \<open>
  A boxed value is where its handle says, and boxes do not alias: after \<open>SharedBox::new\<close>
  succeeds the new handle, and every clone of it, reads the value, while every object that
  starts below the allocator's old position still holds what it held; when the allocator is
  out of room the result is the error and neither the allocator nor the store changed.
\<close>
theorem shared_box_new:
  assumes "bump_ok b" and "layout_ok l"
    and "SharedBox_new oc l v (b, h) = Inr (r, b', h')"
  shows "(\<exists>p. r = Inr p \<and> box_read (box_clone p) h' = Some v
           \<and> (\<forall>off < next_off b. box_read (data (bmem b) + off) h' = box_read (data (bmem b) + off) h))
       \<or> r = Inl (Anyhow ''Failed to allocate memory'') \<and> b' = b \<and> h' = h"
proof -
  obtain q b1 where q: "alloc oc l b = Inr (q, b1)"
    and rest: "(case q of None \<Rightarrow> (Inl (Anyhow ''Failed to allocate memory''), b1, h)
      | Some p \<Rightarrow> (Inr p, b1, h(p \<mapsto> v))) = (r, b', h')"
    using assms(3) by (auto simp: SharedBox_new_def bind_sum_Inr_iff split: option.splits)
  from q show ?thesis
  proof (cases rule: alloc_Inr_cases)
    case no_room
    with rest show ?thesis by simp
  next
    case (granted aligned e)
    have ok: "unat (fsize (bmem b)) < 2 ^ 63" "next_off b \<le> fsize (bmem b)"
      using assms(1) by (auto simp: bump_ok_def)
    note adv = alloc_target_advances [OF assms(2) ok granted(3)]
    have "data (bmem b) + off \<noteq> data (bmem b) + aligned" if "off < next_off b" for off
      using adv(1) that by (auto simp: word_less_nat_alt)
    with granted(1) rest show ?thesis
      by (auto simp: box_read_def box_clone_def)
  qed
qed

theorem shared_box_new_witness:
  "\<exists>r b' h'. SharedBox_new True layout_a (42 :: nat) (\<lparr>bmem = mem_8k, next_off = 0\<rparr>, Map.empty)
     = Inr (r, b', h') \<and> (\<exists>p. r = Inr p \<and> box_read (box_clone p) h' = Some 42)"
proof -
  let ?b = "\<lparr>bmem = mem_8k, next_off = 0\<rparr>"
  have run: "SharedBox_new True layout_a (42 :: nat) (?b, Map.empty) =
      Inr (Inr 0x70000000, \<lparr>bmem = mem_8k, next_off = 100\<rparr>, [0x70000000 \<mapsto> 42])"
    by (simp add: SharedBox_new_def demo_allocs)
  have "bump_ok ?b" by (simp add: bump_ok_def mem_8k_def)
  from shared_box_new [OF this layouts_ok(1) run] run show ?thesis by auto
qed

text \<open>
  C38. \<open>SharedVec\<close> implements a bounded list: pushing onto a well-formed vector with room
  appends to its contents and keeps it well formed, pushing onto a full one is the error, and
  reading index \<open>i\<close> gives the \<open>i\<close>-th element below the length and \<open>None\<close> from there on.
\<close>
theorem shared_vec_is_bounded_list:
  assumes "vec_invar s"
  shows "(length (vec_contents s) < vec_cap s \<longrightarrow>
      (\<exists>s'. SharedVec_push oc x s = Inr (Inr s') \<and> vec_invar s'
        \<and> vec_contents s' = vec_contents s @ [x] \<and> vec_cap s' = vec_cap s))
    \<and> (length (vec_contents s) = vec_cap s \<longrightarrow> (\<exists>e. SharedVec_push oc x s = Inr (Inl e)))
    \<and> SharedVec_get s i
        = (if unat i < length (vec_contents s) then Some (vec_contents s ! unat i) else None)"
  using shared_vec.push_room [OF assms] shared_vec.push_full [OF assms] shared_vec.get_nth [OF assms]
  by blast

definition demo_vec :: "svec \<times> nat heap" where
  "demo_vec = (\<lparr>vptr = 0x70000000, vlen = 1, vcap = 2, vstride = 8\<rparr>, [0x70000000 \<mapsto> 7])"

lemma demo_vec_invar: "vec_invar demo_vec"
proof -
  have "i = 0" if "i < (1 :: usize)" for i using that by (simp add: word_less_nat_alt unat_eq_0)
  then show ?thesis by (auto simp: demo_vec_def vec_shape_def elem_addr_def)
qed

theorem shared_vec_is_bounded_list_witness:
  "\<exists>s'. SharedVec_push True 9 demo_vec = Inr (Inr s') \<and> vec_contents s' = [7, 9]"
proof -
  have "vec_contents demo_vec = [7]" "vec_cap demo_vec = 2"
    by (simp_all add: demo_vec_def elem_addr_def)
  then show ?thesis
    using shared_vec_is_bounded_list [OF demo_vec_invar, of True 9 0] by auto
qed

text \<open>
  A store through \<open>get_mut\<close> is seen by every clone of the vector, at that index only, and
  indexing panics exactly from the length on.
\<close>
theorem shared_vec_store_visible:
  assumes "vec_invar (v, h)" and "SharedVec_set i x (v, h) = Some (v', h')"
  shows "SharedVec_index (SharedVec_clone v, h') i = Inr x
    \<and> (\<forall>j. j \<noteq> i \<longrightarrow> SharedVec_index (SharedVec_clone v, h') j = SharedVec_index (v, h) j)
    \<and> vec_invar (v', h')
    \<and> (\<forall>j. SharedVec_index (v, h') j = Inl (PanicMsg ''Index out of bounds'') \<longleftrightarrow> vlen v \<le> j)"
proof -
  have i: "i < vlen v" and upd: "v' = v" "h' = h(elem_addr v i \<mapsto> x)"
    using assms(2) by (auto simp: SharedVec_set_def not_le split: if_splits)
  have shape: "vec_shape v" and filled: "\<And>j. j < vlen v \<Longrightarrow> h (elem_addr v j) \<noteq> None"
    using assms(1) by auto
  have addr: "elem_addr v j = elem_addr v i \<longleftrightarrow> j = i" if "j < vlen v" for j
    using elem_addr_inject [OF shape] below_len_below_cap [OF shape] i that by blast
  have none: "h (elem_addr v j) = None \<Longrightarrow> vlen v \<le> j" for j
    using filled not_le by blast
  show ?thesis
    using i filled addr shape
    by (auto dest: none simp: upd SharedVec_index_def SharedVec_get_def SharedVec_clone_def not_le
        split: option.splits)
qed

theorem shared_vec_store_visible_witness:
  "SharedVec_index (SharedVec_clone (fst demo_vec), [0x70000000 \<mapsto> 9 :: nat]) 0 = Inr 9"
proof -
  have "SharedVec_set 0 9 demo_vec = Some (fst demo_vec, [0x70000000 \<mapsto> 9])"
    by (simp add: demo_vec_def SharedVec_set_def elem_addr_def)
  then show ?thesis
    using shared_vec_store_visible [of "fst demo_vec" "snd demo_vec" 0 9] demo_vec_invar by simp
qed

end
