(* ===== verification/Child.thy ===== *)
theory Child
  imports Prelude
begin

text \<open>
  \<open>util/child.rs\<close>: running a function in a forked process and collecting its result. The state
  on the parent's side is the child's pid, the two ends of the notification pipe and the cached
  result; the state of the process is its set of open descriptors. The kernel answers are
  parameters: those of \<open>pipe2\<close> and \<open>clone\<close>, and the sequences of answers of \<open>waitpid\<close> and
  \<open>read\<close>, consumed one per call. A loop that uses up the answers is still running: its value
  is \<open>None\<close>.
\<close>

section \<open>The notification pipe\<close>

type_synonym fd_table = "int set"

record notification =
  read_fd :: "int option"
  write_fd :: "int option"

definition NotificationFd_new :: "string + int \<times> int \<Rightarrow> fd_table \<Rightarrow> (string + notification) \<times> fd_table" where
  "NotificationFd_new pipe fds =
     (case pipe of
        Inl e \<Rightarrow> (Inl ''Failed to create notification pipe'', fds)
      | Inr (r, w) \<Rightarrow> (Inr \<lparr>read_fd = Some r, write_fd = Some w\<rparr>, fds \<union> {r, w}))"

definition close_write :: "notification \<times> fd_table \<Rightarrow> notification \<times> fd_table" where
  "close_write s =
     (case s of (n, fds) \<Rightarrow>
       (case write_fd n of None \<Rightarrow> (n, fds) | Some f \<Rightarrow> (n\<lparr>write_fd := None\<rparr>, fds - {f})))"

definition close_read :: "notification \<times> fd_table \<Rightarrow> notification \<times> fd_table" where
  "close_read s =
     (case s of (n, fds) \<Rightarrow>
       (case read_fd n of None \<Rightarrow> (n, fds) | Some f \<Rightarrow> (n\<lparr>read_fd := None\<rparr>, fds - {f})))"

definition NotificationFd_drop :: "notification \<Rightarrow> fd_table \<Rightarrow> fd_table" where
  "NotificationFd_drop n fds = snd (close_read (close_write (n, fds)))"

section \<open>Running a function in a child\<close>

text \<open>Errors are the text of the \<open>anyhow\<close> error; the result of the function is such a text or success.\<close>

type_synonym text_result = "string + unit"

record child =
  cpid :: int
  notif :: notification
  cresult :: "text_result option"

definition Child_new :: "int \<Rightarrow> notification \<Rightarrow> child" where
  "Child_new p n = \<lparr>cpid = p, notif = n, cresult = None\<rparr>"

datatype clone_answer = CloneFailed string | CloneParent int

text \<open>The parent's side of \<open>run\<close>.\<close>

definition Child_run ::
    "string + int \<times> int \<Rightarrow> clone_answer \<Rightarrow> fd_table \<Rightarrow> (string + child) \<times> fd_table" where
  "Child_run pipe clone fds =
     (case NotificationFd_new pipe fds of
        (Inl e, fds1) \<Rightarrow> (Inl e, fds1)
      | (Inr n, fds1) \<Rightarrow>
          (case clone of
             CloneFailed e \<Rightarrow>
               (Inl (''Failed to clone process: '' @ e), NotificationFd_drop n fds1)
           | CloneParent p \<Rightarrow>
               (case close_write (n, fds1) of (n1, fds2) \<Rightarrow> (Inr (Child_new p n1), fds2))))"

text \<open>
  The child's side: what it leaves in the pipe and its exit code. \<open>accepted\<close> is the number of
  bytes the one \<open>write\<close> takes.
\<close>

definition child_main :: "nat \<Rightarrow> text_result \<Rightarrow> string \<times> int" where
  "child_main accepted result =
     (case result of Inr _ \<Rightarrow> ([], 0) | Inl error_msg \<Rightarrow> (take accepted error_msg, 0))"

section \<open>Waiting\<close>

text \<open>A signal is given by its name; \<open>WOther\<close> is an error of \<open>waitpid\<close> or any other status.\<close>

datatype wait_answer =
    WExited int int
  | WSignaled int string
  | WStillAlive
  | WOther

datatype read_answer =
    RBytes string
  | REintr
  | RError

type_synonym answers = "wait_answer list \<times> read_answer list"

fun wait_status :: "wait_answer \<Rightarrow> (int \<times> int option \<times> string option) option" where
  "wait_status (WExited p code) = Some (p, Some code, None)"
| "wait_status (WSignaled p sig) = Some (p, None, Some sig)"
| "wait_status WStillAlive = None"
| "wait_status WOther = None"

fun read_loop :: "string \<Rightarrow> read_answer list \<Rightarrow> (string \<times> read_answer list) option" where
  "read_loop buffer [] = None"
| "read_loop buffer (RBytes s # rs) = (if s = [] then Some (buffer, rs) else read_loop (buffer @ s) rs)"
| "read_loop buffer (REintr # rs) = read_loop buffer rs"
| "read_loop buffer (RError # rs) = Some (buffer, rs)"

text \<open>\<open>lossy\<close> is \<open>String::from_utf8_lossy\<close>.\<close>

definition exit_result ::
    "(string \<Rightarrow> string) \<Rightarrow> int option \<Rightarrow> string option \<Rightarrow> string \<Rightarrow> text_result" where
  "exit_result lossy exit_code signal buffer =
     (case exit_code of
        Some code \<Rightarrow>
          if code = 0
          then (if buffer = [] then Inr () else Inl (''Child process error: '' @ lossy buffer))
          else Inl (''Child process exited with code '' @ show_int code)
      | None \<Rightarrow>
          (case signal of
             Some sig \<Rightarrow> Inl (''Child process was killed by signal '' @ sig)
           | None \<Rightarrow> Inl ''Child process exited with unknown status''))"

type_synonym wait_return = "(text_result option \<times> child \<times> answers) option outcome"

text \<open>The end of a wait whose status is the child's own: read the pipe, cache, return.\<close>

definition collect ::
    "(string \<Rightarrow> string) \<Rightarrow> child \<Rightarrow> int option \<Rightarrow> string option \<Rightarrow> answers \<Rightarrow> wait_return" where
  "collect lossy c exit_code signal w =
     (case read_fd (notif c) of
        None \<Rightarrow> Inl UnwrapNone
      | Some _ \<Rightarrow>
          (case read_loop [] (snd w) of
             None \<Rightarrow> Inr None
           | Some (buffer, rs) \<Rightarrow>
               let r = exit_result lossy exit_code signal buffer
               in Inr (Some (Some r, c\<lparr>cresult := Some r\<rparr>, (fst w, rs)))))"

fun wait_loop ::
    "(string \<Rightarrow> string) \<Rightarrow> bool \<Rightarrow> child \<Rightarrow> wait_answer list \<Rightarrow> read_answer list \<Rightarrow> wait_return" where
  "wait_loop lossy block c [] rs = Inr None"
| "wait_loop lossy block c (a # ws) rs =
     (case wait_status a of
        None \<Rightarrow> if block then wait_loop lossy block c ws rs else Inr (Some (None, c, (ws, rs)))
      | Some (p, exit_code, signal) \<Rightarrow>
          if p = cpid c then collect lossy c exit_code signal (ws, rs)
          else wait_loop lossy block c ws rs)"

text \<open>The pid that \<open>waitpid\<close> is asked for: any child, or this one.\<close>

definition wait_target :: "bool \<Rightarrow> child \<Rightarrow> int" where
  "wait_target all c = (if all then -1 else cpid c)"

definition Child_wait :: "(string \<Rightarrow> string) \<Rightarrow> bool \<Rightarrow> child \<Rightarrow> answers \<Rightarrow> wait_return" where
  "Child_wait lossy block c w =
     (case cresult c of
        Some r \<Rightarrow> Inr (Some (Some r, c, w))
      | None \<Rightarrow> wait_loop lossy block c (fst w) (snd w))"

definition Child_alive ::
    "(string \<Rightarrow> string) \<Rightarrow> child \<Rightarrow> answers \<Rightarrow> (bool \<times> child \<times> answers) option outcome" where
  "Child_alive lossy c w =
     (if cresult c \<noteq> None then Inr (Some (False, c, w))
      else bind_sum (Child_wait lossy False c w) (\<lambda>r.
        Inr (case r of None \<Rightarrow> None | Some (v, c', w') \<Rightarrow> Some (v = None, c', w'))))"

text \<open>\<open>answer\<close> is the error of the \<open>kill\<close> call, if any; the list of signals sent is returned too.\<close>

definition Child_kill ::
    "(string \<Rightarrow> string) \<Rightarrow> string option \<Rightarrow> string \<Rightarrow> child \<Rightarrow> answers
     \<Rightarrow> (text_result \<times> string list \<times> child \<times> answers) option outcome" where
  "Child_kill lossy answer sig c w =
     bind_sum (Child_alive lossy c w) (\<lambda>r.
       Inr (case r of
          None \<Rightarrow> None
        | Some (False, c', w') \<Rightarrow> Some (Inr (), [], c', w')
        | Some (True, c', w') \<Rightarrow>
            Some (case answer of
                None \<Rightarrow> Inr ()
              | Some _ \<Rightarrow> Inl ''Failed to kill child process'', [sig], c', w')))"

text \<open>Dropping a child kills it, waits for it, and then drops the pipe.\<close>

definition Child_drop ::
    "(string \<Rightarrow> string) \<Rightarrow> string option \<Rightarrow> child \<Rightarrow> answers \<Rightarrow> fd_table
     \<Rightarrow> (string list \<times> answers \<times> fd_table) option outcome" where
  "Child_drop lossy answer c w fds =
     bind_sum (Child_kill lossy answer ''SIGKILL'' c w) (\<lambda>r.
       case r of
         None \<Rightarrow> Inr None
       | Some (_, sent, c1, w1) \<Rightarrow>
           bind_sum (Child_wait lossy True c1 w1) (\<lambda>r.
             Inr (case r of
                None \<Rightarrow> None
              | Some (_, c2, w2) \<Rightarrow> Some (sent, w2, NotificationFd_drop (notif c2) fds))))"

section \<open>Spawning a command\<close>

text \<open>
  The body that \<open>spawn\<close> runs in the intermediate process: the death signal, the subreaper, a
  second child that executes the command, and a wait for all children.
\<close>

definition exec_body :: "string option \<Rightarrow> text_result" where
  "exec_body answer =
     (case answer of None \<Rightarrow> Inl ''Failed to execute command'' | Some e \<Rightarrow> Inl (''Failed to exec: '' @ e))"

definition spawn_body ::
    "(string \<Rightarrow> string) \<Rightarrow> string option \<Rightarrow> string option \<Rightarrow> string + int \<times> int \<Rightarrow> clone_answer
     \<Rightarrow> answers \<Rightarrow> fd_table \<Rightarrow> text_result option outcome" where
  "spawn_body lossy pdeathsig subreaper pipe clone w fds =
     (case pdeathsig of
        Some e \<Rightarrow> Inr (Some (Inl (''Failed to set death signal: '' @ e)))
      | None \<Rightarrow>
     (case subreaper of
        Some e \<Rightarrow> Inr (Some (Inl (''Failed to set child subreaper: '' @ e)))
      | None \<Rightarrow>
     (case fst (Child_run pipe clone fds) of
        Inl e \<Rightarrow> Inr (Some (Inl e))
      | Inr c \<Rightarrow>
          bind_sum (Child_wait lossy True c w) (\<lambda>r.
            case r of
              None \<Rightarrow> Inr None
            | Some (None, _) \<Rightarrow> Inl UnwrapNone
            | Some (Some v, _) \<Rightarrow> Inr (Some v)))))"

text \<open>
  The caller's side: no arguments is an error, an argument with a NUL byte panics, and the
  new PID namespace is asked for exactly when the user is root.
\<close>

definition Child_spawn ::
    "bool \<Rightarrow> string list \<Rightarrow> string + int \<times> int \<Rightarrow> (bool \<Rightarrow> clone_answer) \<Rightarrow> fd_table
     \<Rightarrow> (string + child) outcome \<times> fd_table" where
  "Child_spawn is_root args pipe clone fds =
     (if args = [] then (Inr (Inl ''No command specified''), fds)
      else if list_ex (\<lambda>a. CHR 0x00 \<in> set a) args then (Inl (PanicMsg ''called Result::unwrap() on an Err value''), fds)
      else (case Child_run pipe (clone is_root) fds of (r, fds') \<Rightarrow> (Inr r, fds')))"

section \<open>Lemmas\<close>

text \<open>An answer that says nothing about this child; the reads of a pipe before its end.\<close>

definition foreign :: "int \<Rightarrow> wait_answer \<Rightarrow> bool" where
  "foreign p a = (case wait_status a of None \<Rightarrow> True | Some (q, _) \<Rightarrow> q \<noteq> p)"

fun is_chunk :: "read_answer \<Rightarrow> bool" where
  "is_chunk (RBytes s) = (s \<noteq> [])"
| "is_chunk REintr = True"
| "is_chunk RError = False"

fun payload :: "read_answer list \<Rightarrow> string" where
  "payload [] = []"
| "payload (RBytes s # rs) = s @ payload rs"
| "payload (_ # rs) = payload rs"

lemma read_loop_chunks:
  assumes "list_all is_chunk chunks"
  shows "read_loop buffer (chunks @ RBytes [] # rs) = Some (buffer @ payload chunks, rs)"
  using assms by (induction chunks arbitrary: buffer rule: payload.induct) auto

lemma wait_loop_skip:
  assumes "list_all (foreign (cpid c)) pre"
  shows "wait_loop lossy True c (pre @ ws) rs = wait_loop lossy True c ws rs"
  using assms by (induction pre) (auto simp: foreign_def split: option.splits prod.splits)

text \<open>A blocking wait ends, if it ends, with a result that is cached.\<close>

lemma wait_loop_result:
  assumes "wait_loop lossy block c ws rs = Inr (Some (v, c', w))"
  shows "(block \<longrightarrow> v \<noteq> None) \<and> notif c' = notif c \<and> cpid c' = cpid c \<and> (v \<noteq> None \<longrightarrow> cresult c' = v)"
  using assms
proof (induction ws)
  case (Cons a ws)
  then show ?case
    by (cases "wait_status a")
      (auto simp: collect_def Let_def split: if_splits option.splits prod.splits)
qed simp

lemma Child_wait_result:
  assumes "Child_wait lossy block c w = Inr (Some (v, c', w'))"
  shows "(block \<longrightarrow> v \<noteq> None) \<and> notif c' = notif c \<and> cpid c' = cpid c \<and> (v \<noteq> None \<longrightarrow> cresult c' = v)"
proof (cases "cresult c")
  case None
  then show ?thesis using assms by (intro wait_loop_result) (simp add: Child_wait_def)
next
  case (Some r)
  then have "v = Some r" and "c' = c" using assms by (simp_all add: Child_wait_def)
  then show ?thesis using Some by simp
qed

lemma Child_wait_own:
  assumes "cresult c = None" and "read_fd (notif c) \<noteq> None"
    and "list_all (foreign (cpid c)) pre" and "list_all is_chunk chunks"
    and "wait_status a = Some (cpid c, code, sig)"
  shows "Child_wait lossy True c (pre @ a # ws, chunks @ RBytes [] # rs)
    = Inr (Some (Some (exit_result lossy code sig (payload chunks)),
        c\<lparr>cresult := Some (exit_result lossy code sig (payload chunks))\<rparr>, (ws, rs)))"
  using assms by (auto simp: Child_wait_def wait_loop_skip collect_def read_loop_chunks Let_def)

lemma Child_run_parent:
  assumes "Child_run pipe (CloneParent p) fds = (Inr c, fds1)"
  shows "cpid c = p" and "cresult c = None" and "read_fd (notif c) \<noteq> None"
  using assms
  by (auto simp: Child_run_def NotificationFd_new_def Child_new_def close_write_def split: sum.splits)

lemma kept_result:
  assumes "cresult c = Some r"
  shows "Child_wait lossy block c w = Inr (Some (Some r, c, w))"
    and "Child_alive lossy c w = Inr (Some (False, c, w))"
  using assms by (simp_all add: Child_wait_def Child_alive_def)

lemma Child_alive_notif:
  assumes "Child_alive lossy c w = Inr (Some (a, c', w'))"
  shows "notif c' = notif c"
  using assms Child_wait_result [of lossy False c w]
  by (auto simp: Child_alive_def bind_sum_Inr_iff split: if_splits option.splits prod.splits)

lemma Child_drop_closes:
  assumes "Child_drop lossy answer c w fds = Inr (Some (sent, w', fds'))"
  shows "fds' = NotificationFd_drop (notif c) fds"
proof -
  obtain k c1 w1 v c2 where kill: "Child_kill lossy answer ''SIGKILL'' c w = Inr (Some (k, sent, c1, w1))"
    and wait: "Child_wait lossy True c1 w1 = Inr (Some (v, c2, w'))"
    and fds: "fds' = NotificationFd_drop (notif c2) fds"
    using assms by (auto simp: Child_drop_def bind_sum_Inr_iff split: option.splits)
  have "notif c1 = notif c"
    using kill by (auto simp: Child_kill_def bind_sum_Inr_iff dest!: Child_alive_notif
        split: option.splits bool.splits prod.splits)
  then show ?thesis using Child_wait_result [OF wait] fds by simp
qed

section \<open>Properties\<close>

text \<open>
  C27. The result of a function crosses the pipe: for a child made by \<open>run\<close> whose process
  exits after the function returned \<open>result\<close>, a blocking \<open>wait\<close>, whatever other children or
  failed calls \<open>waitpid\<close> reports first and however \<open>read\<close> cuts the bytes, returns success for
  success and the error with its text for an error whose text is not empty, fits the one
  \<open>write\<close> and is valid UTF-8. Every later \<open>wait\<close> returns the same without a system call, and
  the child is no longer alive.
\<close>

theorem child_result_roundtrip:
  assumes "Child_run pipe (CloneParent p) fds = (Inr c, fds1)"
    and "list_all (foreign p) pre" and "list_all is_chunk chunks"
    and "payload chunks = fst (child_main n result)"
    and "\<And>msg. result = Inl msg \<Longrightarrow> msg \<noteq> [] \<and> length msg \<le> n \<and> lossy msg = msg"
  shows "\<exists>c'. Child_wait lossy True c
        (pre @ WExited p (snd (child_main n result)) # ws, chunks @ RBytes [] # rs)
      = Inr (Some (Some (map_sum (append ''Child process error: '') id result), c', (ws, rs)))
    \<and> (\<forall>block w. Child_wait lossy block c' w
        = Inr (Some (Some (map_sum (append ''Child process error: '') id result), c', w)))
    \<and> (\<forall>w. Child_alive lossy c' w = Inr (Some (False, c', w)))"
proof -
  note run = Child_run_parent [OF assms(1)]
  let ?r = "exit_result lossy (Some (snd (child_main n result))) None (payload chunks)"
  have "?r = map_sum (append ''Child process error: '') id result"
    using assms(4,5) by (cases result) (auto simp: exit_result_def child_main_def)
  moreover have "Child_wait lossy True c
        (pre @ WExited p (snd (child_main n result)) # ws, chunks @ RBytes [] # rs)
      = Inr (Some (Some ?r, c\<lparr>cresult := Some ?r\<rparr>, (ws, rs)))"
    using run assms(2,3) by (intro Child_wait_own) simp_all
  ultimately show ?thesis using kept_result [of "c\<lparr>cresult := Some ?r\<rparr>" ?r] by auto
qed

theorem child_result_roundtrip_witness:
  "\<exists>c fds c'. Child_run (Inr (3, 4)) (CloneParent 7) {0} = (Inr c, fds)
    \<and> Child_wait id True c ([WOther, WExited 9 1, WExited 7 0], [RBytes ''Te'', REintr, RBytes ''st'', RBytes []])
      = Inr (Some (Some (Inl ''Child process error: Test''), c', ([], [])))"
proof -
  have run: "Child_run (Inr (3, 4)) (CloneParent 7) {0}
      = (Inr (Child_new 7 \<lparr>read_fd = Some 3, write_fd = None\<rparr>), {0, 3})"
    by (auto simp: Child_run_def NotificationFd_new_def close_write_def)
  show ?thesis
    using child_result_roundtrip [OF run, of "[WOther, WExited 9 1]"
        "[RBytes ''Te'', REintr, RBytes ''st'']" 4 "Inl ''Test''" id "[]" "[]"] run
    by (auto simp: foreign_def child_main_def)
qed

text \<open>
  A process that did not exit with code zero is an error, whatever its function wrote to
  the pipe: the message names the exit code, or the signal that killed it.
\<close>

theorem child_failure_reported:
  assumes "Child_run pipe (CloneParent p) fds = (Inr c, fds1)"
    and "list_all (foreign p) pre" and "list_all is_chunk chunks" and "code \<noteq> 0"
  shows "(\<exists>c'. Child_wait lossy True c (pre @ WExited p code # ws, chunks @ RBytes [] # rs)
        = Inr (Some (Some (Inl (''Child process exited with code '' @ show_int code)), c', (ws, rs))))
    \<and> (\<exists>c'. Child_wait lossy True c (pre @ WSignaled p sig # ws, chunks @ RBytes [] # rs)
        = Inr (Some (Some (Inl (''Child process was killed by signal '' @ sig)), c', (ws, rs))))"
proof -
  note run = Child_run_parent [OF assms(1)]
  note own = Child_wait_own [OF run(2,3), of pre chunks, unfolded run(1), OF assms(2,3)]
  show ?thesis
    using own [of "WExited p code"] own [of "WSignaled p sig"] assms(4) by (simp add: exit_result_def)
qed

theorem child_failure_reported_witness:
  "\<exists>c fds c'. Child_run (Inr (3, 4)) (CloneParent 7) {0} = (Inr c, fds)
    \<and> Child_wait id True c ([WSignaled 7 ''SIGKILL''], [RBytes ''x'', RBytes []])
      = Inr (Some (Some (Inl ''Child process was killed by signal SIGKILL''), c', ([], [])))"
proof -
  have run: "Child_run (Inr (3, 4)) (CloneParent 7) {0}
      = (Inr (Child_new 7 \<lparr>read_fd = Some 3, write_fd = None\<rparr>), {0, 3})"
    by (auto simp: Child_run_def NotificationFd_new_def close_write_def)
  show ?thesis
    using child_failure_reported [OF run, of "[]" "[RBytes ''x'']" 1 id "[]" "[]" "''SIGKILL''"] run by auto
qed

text \<open>
  No descriptor of the pipe leaks: when \<open>run\<close> fails, the descriptor table is as before;
  when it succeeds, only the read end is added, and a drop that returns removes it.
\<close>

theorem child_descriptors:
  assumes "r \<noteq> w" and "r \<notin> fds" and "w \<notin> fds"
  shows "case Child_run (Inr (r, w)) clone fds of
      (Inl _, fds1) \<Rightarrow> fds1 = fds
    | (Inr c, fds1) \<Rightarrow> fds1 = insert r fds
        \<and> (\<forall>answer world sent world' fds2. Child_drop lossy answer c world fds1
            = Inr (Some (sent, world', fds2)) \<longrightarrow> fds2 = fds)"
proof (cases clone)
  case (CloneFailed e)
  then show ?thesis using assms
    by (auto simp: Child_run_def NotificationFd_new_def NotificationFd_drop_def close_write_def close_read_def)
next
  case (CloneParent p)
  let ?n = "\<lparr>read_fd = Some r, write_fd = None\<rparr>"
  have run: "Child_run (Inr (r, w)) clone fds = (Inr (Child_new p ?n), insert r fds)"
    using assms CloneParent by (auto simp: Child_run_def NotificationFd_new_def close_write_def)
  have "NotificationFd_drop ?n (insert r fds) = fds"
    using assms by (simp add: NotificationFd_drop_def close_write_def close_read_def)
  then have "fds2 = fds"
    if "Child_drop lossy answer (Child_new p ?n) world (insert r fds) = Inr (Some (sent, world', fds2))"
    for answer world sent world' fds2
    using Child_drop_closes [OF that] by (simp add: Child_new_def)
  then show ?thesis by (simp add: run)
qed

theorem child_descriptors_witness:
  "case Child_run (Inr (3, 4)) (CloneParent 7) {0, 1, 2} of
      (Inl _, fds1) \<Rightarrow> fds1 = {0, 1, 2}
    | (Inr c, fds1) \<Rightarrow> fds1 = {0, 1, 2, 3}
        \<and> Child_drop id None c ([WStillAlive, WSignaled 7 ''SIGKILL''], [RBytes []]) fds1
          = Inr (Some ([''SIGKILL''], ([], []), {0, 1, 2}))"
proof -
  have run: "Child_run (Inr (3, 4)) (CloneParent 7) {0, 1, 2}
      = (Inr (Child_new 7 \<lparr>read_fd = Some 3, write_fd = None\<rparr>), {0, 1, 2, 3})"
    by (auto simp: Child_run_def NotificationFd_new_def close_write_def)
  let ?c = "Child_new 7 \<lparr>read_fd = Some 3, write_fd = None\<rparr>"
  have "\<exists>fds2. Child_drop id None ?c ([WStillAlive, WSignaled 7 ''SIGKILL''], [RBytes []]) {0, 1, 2, 3}
      = Inr (Some ([''SIGKILL''], ([], []), fds2))"
    by (simp add: Child_drop_def Child_kill_def Child_alive_def Child_wait_def Child_new_def collect_def Let_def)
  then show ?thesis
    using child_descriptors [where r = 3 and w = 4 and fds = "{0, 1, 2}" and clone = "CloneParent 7" and lossy = id] by (auto simp: run)
qed

text \<open>
  A blocking \<open>wait\<close> whose \<open>waitpid\<close> only fails never returns: after any number of failed
  calls it is still in its loop. That is the state of a child whose status was reaped by a
  wait for all children on another handle, where \<open>waitpid\<close> answers \<open>ECHILD\<close> for ever.
\<close>

theorem lost_child_blocks_forever:
  "Child_wait lossy True (Child_new p n) (replicate k WOther, rs) = Inr None"
proof -
  have "wait_loop lossy True (Child_new p n) (replicate k WOther) rs = Inr None"
    by (induction k) simp_all
  then show ?thesis by (simp add: Child_wait_def Child_new_def)
qed

text \<open>
  An error whose text is empty is reported as success: the pipe is empty and the exit code
  is zero, the same as for a function that returned \<open>Ok\<close>.
\<close>

theorem empty_error_reads_as_success:
  assumes "Child_run pipe (CloneParent p) fds = (Inr c, fds1)"
    and "child_main n (Inl []) = (bytes, code)"
  shows "bytes = [] \<and> (\<exists>c'. Child_wait lossy True c ([WExited p code], [RBytes []])
    = Inr (Some (Some (Inr ()), c', ([], []))))"
proof -
  note run = Child_run_parent [OF assms(1)]
  have "bytes = []" "code = 0" using assms(2) by (simp_all add: child_main_def)
  then show ?thesis
    using Child_wait_own [OF run(2,3), of "[]" "[]" "WExited p 0" _ _ lossy "[]" "[]"] run(1)
    by (simp add: exit_result_def)
qed

theorem empty_error_reads_as_success_witness:
  "\<exists>c fds c'. Child_run (Inr (3, 4)) (CloneParent 7) {0} = (Inr c, fds)
    \<and> Child_wait id True c ([WExited 7 0], [RBytes []]) = Inr (Some (Some (Inr ()), c', ([], [])))"
proof -
  have run: "Child_run (Inr (3, 4)) (CloneParent 7) {0}
      = (Inr (Child_new 7 \<lparr>read_fd = Some 3, write_fd = None\<rparr>), {0, 3})"
    by (auto simp: Child_run_def NotificationFd_new_def close_write_def)
  show ?thesis
    using empty_error_reads_as_success [OF run, of 10 "[]" 0 id] run by (auto simp: child_main_def)
qed

end
