(* ===== verification/Cgroups.thy ===== *)
theory Cgroups
  imports Text "HOL-Library.Sublist"
begin

text \<open>
  \<open>util/cgroups.rs\<close>: the path of a new cgroup, entering it, and dropping it. Paths are strings
  with the joining rule of \<open>PathBuf::join\<close>. The file system answers are parameters; what an
  operation does to the file system is the list of the writes it makes, in order.
\<close>

section \<open>Paths\<close>

definition slash :: char where
  "slash = CHR ''/''"

text \<open>Joining an absolute path replaces the base.\<close>

definition path_join :: "string \<Rightarrow> string \<Rightarrow> string" where
  "path_join base p =
     (if p \<noteq> [] \<and> hd p = slash then p
      else if base = [] \<or> last base = slash then base @ p
      else base @ [slash] @ p)"

definition strip_slashes :: "string \<Rightarrow> string" where
  "strip_slashes p = rev (dropWhile (\<lambda>c. c = slash) (rev p))"

text \<open>The parent of a path that does not end in a slash.\<close>

definition path_parent :: "string \<Rightarrow> string option" where
  "path_parent p =
     (case split_last slash p of
        None \<Rightarrow> if p = [] then None else Some []
      | Some (a, _) \<Rightarrow> Some (if strip_slashes a = [] then [slash] else strip_slashes a))"

definition under :: "string \<Rightarrow> string \<Rightarrow> bool" where
  "under base p \<longleftrightarrow> prefix (base @ [slash]) p"

section \<open>Operations\<close>

datatype fs_op =
    MkdirAll string
  | OpenTruncate string
  | WriteTo string string
  | RemoveAll string

text \<open>The first line with a colon gives the cgroup: what follows its last colon.\<close>

fun find_cgroup :: "string result list \<Rightarrow> string option result" where
  "find_cgroup [] = Inr None"
| "find_cgroup (Inl e # ls) = Inl e"
| "find_cgroup (Inr line # ls) =
     (case split_last (CHR '':'') line of
        Some (_, path) \<Rightarrow> Inr (Some path)
      | None \<Rightarrow> find_cgroup ls)"

definition cgroup_mount :: string where
  "cgroup_mount = ''/sys/fs/cgroup''"

definition cgroup_name :: "nat \<Rightarrow> string" where
  "cgroup_name r = ''schtest-'' @ show_nat r"

definition new_cgroup_path :: "string \<Rightarrow> string \<Rightarrow> string" where
  "new_cgroup_path current name =
     (if current = ''/'' then path_join cgroup_mount name
      else path_join (path_join cgroup_mount current) name)"

text \<open>
  \<open>file\<close> is the lines of \<open>/proc/self/cgroup\<close>, \<open>None\<close> when it does not open; \<open>r\<close> is the random
  number; \<open>mkdir_ok\<close> says for which path the directory can be made.
\<close>

definition Cgroup_create ::
    "string result list option \<Rightarrow> nat \<Rightarrow> (string \<Rightarrow> bool) \<Rightarrow> string result \<times> fs_op list" where
  "Cgroup_create file r mkdir_ok =
     (case file of
        None \<Rightarrow> (Inl (Anyhow ''failed to open /proc/self/cgroup''), [])
      | Some ls \<Rightarrow>
          (case find_cgroup ls of
             Inl e \<Rightarrow> (Inl e, [])
           | Inr None \<Rightarrow> (Inl (Anyhow ''failed to determine current cgroup''), [])
           | Inr (Some current) \<Rightarrow>
               let path = new_cgroup_path current (cgroup_name r) in
               if mkdir_ok path then (Inr path, [MkdirAll path])
               else (Inl (Anyhow ''failed to create cgroup directory''), [])))"

definition tasks_of :: "string \<Rightarrow> string" where
  "tasks_of p = path_join p ''tasks''"

definition CgroupInfo_enter ::
    "(string \<Rightarrow> bool) \<Rightarrow> (string \<Rightarrow> bool) \<Rightarrow> nat \<Rightarrow> string \<Rightarrow> unit result \<times> fs_op list" where
  "CgroupInfo_enter open_ok write_ok pid path =
     (let f = tasks_of path in
      if \<not> open_ok f then (Inl (Anyhow ''failed to open tasks file''), [])
      else if \<not> write_ok f then (Inl (Anyhow ''failed to write to tasks file''), [OpenTruncate f])
      else (Inr (), [OpenTruncate f, WriteTo f (show_nat pid)]))"

text \<open>
  Dropping: \<open>tasks\<close> is the lines of the cgroup's tasks file, \<open>None\<close> when it does not open. The
  lines up to the first that cannot be read go to the parent's file, then the directory goes.
\<close>

fun readable_lines :: "string result list \<Rightarrow> string list" where
  "readable_lines [] = []"
| "readable_lines (Inl e # ls) = []"
| "readable_lines (Inr l # ls) = l # readable_lines ls"

definition Cgroup_drop :: "string result list option \<Rightarrow> (string \<Rightarrow> bool) \<Rightarrow> string \<Rightarrow> fs_op list" where
  "Cgroup_drop tasks open_ok path =
     (if path = [] then []
      else
        let parent = (case path_parent path of None \<Rightarrow> ''/'' | Some p \<Rightarrow> p);
            f = tasks_of parent;
            moves = (case tasks of
                None \<Rightarrow> []
              | Some ls \<Rightarrow>
                  if open_ok f
                  then OpenTruncate f # map (\<lambda>l. WriteTo f (l @ [newline])) (readable_lines ls)
                  else [])
        in moves @ [RemoveAll path])"

section \<open>Lemmas\<close>

lemma split_last_append:
  "c \<notin> set b \<Longrightarrow> split_last c (a @ c # b) = Some (a, b)"
proof (induction a)
  case Nil
  then have "split_last c b = None" by (induction b) auto
  then show ?case by simp
qed simp

lemma split_last_none: "c \<notin> set b \<Longrightarrow> split_last c b = None"
  by (induction b) auto

lemma show_nat_digit: "c \<in> set (show_nat n) \<Longrightarrow> \<exists>d<10. c = digit_char d"
  by (rule show_nat_chars)

lemma name_plain: "slash \<notin> set (cgroup_name r)" and name_head: "cgroup_name r \<noteq> []" "hd (cgroup_name r) \<noteq> slash"
proof -
  have digit: "digit_char d \<noteq> slash" if "d < 10" for d
  proof
    assume "digit_char d = slash"
    then have "of_char (digit_char d) = (of_char slash :: nat)" by simp
    then show False using of_char_digit [OF that] by (simp add: slash_def)
  qed
  then show "slash \<notin> set (cgroup_name r)"
    using show_nat_digit [of slash r] digit by (force simp: cgroup_name_def slash_def)
qed (simp_all add: cgroup_name_def slash_def)

lemma path_join_name:
  assumes "base \<noteq> []"
  shows "path_join base (cgroup_name r)
    = (if last base = slash then base @ cgroup_name r else base @ [slash] @ cgroup_name r)"
  using assms name_head by (simp add: path_join_def)

lemma mount_plain: "cgroup_mount \<noteq> []" "last cgroup_mount \<noteq> slash" "hd cgroup_mount = slash"
  by (simp_all add: cgroup_mount_def slash_def)

text \<open>The line format of \<open>/proc/self/cgroup\<close>: \<open>hierarchy-ID:controller-list:cgroup-path\<close>.\<close>

lemma find_cgroup_line:
  assumes "CHR '':'' \<notin> set path"
  shows "find_cgroup (Inr (ids @ CHR '':'' # path) # ls) = Inr (Some path)"
  using split_last_append [OF assms, of ids] by simp

section \<open>Properties\<close>

text \<open>
  Where a new cgroup is made. A process whose cgroup is the root, or is given by a relative
  path, gets a fresh directory below the mount. A process in any other cgroup, which
  the kernel always names by an absolute path, gets a directory outside the mount: joining
  the absolute path drops the prefix \<open>/sys/fs/cgroup\<close>, so the directory is made under the
  same name in the root file system and the process is never put in a cgroup.
\<close>

theorem cgroup_path_escapes_mount:
  assumes "CHR '':'' \<notin> set current" and "\<And>p. mkdir_ok p"
  shows "\<exists>path. Cgroup_create (Some (Inr (ids @ CHR '':'' # current) # ls)) r mkdir_ok
        = (Inr path, [MkdirAll path])
    \<and> (current = ''/'' \<or> current = [] \<or> hd current \<noteq> slash \<longrightarrow> under cgroup_mount path)
    \<and> (current \<noteq> ''/'' \<and> current \<noteq> [] \<and> hd current = slash \<longrightarrow>
        path = current @ (if last current = slash then [] else [slash]) @ cgroup_name r)"
proof -
  have "Cgroup_create (Some (Inr (ids @ CHR '':'' # current) # ls)) r mkdir_ok
      = (Inr (new_cgroup_path current (cgroup_name r)), [MkdirAll (new_cgroup_path current (cgroup_name r))])"
    unfolding Cgroup_create_def option.case find_cgroup_line [OF assms(1)] sum.case
    using assms(2) by (simp add: Let_def)
  moreover have "current = ''/'' \<or> current = [] \<or> hd current \<noteq> slash \<longrightarrow>
      under cgroup_mount (new_cgroup_path current (cgroup_name r))"
    using mount_plain name_head
    by (auto simp: new_cgroup_path_def path_join_def under_def prefix_def)
  moreover have "current \<noteq> ''/'' \<and> current \<noteq> [] \<and> hd current = slash \<longrightarrow>
      new_cgroup_path current (cgroup_name r)
        = current @ (if last current = slash then [] else [slash]) @ cgroup_name r"
    using name_head by (simp add: new_cgroup_path_def path_join_def)
  ultimately show ?thesis by blast
qed

theorem cgroup_path_escapes_mount_witness:
  "Cgroup_create (Some [Inr ''0::/user.slice'']) 7 (\<lambda>_. True)
    = (Inr ''/user.slice/schtest-7'', [MkdirAll ''/user.slice/schtest-7''])
   \<and> \<not> under cgroup_mount ''/user.slice/schtest-7''"
proof -
  have "digit_char 7 = CHR ''7''" by code_simp
  then have name: "cgroup_name 7 = ''schtest-7''" by (simp add: cgroup_name_def show_nat.simps)
  have "\<exists>path. Cgroup_create (Some (Inr (''0:'' @ CHR '':'' # ''/user.slice'') # [])) 7 (\<lambda>_. True)
        = (Inr path, [MkdirAll path])
    \<and> (''/user.slice'' = ''/'' \<or> ''/user.slice'' = [] \<or> hd ''/user.slice'' \<noteq> slash \<longrightarrow> under cgroup_mount path)
    \<and> (''/user.slice'' \<noteq> ''/'' \<and> ''/user.slice'' \<noteq> [] \<and> hd ''/user.slice'' = slash \<longrightarrow>
        path = ''/user.slice'' @ (if last ''/user.slice'' = slash then [] else [slash]) @ cgroup_name 7)"
    by (rule cgroup_path_escapes_mount) simp_all
  then show ?thesis by (auto simp: name slash_def under_def cgroup_mount_def)
qed

lemma strip_slashes_id: "p = [] \<or> last p \<noteq> slash \<Longrightarrow> strip_slashes p = p"
  by (cases p rule: rev_cases) (auto simp: strip_slashes_def)

lemma parent_of_created:
  assumes "dir = [] \<or> last dir \<noteq> slash"
  shows "path_parent (dir @ slash # cgroup_name r) = Some (if dir = [] then [slash] else dir)"
  using split_last_append [OF name_plain, of dir r] strip_slashes_id [OF assms]
  by (simp add: path_parent_def)

text \<open>
  What a drop does to the file system, for the path of a created cgroup: every line of the
  tasks file goes, in order and before anything is removed, to the tasks file of the parent
  directory, up to the first line that cannot be read, and then the directory itself, and no
  other, is removed; without the cgroup's tasks file only the removal is left.
\<close>

theorem cgroup_drop_moves_tasks:
  assumes "dir = [] \<or> last dir \<noteq> slash"
  shows "Cgroup_drop (Some (map Inr ls @ Inl e # rest)) (\<lambda>_. True) (dir @ slash # cgroup_name r)
      = (let f = tasks_of (if dir = [] then [slash] else dir) in
         OpenTruncate f # map (\<lambda>l. WriteTo f (l @ [newline])) ls
         @ [RemoveAll (dir @ slash # cgroup_name r)])
    \<and> Cgroup_drop None open_ok (dir @ slash # cgroup_name r) = [RemoveAll (dir @ slash # cgroup_name r)]"
proof -
  have "readable_lines (map Inr ls @ Inl e # rest) = ls" by (induction ls) auto
  then show ?thesis by (simp add: Cgroup_drop_def parent_of_created [OF assms] Let_def)
qed

theorem cgroup_drop_moves_tasks_witness:
  "Cgroup_drop (Some [Inr ''12'', Inr ''34'', Inl (Anyhow ''x'')]) (\<lambda>_. True)
     (''/sys'' @ slash # cgroup_name 7)
   = [OpenTruncate ''/sys/tasks'', WriteTo ''/sys/tasks'' (''12'' @ [newline]),
      WriteTo ''/sys/tasks'' (''34'' @ [newline]), RemoveAll (''/sys'' @ slash # cgroup_name 7)]"
  using cgroup_drop_moves_tasks [of "''/sys''" "[''12'', ''34'']" "Anyhow ''x''" "[]" 7]
  by (simp add: slash_def tasks_of_def path_join_def Let_def)

end
