(* ===== verification/F64.thy ===== *)
theory F64
  imports Complex_Main "HOL-Library.Log_Nat"
begin

text \<open>
  Rust's \<open>f64\<close>: IEEE binary64 over the rationals, rounding to nearest with ties to even. The two
  zeros are one value here: nothing in the code divides by a zero that can be negative or
  prints the sign of one.
\<close>

datatype f64 =
    Fin rat
  | PosInf
  | NegInf
  | NaN

section \<open>Rounding\<close>

text \<open>The exponent of a positive rational: \<open>2 ^ floor_log2 x \<le> x < 2 ^ (floor_log2 x + 1)\<close>.\<close>

definition floor_log2 :: "rat \<Rightarrow> int" where
  "floor_log2 x =
     (case quotient_of x of (p, q) \<Rightarrow>
       let k = bitlen p - bitlen q in if 2 powi k \<le> x then k else k - 1)"

definition round_even :: "rat \<Rightarrow> int" where
  "round_even x =
     (let f = floor x; d = x - of_int f in
      if d < 1 / 2 then f else if 1 / 2 < d then f + 1 else if even f then f else f + 1)"

text \<open>A double has 53 bits of precision and no exponent below that of its least subnormal.\<close>

definition unit_exp :: "rat \<Rightarrow> int" where
  "unit_exp x = max (floor_log2 x - 52) (-1074)"

definition round_pos :: "rat \<Rightarrow> rat" where
  "round_pos x = of_int (round_even (x / 2 powi unit_exp x)) * 2 powi unit_exp x"

definition rnd :: "rat \<Rightarrow> f64" where
  "rnd x =
     (if x = 0 then Fin 0
      else if 0 < x then (let y = round_pos x in if 2 powi 1024 \<le> y then PosInf else Fin y)
      else (let y = round_pos (- x) in if 2 powi 1024 \<le> y then NegInf else Fin (- y)))"

section \<open>Operations\<close>

fun f_neg :: "f64 \<Rightarrow> f64" where
  "f_neg (Fin x) = Fin (- x)"
| "f_neg PosInf = NegInf"
| "f_neg NegInf = PosInf"
| "f_neg NaN = NaN"

fun f_add :: "f64 \<Rightarrow> f64 \<Rightarrow> f64" where
  "f_add (Fin x) (Fin y) = rnd (x + y)"
| "f_add NaN _ = NaN"
| "f_add _ NaN = NaN"
| "f_add PosInf NegInf = NaN"
| "f_add NegInf PosInf = NaN"
| "f_add PosInf _ = PosInf"
| "f_add _ PosInf = PosInf"
| "f_add NegInf _ = NegInf"
| "f_add _ NegInf = NegInf"

definition f_sub :: "f64 \<Rightarrow> f64 \<Rightarrow> f64" where
  "f_sub a b = f_add a (f_neg b)"

definition inf_of_sign :: "rat \<Rightarrow> f64" where
  "inf_of_sign s = (if 0 < s then PosInf else if s < 0 then NegInf else NaN)"

fun f_sign :: "f64 \<Rightarrow> rat" where
  "f_sign (Fin x) = sgn x"
| "f_sign PosInf = 1"
| "f_sign NegInf = -1"
| "f_sign NaN = 0"

fun f_mul :: "f64 \<Rightarrow> f64 \<Rightarrow> f64" where
  "f_mul (Fin x) (Fin y) = rnd (x * y)"
| "f_mul NaN _ = NaN"
| "f_mul _ NaN = NaN"
| "f_mul a b = inf_of_sign (f_sign a * f_sign b)"

fun f_div :: "f64 \<Rightarrow> f64 \<Rightarrow> f64" where
  "f_div (Fin x) (Fin y) = (if y = 0 then inf_of_sign x else rnd (x / y))"
| "f_div NaN _ = NaN"
| "f_div _ NaN = NaN"
| "f_div (Fin x) _ = Fin 0"
| "f_div a (Fin y) = (if y < 0 then f_neg a else a)"
| "f_div _ _ = NaN"

fun f_le :: "f64 \<Rightarrow> f64 \<Rightarrow> bool" where
  "f_le (Fin x) (Fin y) = (x \<le> y)"
| "f_le NaN _ = False"
| "f_le _ NaN = False"
| "f_le NegInf _ = True"
| "f_le _ PosInf = True"
| "f_le _ _ = False"

definition f_lt :: "f64 \<Rightarrow> f64 \<Rightarrow> bool" where
  "f_lt a b \<longleftrightarrow> f_le a b \<and> \<not> f_le b a"

definition f_eq :: "f64 \<Rightarrow> f64 \<Rightarrow> bool" where
  "f_eq a b \<longleftrightarrow> a = b \<and> a \<noteq> NaN"

definition f_abs :: "f64 \<Rightarrow> f64" where
  "f_abs a = (if f_lt a (Fin 0) then f_neg a else a)"

text \<open>\<open>f64::min\<close> and \<open>f64::max\<close> ignore a NaN when the other value is a number.\<close>

definition f_min :: "f64 \<Rightarrow> f64 \<Rightarrow> f64" where
  "f_min a b = (if a = NaN then b else if b = NaN then a else if f_le a b then a else b)"

definition f_max :: "f64 \<Rightarrow> f64 \<Rightarrow> f64" where
  "f_max a b = (if a = NaN then b else if b = NaN then a else if f_le a b then b else a)"

fun f_ceil :: "f64 \<Rightarrow> f64" where
  "f_ceil (Fin x) = Fin (of_int (ceiling x))"
| "f_ceil a = a"

text \<open>The saturating cast to an unsigned integer of \<open>w\<close> bits; NaN becomes 0.\<close>

definition f_to_uint :: "nat \<Rightarrow> f64 \<Rightarrow> nat" where
  "f_to_uint w a =
     (case a of
        Fin x \<Rightarrow> min (nat (floor x)) (2 ^ w - 1)
      | PosInf \<Rightarrow> 2 ^ w - 1
      | NegInf \<Rightarrow> 0
      | NaN \<Rightarrow> 0)"

definition f_of_nat :: "nat \<Rightarrow> f64" where
  "f_of_nat n = rnd (of_nat n)"

section \<open>Facts on the exponent\<close>

lemma powi_pos [simp]: "0 < (2 :: rat) powi k"
  by (simp add: zero_less_power_int)

lemma powi_mono: "i \<le> j \<Longrightarrow> (2 :: rat) powi i \<le> 2 powi j"
  by (simp add: power_int_increasing)

lemma powi_int_less: "(2 :: rat) powi i < 2 powi j \<Longrightarrow> i < j"
  using powi_mono [of j i] by (meson leD not_le)

lemma powi_le_iff: "(2 :: rat) powi i \<le> 2 powi j \<longleftrightarrow> i \<le> j"
proof
  assume le: "(2 :: rat) powi i \<le> 2 powi j"
  show "i \<le> j"
  proof (rule ccontr)
    assume "\<not> i \<le> j"
    then have "(2 :: rat) powi j < 2 powi i" by (intro power_int_strict_increasing) simp_all
    with le show False by simp
  qed
qed (rule powi_mono)

lemma powi_of_nat: "0 \<le> k \<Longrightarrow> (2 :: rat) powi k = of_int (2 ^ nat k)"
  by (simp add: power_int_def)

lemma floor_log2_bounds:
  assumes "0 < x"
  shows "2 powi floor_log2 x \<le> x" and "x < 2 powi (floor_log2 x + 1)"
proof -
  obtain p q where pq: "quotient_of x = (p, q)" by (cases "quotient_of x")
  have q: "0 < q" using pq by (rule quotient_of_denom_pos)
  have x: "x = of_int p / of_int q" using pq by (rule quotient_of_div)
  have p: "0 < p" using assms q unfolding x by (simp add: zero_less_divide_iff)
  have bounds: "(2 :: rat) powi (bitlen n - 1) \<le> of_int n \<and> of_int n < (2 :: rat) powi bitlen n"
    if "0 < n" for n
  proof -
    have b: "1 \<le> bitlen n" using that bitlen_eq_zero_iff [of n] bitlen_nonneg [of n] by linarith
    have "2 powi (bitlen n - 1) = (of_int (2 ^ nat (bitlen n - 1)) :: rat)"
      and "2 powi bitlen n = (of_int (2 ^ nat (bitlen n)) :: rat)"
      using b by (simp_all add: powi_of_nat)
    then show ?thesis using bitlen_bounds [OF that] by (simp only: of_int_le_iff of_int_less_iff)
  qed
  let ?k = "bitlen p - bitlen q"
  have "of_int p / of_int q < (2 :: rat) powi bitlen p / 2 powi (bitlen q - 1)"
    using bounds [OF p] bounds [OF q] p by (intro frac_less) auto
  then have upper: "x < 2 powi (?k + 1)" by (simp add: x algebra_simps flip: power_int_diff)
  have "(2 :: rat) powi (bitlen p - 1) / 2 powi bitlen q < of_int p / of_int q"
    using bounds [OF p] bounds [OF q] q by (intro frac_less2) auto
  then have lower: "2 powi (?k - 1) < x" by (simp add: x algebra_simps flip: power_int_diff)
  show "2 powi floor_log2 x \<le> x" and "x < 2 powi (floor_log2 x + 1)"
    using upper lower by (simp_all add: floor_log2_def pq Let_def)
qed

lemma floor_log2_mono:
  assumes "0 < x" and "x \<le> y"
  shows "floor_log2 x \<le> floor_log2 y"
proof -
  have "2 powi floor_log2 x < (2 :: rat) powi (floor_log2 y + 1)"
    using floor_log2_bounds(1) [OF assms(1)] floor_log2_bounds(2) [of y] assms by linarith
  then show ?thesis using powi_int_less by fastforce
qed

section \<open>Rounding is monotone and exact on small integers\<close>

lemma round_even_mono:
  assumes "x \<le> y"
  shows "round_even x \<le> round_even y"
proof (cases "floor x = floor y")
  case True
  then show ?thesis using assms by (auto simp: round_even_def Let_def)
next
  case False
  then have "floor x + 1 \<le> floor y" using floor_mono [OF assms] by linarith
  moreover have "round_even x \<le> floor x + 1" "floor y \<le> round_even y"
    by (auto simp: round_even_def Let_def)
  ultimately show ?thesis by linarith
qed

lemma round_even_int [simp]: "round_even (of_int i) = i"
  by (simp add: round_even_def)

lemma unit_exp_scaled_int:
  assumes "unit_exp y \<le> k"
  shows "\<exists>i. 2 powi k / 2 powi unit_exp y = (of_int i :: rat)"
  using assms powi_of_nat [of "k - unit_exp y"] by (auto simp flip: power_int_diff)

text \<open>A power of two at or above the unit in the last place bounds the rounding.\<close>

lemma round_pos_le_power:
  assumes "x \<le> 2 powi k" and "unit_exp x \<le> k"
  shows "round_pos x \<le> 2 powi k"
proof -
  obtain i where i: "2 powi k / 2 powi unit_exp x = (of_int i :: rat)"
    using unit_exp_scaled_int [OF assms(2)] by blast
  have "x / 2 powi unit_exp x \<le> of_int i" unfolding i [symmetric] using assms(1)
    by (intro divide_right_mono) simp_all
  then have "round_even (x / 2 powi unit_exp x) \<le> i" using round_even_mono by fastforce
  then have "round_pos x \<le> of_int i * 2 powi unit_exp x" by (simp add: round_pos_def)
  then show ?thesis by (simp flip: i)
qed

lemma power_le_round_pos:
  assumes "2 powi k \<le> x" and "unit_exp x \<le> k"
  shows "2 powi k \<le> round_pos x"
proof -
  obtain i where i: "2 powi k / 2 powi unit_exp x = (of_int i :: rat)"
    using unit_exp_scaled_int [OF assms(2)] by blast
  have "of_int i \<le> x / 2 powi unit_exp x" unfolding i [symmetric] using assms(1)
    by (intro divide_right_mono) simp_all
  then have "i \<le> round_even (x / 2 powi unit_exp x)" using round_even_mono by fastforce
  then have "of_int i * 2 powi unit_exp x \<le> round_pos x" by (simp add: round_pos_def)
  then show ?thesis by (simp flip: i)
qed

lemma round_pos_mono:
  assumes "0 < x" and "x \<le> y"
  shows "round_pos x \<le> round_pos y"
proof (cases "unit_exp x = unit_exp y")
  case True
  have "round_even (x / 2 powi unit_exp y) \<le> round_even (y / 2 powi unit_exp y)"
    using assms(2) by (intro round_even_mono divide_right_mono) simp_all
  then show ?thesis by (simp add: round_pos_def True)
next
  case False
  have "unit_exp x \<le> unit_exp y" using floor_log2_mono [OF assms] by (auto simp: unit_exp_def)
  with False have y: "unit_exp x < unit_exp y" "unit_exp y = floor_log2 y - 52"
    by (auto simp: unit_exp_def split: if_splits)
  let ?k = "floor_log2 y"
  have "floor_log2 x < ?k" using y by (auto simp: unit_exp_def)
  then have "x \<le> 2 powi ?k"
    using floor_log2_bounds(2) [OF assms(1)] powi_mono [of "floor_log2 x + 1" ?k] by linarith
  then have "round_pos x \<le> 2 powi ?k" using y by (intro round_pos_le_power) simp_all
  moreover have "2 powi ?k \<le> round_pos y"
    using floor_log2_bounds(1) [of y] assms y by (intro power_le_round_pos) simp_all
  ultimately show ?thesis by linarith
qed

lemma round_pos_nonneg: "0 < x \<Longrightarrow> 0 \<le> round_pos x"
  unfolding round_pos_def
  using round_even_mono [of 0 "x / 2 powi unit_exp x"] round_even_int [of 0] by simp

lemma f_le_refl: "a \<noteq> NaN \<Longrightarrow> f_le a a"
  by (cases a) auto

lemma f_le_trans: "f_le a b \<Longrightarrow> f_le b c \<Longrightarrow> f_le a c"
  by (cases a; cases b; cases c) auto

lemma f_le_total: "a \<noteq> NaN \<Longrightarrow> b \<noteq> NaN \<Longrightarrow> f_le a b \<or> f_le b a"
  by (cases a; cases b) auto

lemma rnd_not_NaN [simp]: "rnd x \<noteq> NaN"
  by (simp add: rnd_def Let_def)

lemma rnd_zero [simp]: "rnd 0 = Fin 0"
  by (simp add: rnd_def)

lemma rnd_mono: "x \<le> y \<Longrightarrow> f_le (rnd x) (rnd y)"
proof -
  assume le: "x \<le> y"
  consider "0 < x" | "y < 0" | "x \<le> 0" "0 \<le> y" by linarith
  then show ?thesis
  proof cases
    case 1
    then show ?thesis using round_pos_mono [OF 1 le] le by (auto simp: rnd_def Let_def)
  next
    case 2
    then show ?thesis using round_pos_mono [of "- y" "- x"] le by (auto simp: rnd_def Let_def)
  next
    case 3
    then show ?thesis using round_pos_nonneg [of y] round_pos_nonneg [of "- x"]
      by (auto simp: rnd_def Let_def)
  qed
qed

text \<open>Every integer of at most 53 bits is a double.\<close>

lemma round_pos_int:
  assumes "0 < n" and "n \<le> 2 ^ 53"
  shows "round_pos (of_int n) = of_int n"
proof -
  let ?x = "of_int n :: rat"
  have two53: "(2 :: rat) powi 53 = of_int (2 ^ 53)" by (subst powi_of_nat) simp_all
  have le: "?x \<le> 2 powi 53" unfolding two53 of_int_le_iff by (rule assms(2))
  have fl: "2 powi floor_log2 ?x \<le> ?x" using assms(1) by (intro floor_log2_bounds) simp
  show ?thesis
  proof (cases "n = 2 ^ 53")
    case True
    have x: "?x = 2 powi 53" unfolding two53 True ..
    have "floor_log2 ?x \<le> 53" using fl le powi_le_iff order_trans by blast
    then have "unit_exp ?x \<le> 53" by (simp add: unit_exp_def)
    then have "round_pos ?x = 2 powi 53"
      using round_pos_le_power [of ?x 53] power_le_round_pos [of 53 ?x] x by fastforce
    then show ?thesis using x by simp
  next
    case False
    then have "n < 2 ^ 53" using assms(2) by linarith
    then have "?x < 2 powi 53" unfolding two53 of_int_less_iff .
    then have "floor_log2 ?x < 53" using fl by (intro powi_int_less) linarith
    then have "unit_exp ?x \<le> 0" by (simp add: unit_exp_def)
    then obtain i where i: "1 / 2 powi unit_exp ?x = (of_int i :: rat)"
      using unit_exp_scaled_int [of ?x 0] by auto
    have "?x / 2 powi unit_exp ?x = of_int (n * i)" using i by (simp add: divide_inverse)
    then have "round_pos ?x = (?x / 2 powi unit_exp ?x) * 2 powi unit_exp ?x"
      unfolding round_pos_def by (simp only: round_even_int)
    then show ?thesis by simp
  qed
qed

lemma rnd_nat:
  assumes "n \<le> 2 ^ 53"
  shows "f_of_nat n = Fin (of_nat n)"
proof (cases "n = 0")
  case False
  have "int n \<le> int (2 ^ 53)" using assms by (simp only: of_nat_le_iff)
  then have n: "int n \<le> 2 ^ 53" by simp
  have r: "round_pos (of_int (int n)) = of_int (int n)"
    using False n by (intro round_pos_int) simp_all
  have "(of_int (int n) :: rat) \<le> of_int (2 ^ 53)" unfolding of_int_le_iff by (rule n)
  also have "\<dots> = 2 powi 53" by (subst powi_of_nat) simp_all
  also have "\<dots> < 2 powi 1024" using powi_le_iff [of 1024 53] by simp
  finally have "\<not> 2 powi 1024 \<le> (of_nat n :: rat)" by simp
  then show ?thesis using False r by (simp add: f_of_nat_def rnd_def)
qed (simp add: f_of_nat_def)

end
