(* ===== verification/Sched.thy ===== *)
theory Sched
  imports Text F64
begin

text \<open>
  \<open>util/sched.rs\<close>: the scheduler statistics of a thread and of a process, read from \<open>/proc\<close>; the
  state of the \<open>sched_ext\<close> framework, read from \<open>/sys\<close>; and the system call that sets the
  scheduling policy. The files and the answers of the system calls are parameters. A
  \<open>Duration\<close> is its number of nanoseconds.
\<close>

section \<open>Numbers of the standard library\<close>

text \<open>\<open>str::parse\<close> into \<open>f64\<close>: the decimal grammar, then one correct rounding.\<close>

definition is_digit :: "char \<Rightarrow> bool" where
  "is_digit c \<longleftrightarrow> digit_of c \<noteq> None"

definition lower :: "char \<Rightarrow> char" where
  "lower c = (let n = of_char c in if 65 \<le> n \<and> n \<le> (90 :: nat) then char_of (n + 32) else c)"

definition split_sign :: "string \<Rightarrow> bool \<times> string" where
  "split_sign s =
     (case s of
        [] \<Rightarrow> (False, [])
      | c # r \<Rightarrow> if c = CHR ''-'' then (True, r) else if c = CHR ''+'' then (False, r) else (False, s))"

definition split_fraction :: "string \<Rightarrow> string \<times> string" where
  "split_fraction s =
     (case s of
        [] \<Rightarrow> ([], [])
      | c # r \<Rightarrow> if c = CHR ''.'' then (takeWhile is_digit r, dropWhile is_digit r) else ([], s))"

definition parse_exponent :: "string \<Rightarrow> int option" where
  "parse_exponent s =
     (case s of
        [] \<Rightarrow> Some 0
      | c # r \<Rightarrow>
          if lower c = CHR ''e''
          then (case split_sign r of (neg, ds) \<Rightarrow>
            map_option (\<lambda>n. if neg then - int n else int n) (parse_digits ds))
          else None)"

definition parse_decimal :: "string \<Rightarrow> rat option" where
  "parse_decimal s =
     (let ip = takeWhile is_digit s in
      case split_fraction (dropWhile is_digit s) of (fp, rest) \<Rightarrow>
        if ip = [] \<and> fp = [] then None
        else (case (digits_value 0 (ip @ fp), parse_exponent rest) of
            (Some n, Some e) \<Rightarrow> Some (of_nat n * 10 powi (e - int (length fp)))
          | _ \<Rightarrow> None))"

definition parse_f64 :: "string \<Rightarrow> f64 option" where
  "parse_f64 s =
     (case split_sign s of (neg, r) \<Rightarrow>
       if r = [] then None
       else (case parse_decimal r of
          Some x \<Rightarrow> Some (rnd (if neg then - x else x))
        | None \<Rightarrow>
            let l = map lower r in
            if l = ''nan'' then Some NaN
            else if l = ''inf'' \<or> l = ''infinity'' then Some (if neg then NegInf else PosInf)
            else None))"

definition duration_max :: nat where
  "duration_max = 2 ^ 64 * 10 ^ 9"

text \<open>\<open>Duration::from_secs_f64\<close> rounds to the nearest nanosecond and panics out of range.\<close>

definition from_secs_f64 :: "f64 \<Rightarrow> nat outcome" where
  "from_secs_f64 x =
     (case x of
        Fin r \<Rightarrow>
          if r < 0 then Inl (PanicMsg ''cannot convert float seconds to Duration: value is negative'')
          else let n = nat (round_even (r * 10 ^ 9)) in
            if n < duration_max then Inr n
            else Inl (PanicMsg ''cannot convert float seconds to Duration: value is either too big or NaN'')
      | NegInf \<Rightarrow> Inl (PanicMsg ''cannot convert float seconds to Duration: value is negative'')
      | _ \<Rightarrow> Inl (PanicMsg ''cannot convert float seconds to Duration: value is either too big or NaN''))"

definition duration_add :: "nat \<Rightarrow> nat \<Rightarrow> nat outcome" where
  "duration_add a b =
     (if a + b < duration_max then Inr (a + b) else Inl (PanicMsg ''overflow when adding durations''))"

section \<open>The statistics of a thread\<close>

record sched_stats =
  system_time :: nat
  user_time :: nat
  total_time :: nat
  nr_migrations :: u64
  nr_failed_migrations :: u64
  nr_forced_migrations :: u64
  nr_voluntary_switches :: u64
  nr_involuntary_switches :: u64
  nr_switches :: u64
  nr_preemptions :: u64
  nr_wakeups :: u64
  nr_wakeups_sync :: u64
  nr_wakeups_migrate :: u64
  nr_wakeups_local :: u64
  nr_wakeups_remote :: u64
  nr_yields :: u64
  wait_sum :: f64
  wait_max :: f64
  wait_count :: u64

definition stats_default :: sched_stats where
  "stats_default =
     \<lparr>system_time = 0, user_time = 0, total_time = 0, nr_migrations = 0, nr_failed_migrations = 0,
      nr_forced_migrations = 0, nr_voluntary_switches = 0, nr_involuntary_switches = 0,
      nr_switches = 0, nr_preemptions = 0, nr_wakeups = 0, nr_wakeups_sync = 0,
      nr_wakeups_migrate = 0, nr_wakeups_local = 0, nr_wakeups_remote = 0, nr_yields = 0,
      wait_sum = Fin 0, wait_max = Fin 0, wait_count = 0\<rparr>"

text \<open>The arms of the \<open>match\<close> whose value is a \<open>u64\<close>, and those whose value is an \<open>f64\<close>.\<close>

definition set_counter :: "string \<Rightarrow> u64 \<Rightarrow> sched_stats \<Rightarrow> sched_stats" where
  "set_counter key v st =
     (if key = ''nr_migrations'' then st\<lparr>nr_migrations := v\<rparr>
      else if key = ''nr_failed_migrations'' then st\<lparr>nr_failed_migrations := v\<rparr>
      else if key = ''nr_forced_migrations'' then st\<lparr>nr_forced_migrations := v\<rparr>
      else if key = ''nr_voluntary_switches'' then st\<lparr>nr_voluntary_switches := v\<rparr>
      else if key = ''nr_involuntary_switches'' then st\<lparr>nr_involuntary_switches := v\<rparr>
      else if key = ''nr_switches'' then st\<lparr>nr_switches := v\<rparr>
      else if key = ''nr_preemptions'' then st\<lparr>nr_preemptions := v\<rparr>
      else if key = ''nr_wakeups'' then st\<lparr>nr_wakeups := v\<rparr>
      else if key = ''nr_wakeups_sync'' then st\<lparr>nr_wakeups_sync := v\<rparr>
      else if key = ''nr_wakeups_migrate'' then st\<lparr>nr_wakeups_migrate := v\<rparr>
      else if key = ''nr_wakeups_local'' then st\<lparr>nr_wakeups_local := v\<rparr>
      else if key = ''nr_wakeups_remote'' then st\<lparr>nr_wakeups_remote := v\<rparr>
      else if key = ''nr_yields'' then st\<lparr>nr_yields := v\<rparr>
      else if key = ''wait_count'' then st\<lparr>wait_count := v\<rparr>
      else st)"

definition set_float :: "string \<Rightarrow> f64 \<Rightarrow> sched_stats \<Rightarrow> sched_stats" where
  "set_float key v st =
     (if key = ''wait_sum'' then st\<lparr>wait_sum := v\<rparr>
      else if key = ''wait_max'' then st\<lparr>wait_max := v\<rparr>
      else st)"

definition apply_stat :: "string \<Rightarrow> string \<Rightarrow> sched_stats \<Rightarrow> sched_stats" where
  "apply_stat key val st =
     (if key = ''wait_sum'' \<or> key = ''wait_max''
      then (case parse_f64 val of Some v \<Rightarrow> set_float key v st | None \<Rightarrow> st)
      else (case parse_u64 val of Some v \<Rightarrow> set_counter key v st | None \<Rightarrow> st))"

definition apply_line :: "string \<Rightarrow> sched_stats \<Rightarrow> sched_stats" where
  "apply_line line st =
     (case split_first (CHR '':'') line of
        None \<Rightarrow> st
      | Some (key, val) \<Rightarrow> apply_stat (trim key) (trim val) st)"

definition parse_sched :: "string \<Rightarrow> sched_stats" where
  "parse_sched content = fold apply_line (lines content) stats_default"

text \<open>
  What \<open>/proc\<close> holds for a thread: whether its \<open>sched\<close> file opens, its text unless the read
  fails, whether the process is found, and the system and user ticks of its \<open>stat\<close>.
\<close>

record proc_thread =
  sched_opens :: bool
  sched_text :: "string option"
  proc_found :: bool
  stat_ticks :: "(nat \<times> nat) option"

definition add_times :: "nat \<Rightarrow> nat \<times> nat \<Rightarrow> sched_stats \<Rightarrow> sched_stats outcome" where
  "add_times ticks_per_sec t st =
     bind_sum (from_secs_f64 (f_div (f_of_nat (fst t)) (f_of_nat ticks_per_sec))) (\<lambda>s.
     bind_sum (from_secs_f64 (f_div (f_of_nat (snd t)) (f_of_nat ticks_per_sec))) (\<lambda>u.
     bind_sum (duration_add s u) (\<lambda>total.
       Inr (st\<lparr>system_time := s, user_time := u, total_time := total\<rparr>))))"

definition sched_path :: "int option \<Rightarrow> string" where
  "sched_path tid = ''/proc/'' @ (case tid of Some t \<Rightarrow> show_int t | None \<Rightarrow> ''self'') @ ''/sched''"

definition get_thread_stats :: "nat \<Rightarrow> int option \<Rightarrow> proc_thread \<Rightarrow> sched_stats result outcome" where
  "get_thread_stats ticks_per_sec tid proc =
     (if \<not> sched_opens proc
      then Inr (Inl (Anyhow (''Failed to open scheduler stats file: '' @ sched_path tid)))
      else case sched_text proc of
        None \<Rightarrow> Inr (Inl (Anyhow (''Failed to read scheduler stats file: '' @ sched_path tid)))
      | Some content \<Rightarrow>
          if \<not> proc_found proc then Inr (Inl (Anyhow ''Failed to get process information''))
          else case stat_ticks proc of
            None \<Rightarrow> Inr (Inl (Anyhow ''Failed to read process stat information''))
          | Some t \<Rightarrow>
              bind_sum (add_times ticks_per_sec t (parse_sched content)) (\<lambda>st. Inr (Inr st)))"

section \<open>The statistics of a process\<close>

definition wait_max_of :: "f64 \<Rightarrow> f64 \<Rightarrow> f64" where
  "wait_max_of a b = (if f_lt a b then b else a)"

definition aggregate :: "bool \<Rightarrow> sched_stats \<Rightarrow> sched_stats \<Rightarrow> sched_stats outcome" where
  "aggregate oc a s =
     bind_sum (duration_add (system_time a) (system_time s)) (\<lambda>v0.
     bind_sum (duration_add (user_time a) (user_time s)) (\<lambda>v1.
     bind_sum (duration_add (total_time a) (total_time s)) (\<lambda>v2.
     bind_sum (add_ck oc (nr_migrations a) (nr_migrations s)) (\<lambda>v3.
     bind_sum (add_ck oc (nr_failed_migrations a) (nr_failed_migrations s)) (\<lambda>v4.
     bind_sum (add_ck oc (nr_forced_migrations a) (nr_forced_migrations s)) (\<lambda>v5.
     bind_sum (add_ck oc (nr_voluntary_switches a) (nr_voluntary_switches s)) (\<lambda>v6.
     bind_sum (add_ck oc (nr_involuntary_switches a) (nr_involuntary_switches s)) (\<lambda>v7.
     bind_sum (add_ck oc (nr_switches a) (nr_switches s)) (\<lambda>v8.
     bind_sum (add_ck oc (nr_preemptions a) (nr_preemptions s)) (\<lambda>v9.
     bind_sum (add_ck oc (nr_wakeups a) (nr_wakeups s)) (\<lambda>v10.
     bind_sum (add_ck oc (nr_wakeups_sync a) (nr_wakeups_sync s)) (\<lambda>v11.
     bind_sum (add_ck oc (nr_wakeups_migrate a) (nr_wakeups_migrate s)) (\<lambda>v12.
     bind_sum (add_ck oc (nr_wakeups_local a) (nr_wakeups_local s)) (\<lambda>v13.
     bind_sum (add_ck oc (nr_wakeups_remote a) (nr_wakeups_remote s)) (\<lambda>v14.
     bind_sum (add_ck oc (nr_yields a) (nr_yields s)) (\<lambda>v15.
     bind_sum (add_ck oc (wait_count a) (wait_count s)) (\<lambda>v16.
       Inr \<lparr>system_time = v0, user_time = v1, total_time = v2, nr_migrations = v3,
            nr_failed_migrations = v4, nr_forced_migrations = v5, nr_voluntary_switches = v6,
            nr_involuntary_switches = v7, nr_switches = v8, nr_preemptions = v9, nr_wakeups = v10,
            nr_wakeups_sync = v11, nr_wakeups_migrate = v12, nr_wakeups_local = v13,
            nr_wakeups_remote = v14, nr_yields = v15,
            wait_sum = f_add (wait_sum a) (wait_sum s),
            wait_max = wait_max_of (wait_max a) (wait_max s),
            wait_count = v16\<rparr>)))))))))))))))))"

text \<open>
  The loop over \<open>/proc/<pid>/task\<close>: an entry that fails ends it, one whose name is not a
  number is skipped, one whose thread cannot be read ends it.
\<close>

fun aggregate_tasks ::
    "bool \<Rightarrow> (int \<Rightarrow> sched_stats result outcome) \<Rightarrow> string result list \<Rightarrow> sched_stats
     \<Rightarrow> sched_stats result outcome" where
  "aggregate_tasks oc stats_of [] acc = Inr (Inr acc)"
| "aggregate_tasks oc stats_of (Inl e # es) acc = Inr (Inl e)"
| "aggregate_tasks oc stats_of (Inr name # es) acc =
     (case parse_i32 name of
        None \<Rightarrow> aggregate_tasks oc stats_of es acc
      | Some tid \<Rightarrow>
          bind_sum (stats_of tid) (\<lambda>r.
            case r of
              Inl e \<Rightarrow> Inr (Inl e)
            | Inr st \<Rightarrow> bind_sum (aggregate oc acc st) (\<lambda>acc'. aggregate_tasks oc stats_of es acc')))"

text \<open>\<open>tasks\<close> is the listing of the task directory, \<open>None\<close> when it cannot be read.\<close>

definition get_process_thread_stats ::
    "bool \<Rightarrow> nat \<Rightarrow> (int \<Rightarrow> proc_thread) \<Rightarrow> int option \<Rightarrow> string result list option
     \<Rightarrow> sched_stats result outcome" where
  "get_process_thread_stats oc ticks_per_sec procs pid tasks =
     (case tasks of
        None \<Rightarrow> Inr (Inl (Anyhow (''Failed to read task directory: /proc/''
                 @ (case pid of Some p \<Rightarrow> show_int p | None \<Rightarrow> ''self'') @ ''/task'')))
      | Some entries \<Rightarrow>
          aggregate_tasks oc (\<lambda>tid. get_thread_stats ticks_per_sec (Some tid) (procs tid)) entries
            stats_default)"

section \<open>The sched\_ext framework\<close>

text \<open>A file is absent, or fails to open, or fails to read, or has contents.\<close>

datatype ext_file = Absent | OpenFails | ReadFails | Contents string

record ext_sysfs =
  ext_dir :: bool
  ext_state :: ext_file
  ext_ops :: ext_file

definition read_ext :: "string \<Rightarrow> ext_file \<Rightarrow> string option result" where
  "read_ext what f =
     (case f of
        Absent \<Rightarrow> Inr None
      | OpenFails \<Rightarrow> Inl (Anyhow (''Failed to open sched_ext '' @ what @ '' file''))
      | ReadFails \<Rightarrow> Inl (Anyhow (''Failed to read sched_ext '' @ what @ '' file''))
      | Contents s \<Rightarrow> Inr (Some (trim s)))"

definition SchedExt_available :: "ext_sysfs \<Rightarrow> bool result" where
  "SchedExt_available fs = Inr (ext_dir fs)"

definition SchedExt_installed :: "ext_sysfs \<Rightarrow> string option result" where
  "SchedExt_installed fs =
     bind_sum (SchedExt_available fs) (\<lambda>there.
       if \<not> there then Inr None
       else bind_sum (read_ext ''status'' (ext_state fs)) (\<lambda>st.
         case st of
           None \<Rightarrow> Inr None
         | Some status \<Rightarrow>
             if status = ''disabled'' \<or> status = ''enabling'' then Inr None
             else if status \<noteq> ''enabled'' then Inl (Anyhow (''Unexpected status: '' @ status))
             else read_ext ''ops'' (ext_ops fs)))"

text \<open>
  \<open>set_scheduler\<close> makes one of two system calls: the policy and priority when a custom
  scheduler is known to be installed, the priority alone otherwise. \<open>answer\<close> gives the error
  of a call, if any; the call made is returned with the result.
\<close>

datatype sched_call = SetScheduler int int | SetParam int

definition set_scheduler ::
    "ext_sysfs \<Rightarrow> (sched_call \<Rightarrow> string option) \<Rightarrow> int \<Rightarrow> int \<Rightarrow> unit result \<times> sched_call" where
  "set_scheduler fs answer policy priority =
     (case SchedExt_installed fs of
        Inr (Some _) \<Rightarrow>
          let c = SetScheduler policy priority in
          (case answer c of
             Some e \<Rightarrow> (Inl (Anyhow (''failed to set scheduler policy: '' @ e)), c)
           | None \<Rightarrow> (Inr (), c))
      | _ \<Rightarrow>
          let c = SetParam priority in
          (case answer c of
             Some e \<Rightarrow> (Inl (Anyhow (''failed to set scheduler parameters: '' @ e)), c)
           | None \<Rightarrow> (Inr (), c)))"

section \<open>Reading a line\<close>

lemma split_first_append:
  "c \<notin> set a \<Longrightarrow> split_first c (a @ c # b) = Some (a, b)"
  by (induction a) auto

lemma lines_from_line:
  assumes "newline \<notin> set l"
  shows "lines_from acc (l @ newline # rest) = strip_cr (rev acc @ l) # lines_from [] rest"
  using assms by (induction l arbitrary: acc) auto

lemma lines_unlines:
  assumes "\<And>l. l \<in> set ls \<Longrightarrow> newline \<notin> set l \<and> strip_cr l = l"
  shows "lines (concat (map (\<lambda>l. l @ [newline]) ls)) = ls"
  unfolding lines_def using assms by (induction ls) (auto simp: lines_from_line)

lemma show_nat_no_space: "c \<in> set (show_nat n) \<Longrightarrow> \<not> is_space c"
  using show_nat_chars digit_char_not_special(3) by metis

lemma parse_u64_show: "parse_u64 (show_nat (unat v)) = Some v"
proof -
  have "unat v \<le> 2 ^ 64 - 1" using unsigned_less [of v, where 'a = nat] by simp
  then show ?thesis by (simp add: parse_u64_def parse_unsigned_show)
qed

text \<open>A key of the file: no separator and no white space in it. Padding: blanks only.\<close>

definition plain_key :: "string \<Rightarrow> bool" where
  "plain_key k \<longleftrightarrow> CHR '':'' \<notin> set k \<and> (\<forall>c\<in>set k. \<not> is_space c)
     \<and> k \<noteq> ''wait_sum'' \<and> k \<noteq> ''wait_max''"

definition blanks :: "nat \<Rightarrow> string" where
  "blanks n = replicate n (CHR '' '')"

definition stat_line :: "string \<times> nat \<times> nat \<times> u64 \<Rightarrow> string" where
  "stat_line e = (case e of (key, i, j, v) \<Rightarrow> key @ blanks i @ '':'' @ blanks j @ show_nat (unat v))"

lemma is_space_blank: "c \<in> set (blanks n) \<Longrightarrow> is_space c \<and> c = CHR '' ''"
  by (auto simp: blanks_def is_space_def split: if_splits)

lemma apply_stat_line:
  assumes "plain_key key"
  shows "apply_line (stat_line (key, i, j, v)) st = set_counter key v st"
proof -
  have "CHR '':'' \<notin> set (key @ blanks i)"
    using assms is_space_blank by (fastforce simp: plain_key_def)
  then have split: "split_first CHR '':'' (stat_line (key, i, j, v))
      = Some (key @ blanks i, blanks j @ show_nat (unat v))"
    using split_first_append [of "CHR '':''" "key @ blanks i"] by (simp add: stat_line_def)
  have "trim ([] @ key @ blanks i) = key"
    using assms is_space_blank by (intro trim_no_space) (auto simp: plain_key_def)
  moreover have "trim (blanks j @ show_nat (unat v) @ []) = show_nat (unat v)"
    using is_space_blank show_nat_no_space by (intro trim_no_space) auto
  ultimately show ?thesis
    using assms split by (simp add: apply_line_def apply_stat_def parse_u64_show plain_key_def)
qed

lemma stat_line_clean:
  assumes "plain_key key"
  shows "newline \<notin> set (stat_line (key, i, j, v)) \<and> strip_cr (stat_line (key, i, j, v)) = stat_line (key, i, j, v)"
proof
  have "is_space newline" "newline \<noteq> CHR '' ''" "newline \<noteq> CHR '':''" by code_simp+
  then show "newline \<notin> set (stat_line (key, i, j, v))"
    using assms is_space_blank show_nat_no_space [of newline]
    by (auto simp: stat_line_def plain_key_def)
  have "is_space carriage_return" by code_simp
  then have "last (show_nat (unat v)) \<noteq> carriage_return"
    using show_nat_no_space [of "last (show_nat (unat v))" "unat v"] last_in_set [of "show_nat (unat v)"] by auto
  then have "last (stat_line (key, i, j, v)) \<noteq> carriage_return" by (simp add: stat_line_def)
  then show "strip_cr (stat_line (key, i, j, v)) = stat_line (key, i, j, v)"
    by (auto simp: strip_cr_def)
qed

section \<open>Adding up threads\<close>

definition counter_fields :: "(sched_stats \<Rightarrow> u64) list" where
  "counter_fields =
     [nr_migrations, nr_failed_migrations, nr_forced_migrations, nr_voluntary_switches,
      nr_involuntary_switches, nr_switches, nr_preemptions, nr_wakeups, nr_wakeups_sync,
      nr_wakeups_migrate, nr_wakeups_local, nr_wakeups_remote, nr_yields, wait_count]"

definition time_fields :: "(sched_stats \<Rightarrow> nat) list" where
  "time_fields = [system_time, user_time, total_time]"

lemma aggregate_ok:
  assumes "\<And>f. f \<in> set counter_fields \<Longrightarrow> unat (f a) + unat (f s) < 2 ^ 64"
    and "\<And>f. f \<in> set time_fields \<Longrightarrow> f a + f s < duration_max"
  shows "\<exists>r. aggregate oc a s = Inr r
    \<and> (\<forall>f\<in>set counter_fields. unat (f r) = unat (f a) + unat (f s))
    \<and> (\<forall>f\<in>set time_fields. f r = f a + f s)
    \<and> wait_sum r = f_add (wait_sum a) (wait_sum s)
    \<and> wait_max r = wait_max_of (wait_max a) (wait_max s)"
proof -
  have "f \<in> set counter_fields \<Longrightarrow> add_ck oc (f a) (f s) = Inr (f a + f s)
      \<and> unat (f a + f s) = unat (f a) + unat (f s)" for f
    using assms(1) [of f] add_ck_ok [of "f a" "f s" oc] unat_add_no_overflow [of "f a" "f s"] by simp
  note words = this [unfolded counter_fields_def, simplified]
  have "f \<in> set time_fields \<Longrightarrow> duration_add (f a) (f s) = Inr (f a + f s)" for f
    using assms(2) by (simp add: duration_add_def)
  note times = this [unfolded time_fields_def, simplified]
  show ?thesis
    by (simp add: aggregate_def words times counter_fields_def time_fields_def)
qed

fun task_ids :: "string list \<Rightarrow> int list" where
  "task_ids [] = []"
| "task_ids (n # ns) = (case parse_i32 n of None \<Rightarrow> task_ids ns | Some t \<Rightarrow> t # task_ids ns)"

lemma aggregate_tasks_ok:
  assumes "\<And>t. t \<in> set (task_ids names) \<Longrightarrow> stats_of t = Inr (Inr (st t))"
    and "\<And>f. f \<in> set counter_fields \<Longrightarrow>
      unat (f acc) + (\<Sum>t\<leftarrow>task_ids names. unat (f (st t))) < 2 ^ 64"
    and "\<And>f. f \<in> set time_fields \<Longrightarrow> f acc + (\<Sum>t\<leftarrow>task_ids names. f (st t)) < duration_max"
  shows "\<exists>r. aggregate_tasks oc stats_of (map Inr names) acc = Inr (Inr r)
    \<and> (\<forall>f\<in>set counter_fields. unat (f r) = unat (f acc) + (\<Sum>t\<leftarrow>task_ids names. unat (f (st t))))
    \<and> (\<forall>f\<in>set time_fields. f r = f acc + (\<Sum>t\<leftarrow>task_ids names. f (st t)))
    \<and> wait_max r = fold (\<lambda>t m. wait_max_of m (wait_max (st t))) (task_ids names) (wait_max acc)"
  using assms
proof (induction names arbitrary: acc)
  case (Cons n ns)
  show ?case
  proof (cases "parse_i32 n")
    case None
    then show ?thesis using Cons by simp
  next
    case (Some t)
    have step: "\<exists>r. aggregate oc acc (st t) = Inr r
      \<and> (\<forall>f\<in>set counter_fields. unat (f r) = unat (f acc) + unat (f (st t)))
      \<and> (\<forall>f\<in>set time_fields. f r = f acc + f (st t))
      \<and> wait_sum r = f_add (wait_sum acc) (wait_sum (st t))
      \<and> wait_max r = wait_max_of (wait_max acc) (wait_max (st t))"
    proof (rule aggregate_ok)
      show "unat (f acc) + unat (f (st t)) < 2 ^ 64" if "f \<in> set counter_fields" for f
        using Cons.prems(2) [OF that] Some by simp
      show "f acc + f (st t) < duration_max" if "f \<in> set time_fields" for f
        using Cons.prems(3) [OF that] Some by simp
    qed
    then obtain r where r: "aggregate oc acc (st t) = Inr r"
      "\<And>f. f \<in> set counter_fields \<Longrightarrow> unat (f r) = unat (f acc) + unat (f (st t))"
      "\<And>f. f \<in> set time_fields \<Longrightarrow> f r = f acc + f (st t)"
      "wait_max r = wait_max_of (wait_max acc) (wait_max (st t))" by blast
    have rest: "\<exists>q. aggregate_tasks oc stats_of (map Inr ns) r = Inr (Inr q)
      \<and> (\<forall>f\<in>set counter_fields. unat (f q) = unat (f r) + (\<Sum>t\<leftarrow>task_ids ns. unat (f (st t))))
      \<and> (\<forall>f\<in>set time_fields. f q = f r + (\<Sum>t\<leftarrow>task_ids ns. f (st t)))
      \<and> wait_max q = fold (\<lambda>t m. wait_max_of m (wait_max (st t))) (task_ids ns) (wait_max r)"
    proof (rule Cons.IH)
      show "stats_of u = Inr (Inr (st u))" if "u \<in> set (task_ids ns)" for u
        using Cons.prems(1) that Some by simp
      show "unat (f r) + (\<Sum>t\<leftarrow>task_ids ns. unat (f (st t))) < 2 ^ 64" if "f \<in> set counter_fields" for f
        using Cons.prems(2) [OF that] r(2) [OF that] Some by simp
      show "f r + (\<Sum>t\<leftarrow>task_ids ns. f (st t)) < duration_max" if "f \<in> set time_fields" for f
        using Cons.prems(3) [OF that] r(3) [OF that] Some by simp
    qed
    then obtain q where q: "aggregate_tasks oc stats_of (map Inr ns) r = Inr (Inr q)"
      "\<And>f. f \<in> set counter_fields \<Longrightarrow> unat (f q) = unat (f r) + (\<Sum>t\<leftarrow>task_ids ns. unat (f (st t)))"
      "\<And>f. f \<in> set time_fields \<Longrightarrow> f q = f r + (\<Sum>t\<leftarrow>task_ids ns. f (st t))"
      "wait_max q = fold (\<lambda>t m. wait_max_of m (wait_max (st t))) (task_ids ns) (wait_max r)" by blast
    have "stats_of t = Inr (Inr (st t))" using Cons.prems(1) Some by simp
    then have "aggregate_tasks oc stats_of (map Inr (n # ns)) acc = Inr (Inr q)"
      using Some r(1) q(1) by simp
    moreover have "f q = f acc + (\<Sum>t\<leftarrow>task_ids (n # ns). f (st t))" if "f \<in> set time_fields" for f
      using q(3) [OF that] r(3) [OF that] Some by simp
    moreover have "unat (f q) = unat (f acc) + (\<Sum>t\<leftarrow>task_ids (n # ns). unat (f (st t)))"
      if "f \<in> set counter_fields" for f
      using q(2) [OF that] r(2) [OF that] Some by simp
    moreover have "wait_max q
        = fold (\<lambda>t m. wait_max_of m (wait_max (st t))) (task_ids (n # ns)) (wait_max acc)"
      using q(4) r(4) Some by simp
    ultimately show ?thesis by blast
  qed
qed simp

lemma wait_max_of_bounds:
  assumes "m \<noteq> NaN"
  shows "wait_max_of m x \<noteq> NaN" and "f_le m (wait_max_of m x)"
    and "x \<noteq> NaN \<Longrightarrow> f_le x (wait_max_of m x)"
proof -
  show "wait_max_of m x \<noteq> NaN" using assms by (cases m; cases x) (simp_all add: wait_max_of_def f_lt_def)
  show "f_le m (wait_max_of m x)" using f_le_refl [OF assms] by (simp add: wait_max_of_def f_lt_def)
  show "f_le x (wait_max_of m x)" if "x \<noteq> NaN"
    using f_le_total [OF assms that] f_le_refl [OF that] by (auto simp: wait_max_of_def f_lt_def)
qed

lemma fold_wait_max:
  assumes "m \<noteq> NaN"
  shows "fold (\<lambda>t m. wait_max_of m (w t)) ts m \<noteq> NaN
    \<and> f_le m (fold (\<lambda>t m. wait_max_of m (w t)) ts m)
    \<and> (\<forall>t\<in>set ts. w t \<noteq> NaN \<longrightarrow> f_le (w t) (fold (\<lambda>t m. wait_max_of m (w t)) ts m))"
  using assms
proof (induction ts arbitrary: m)
  case (Cons t ts)
  note b = wait_max_of_bounds [OF Cons.prems, of "w t"]
  let ?m = "wait_max_of m (w t)"
  let ?r = "fold (\<lambda>t m. wait_max_of m (w t)) ts ?m"
  have IH: "?r \<noteq> NaN" "f_le ?m ?r" "\<forall>t\<in>set ts. w t \<noteq> NaN \<longrightarrow> f_le (w t) ?r"
    using Cons.IH [OF b(1)] by simp_all
  have "f_le m ?r" using b(2) IH(2) by (rule f_le_trans)
  moreover have "f_le (w t) ?r" if "w t \<noteq> NaN" using b(3) [OF that] IH(2) by (rule f_le_trans)
  ultimately show ?case using IH by simp
qed (simp add: f_le_refl)

section \<open>Properties\<close>



text \<open>
  The statistics of a process add up those of its threads: when every entry of the task
  directory is read and no sum overflows, each of the 14 counters and of the three times is
  the sum over the threads, names that are not numbers are skipped, and the maximal wait is
  at least that of every thread. The overflow-checks flag makes no difference.
\<close>

theorem process_stats_add_up:
  assumes "\<And>t. t \<in> set (task_ids names) \<Longrightarrow> get_thread_stats ticks (Some t) (procs t) = Inr (Inr (st t))"
    and "\<And>f. f \<in> set counter_fields \<Longrightarrow> (\<Sum>t\<leftarrow>task_ids names. unat (f (st t))) < 2 ^ 64"
    and "\<And>f. f \<in> set time_fields \<Longrightarrow> (\<Sum>t\<leftarrow>task_ids names. f (st t)) < duration_max"
  shows "\<exists>r. get_process_thread_stats oc ticks procs pid (Some (map Inr names)) = Inr (Inr r)
    \<and> (\<forall>f\<in>set counter_fields. unat (f r) = (\<Sum>t\<leftarrow>task_ids names. unat (f (st t))))
    \<and> (\<forall>f\<in>set time_fields. f r = (\<Sum>t\<leftarrow>task_ids names. f (st t)))
    \<and> (\<forall>t\<in>set (task_ids names). wait_max (st t) \<noteq> NaN \<longrightarrow> f_le (wait_max (st t)) (wait_max r))"
proof -
  have zero: "unat (f stats_default) = 0" if "f \<in> set counter_fields" for f
    using that by (auto simp: counter_fields_def stats_default_def)
  have zero_time: "f stats_default = 0" if "f \<in> set time_fields" for f
    using that by (auto simp: time_fields_def stats_default_def)
  let ?of = "\<lambda>t. get_thread_stats ticks (Some t) (procs t)"
  have "\<exists>r. aggregate_tasks oc ?of (map Inr names) stats_default = Inr (Inr r)
    \<and> (\<forall>f\<in>set counter_fields. unat (f r) = unat (f stats_default) + (\<Sum>t\<leftarrow>task_ids names. unat (f (st t))))
    \<and> (\<forall>f\<in>set time_fields. f r = f stats_default + (\<Sum>t\<leftarrow>task_ids names. f (st t)))
    \<and> wait_max r = fold (\<lambda>t m. wait_max_of m (wait_max (st t))) (task_ids names) (wait_max stats_default)"
    using assms by (intro aggregate_tasks_ok) (simp_all add: zero zero_time)
  moreover have "wait_max stats_default \<noteq> NaN" by (simp add: stats_default_def)
  ultimately show ?thesis
    using fold_wait_max [of "wait_max stats_default" "\<lambda>t. wait_max (st t)" "task_ids names"]
    by (auto simp: get_process_thread_stats_def zero zero_time)
qed

text \<open>
  A custom scheduler is reported exactly when the framework's directory exists, its state
  reads as enabled, and the ops file has a name; the answer is that name, trimmed. Any state
  but enabled, enabling and disabled is an error, as is a file that exists and cannot be read.
  \<open>set_scheduler\<close> sets the policy in the first case only; in every other, errors included, it
  falls back to setting the priority alone.
\<close>

theorem sched_ext_decides:
  "(SchedExt_installed fs = Inr (Some name) \<longleftrightarrow>
      ext_dir fs \<and> (\<exists>s. ext_state fs = Contents s \<and> trim s = ''enabled'')
      \<and> (\<exists>q. ext_ops fs = Contents q \<and> trim q = name))
   \<and> (isl (SchedExt_installed fs) \<longleftrightarrow> ext_dir fs
      \<and> (ext_state fs \<in> {OpenFails, ReadFails}
         \<or> (\<exists>s. ext_state fs = Contents s \<and> trim s \<notin> {''disabled'', ''enabling'', ''enabled''})
         \<or> (\<exists>s. ext_state fs = Contents s \<and> trim s = ''enabled'' \<and> ext_ops fs \<in> {OpenFails, ReadFails})))
   \<and> snd (set_scheduler fs answer policy priority)
      = (if \<exists>n. SchedExt_installed fs = Inr (Some n) then SetScheduler policy priority else SetParam priority)
   \<and> (fst (set_scheduler fs answer policy priority) = Inr () \<longleftrightarrow>
      answer (snd (set_scheduler fs answer policy priority)) = None)"
proof (intro conjI)
  show "SchedExt_installed fs = Inr (Some name) \<longleftrightarrow>
      ext_dir fs \<and> (\<exists>s. ext_state fs = Contents s \<and> trim s = ''enabled'')
      \<and> (\<exists>q. ext_ops fs = Contents q \<and> trim q = name)"
    by (cases "ext_state fs"; cases "ext_ops fs")
      (auto simp: SchedExt_installed_def SchedExt_available_def read_ext_def)
  show "isl (SchedExt_installed fs) \<longleftrightarrow> ext_dir fs
      \<and> (ext_state fs \<in> {OpenFails, ReadFails}
         \<or> (\<exists>s. ext_state fs = Contents s \<and> trim s \<notin> {''disabled'', ''enabling'', ''enabled''})
         \<or> (\<exists>s. ext_state fs = Contents s \<and> trim s = ''enabled'' \<and> ext_ops fs \<in> {OpenFails, ReadFails}))"
    by (cases "ext_state fs"; cases "ext_ops fs")
      (auto simp: SchedExt_installed_def SchedExt_available_def read_ext_def)
qed (auto simp: set_scheduler_def Let_def split: sum.splits option.splits)

theorem sched_ext_decides_witness:
  "SchedExt_installed \<lparr>ext_dir = True, ext_state = Contents ''enabled'', ext_ops = Contents ''lavd''\<rparr>
     = Inr (Some ''lavd'')
   \<and> isl (SchedExt_installed \<lparr>ext_dir = True, ext_state = Contents ''disabling'', ext_ops = Absent\<rparr>)"
  using sched_ext_decides [of "\<lparr>ext_dir = True, ext_state = Contents ''enabled'', ext_ops = Contents ''lavd''\<rparr>" "''lavd''"]
    sched_ext_decides [of "\<lparr>ext_dir = True, ext_state = Contents ''disabling'', ext_ops = Absent\<rparr>"]
  by (simp add: trim_def trim_start_def is_space_def)

theorem process_stats_add_up_witness:
  "\<exists>r. get_process_thread_stats True 100
      (\<lambda>t. \<lparr>sched_opens = True, sched_text = Some [], proc_found = True, stat_ticks = Some (0, 0)\<rparr>)
      None (Some [Inr ''7'', Inr ''x'']) = Inr (Inr r) \<and> nr_switches r = 0"
proof -
  let ?p = "\<lambda>t. \<lparr>sched_opens = True, sched_text = Some [], proc_found = True, stat_ticks = Some (0, 0)\<rparr>"
  have ids: "task_ids [''7'', ''x''] = [7]"
    by (simp add: parse_i32_def parse_unsigned_def parse_digits_def digit_of_def)
  have hundred: "f_of_nat 100 = Fin 100" "f_of_nat 0 = Fin 0" by (simp_all add: rnd_nat)
  have st: "get_thread_stats 100 (Some t) (?p t) = Inr (Inr stats_default)" for t
    by (simp add: get_thread_stats_def add_times_def hundred from_secs_f64_def
        duration_max_def duration_add_def parse_sched_def lines_def round_even_def stats_default_def)
  have "\<exists>r. get_process_thread_stats True 100 ?p None (Some (map Inr [''7'', ''x''])) = Inr (Inr r)
    \<and> (\<forall>f\<in>set counter_fields. unat (f r) = (\<Sum>t\<leftarrow>task_ids [''7'', ''x'']. unat (f stats_default)))
    \<and> (\<forall>f\<in>set time_fields. f r = (\<Sum>t\<leftarrow>task_ids [''7'', ''x'']. f stats_default))
    \<and> (\<forall>t\<in>set (task_ids [''7'', ''x'']). wait_max stats_default \<noteq> NaN \<longrightarrow>
        f_le (wait_max stats_default) (wait_max r))"
    by (rule process_stats_add_up)
      (auto simp: st ids counter_fields_def time_fields_def stats_default_def duration_max_def)
  then show ?thesis by (auto simp: ids counter_fields_def stats_default_def unsigned_eq_0_iff
      simp del: task_ids.simps)
qed

end
