(* ===== verification/Process.thy ===== *)
theory Process
  imports Containers Semaphore Child Cgroups Sched
begin

text \<open>
  \<open>workloads/process.rs\<close>: a workload process, its creation, and the handshake by which the parent
  hands out iteration counts. The handshake uses two semaphores of maximum one and a shared
  cell; each operation on a semaphore is one step of the abstract counter that
  \<open>SemaphoreProps\<close> shows the semaphore to be.
\<close>

section \<open>The spec of a process\<close>

record spec =
  spec_priority :: "int option"
  spec_name :: "string option"

definition Spec_default :: spec where
  "Spec_default = \<lparr>spec_priority = None, spec_name = None\<rparr>"

definition with_priority :: "int \<Rightarrow> spec \<Rightarrow> spec" where
  "with_priority p s = s\<lparr>spec_priority := Some p\<rparr>"

definition with_name :: "string \<Rightarrow> spec \<Rightarrow> spec" where
  "with_name n s = s\<lparr>spec_name := Some n\<rparr>"

section \<open>Inside the child\<close>

text \<open>
  What the child does before the workload: the name, then the scheduler with policy 7, then
  the cgroup; the first failure is the child's result. \<open>prctl\<close> gives the error of the naming
  call, \<open>sched\<close> the result of \<open>set_scheduler\<close> and \<open>enter\<close> that of entering the cgroup.
\<close>

definition child_priority :: "spec option \<Rightarrow> int" where
  "child_priority spec =
     (case spec of None \<Rightarrow> 0 | Some s \<Rightarrow> (case spec_priority s of None \<Rightarrow> 0 | Some p \<Rightarrow> p))"

definition child_naming :: "(string \<Rightarrow> string option) \<Rightarrow> spec option \<Rightarrow> unit result" where
  "child_naming prctl spec =
     (case spec of
        None \<Rightarrow> Inr ()
      | Some s \<Rightarrow>
          (case spec_name s of
             None \<Rightarrow> Inr ()
           | Some n \<Rightarrow>
               (case prctl n of
                  None \<Rightarrow> Inr ()
                | Some e \<Rightarrow> Inl (Anyhow (''failed to set process name: '' @ e)))))"

definition child_setup ::
    "(string \<Rightarrow> string option) \<Rightarrow> (int \<Rightarrow> int \<Rightarrow> unit result) \<Rightarrow> unit result \<Rightarrow> spec option
     \<Rightarrow> unit result" where
  "child_setup prctl sched enter spec =
     bind_sum (child_naming prctl spec) (\<lambda>_.
     bind_sum (sched 7 (child_priority spec)) (\<lambda>_. enter))"

section \<open>The parent's side\<close>

datatype shared_value = SemV sem | ItersV u32 | FlagV bool

record process =
  pcgroup :: string
  pchild :: child
  pstart :: usize
  pready :: usize
  piters :: usize

text \<open>
  The loop of \<open>wait\<close>: each round tries the ready semaphore for a second and then asks
  whether the child is alive. \<open>None\<close> when the rounds are used up.
\<close>

fun Process_wait :: "(bool \<times> bool) list \<Rightarrow> unit result option" where
  "Process_wait [] = None"
| "Process_wait ((got, alive) # rest) =
     (if got then Some (Inr ())
      else if \<not> alive then Some (Inl (Anyhow ''Process exited unexpectedly''))
      else Process_wait rest)"

text \<open>
  Creation: the cgroup, the three shared objects, the child, and a wait until it is ready.
  \<open>m\<close> is what \<open>Semaphore::new(1)\<close> gives. The first failure is the result; what was allocated
  stays allocated.
\<close>

definition Process_create ::
    "bool \<Rightarrow> string result \<Rightarrow> layout \<Rightarrow> layout \<Rightarrow> sem \<Rightarrow> string + child \<Rightarrow> unit result
     \<Rightarrow> bump \<times> shared_value heap \<Rightarrow> (process result \<times> bump \<times> shared_value heap) outcome" where
  "Process_create oc cgroup sem_layout u32_layout m run ready st =
     (case cgroup of
        Inl e \<Rightarrow> Inr (Inl e, st)
      | Inr path \<Rightarrow>
          bind_sum (SharedBox_new oc sem_layout (SemV m) st) (\<lambda>(r1, st1).
          case r1 of Inl e \<Rightarrow> Inr (Inl e, st1) | Inr start \<Rightarrow>
          bind_sum (SharedBox_new oc sem_layout (SemV m) st1) (\<lambda>(r2, st2).
          case r2 of Inl e \<Rightarrow> Inr (Inl e, st2) | Inr rdy \<Rightarrow>
          bind_sum (SharedBox_new oc u32_layout (ItersV 0) st2) (\<lambda>(r3, st3).
          case r3 of Inl e \<Rightarrow> Inr (Inl e, st3) | Inr iters \<Rightarrow>
          (case run of
             Inl e \<Rightarrow> Inr (Inl (Anyhow e), st3)
           | Inr c \<Rightarrow>
               (case ready of
                  Inl e \<Rightarrow> Inr (Inl e, st3)
                | Inr _ \<Rightarrow>
                    Inr (Inr \<lparr>pcgroup = path, pchild = c, pstart = start, pready = rdy,
                              piters = iters\<rparr>, st3)))))))"

definition Process_handle :: "process \<Rightarrow> int" where
  "Process_handle p = cpid (pchild p)"

text \<open>
  \<open>start\<close> on the store, when the start semaphore lets the one token through at once; \<open>None\<close>
  when the call would block.
\<close>

definition one_call :: "sem_op \<Rightarrow> call" where
  "one_call k = \<lparr>op = k, amt = 1, wake_n = 1, timed = False\<rparr>"

definition Process_start ::
    "bool \<Rightarrow> u32 \<Rightarrow> process \<Rightarrow> shared_value heap \<Rightarrow> shared_value heap option" where
  "Process_start oc iters p h =
     (let h1 = h(piters p \<mapsto> ItersV iters) in
      case h1 (pstart p) of
        Some (SemV s) \<Rightarrow>
          (case decide oc (smax s) (one_call Produce) (count s) of
             Exchange new _ \<Rightarrow> Some (h1(pstart p \<mapsto> SemV (s\<lparr>count := new\<rparr>)))
           | _ \<Rightarrow> None)
      | _ \<Rightarrow> None)"

text \<open>
  \<open>join\<close> kills the child and waits for it, unless the kill failed. The signals sent are
  returned too, and the answers that are left.
\<close>

definition Process_join ::
    "(string \<Rightarrow> string) \<Rightarrow> string option \<Rightarrow> child \<Rightarrow> answers
     \<Rightarrow> (text_result \<times> string list \<times> child \<times> answers) option outcome" where
  "Process_join lossy answer c w =
     bind_sum (Child_kill lossy answer ''SIGKILL'' c w) (\<lambda>r.
       case r of
         None \<Rightarrow> Inr None
       | Some (Inl e, sent, c1, w1) \<Rightarrow> Inr (Some (Inl e, sent, c1, w1))
       | Some (Inr _, sent, c1, w1) \<Rightarrow>
           bind_sum (Child_wait lossy True c1 w1) (\<lambda>r.
             Inr (case r of None \<Rightarrow> None | Some (_, c2, w2) \<Rightarrow> Some (Inr (), sent, c2, w2))))"

section \<open>The handshake\<close>

text \<open>
  Where the child is: setting up, about to give the ready token, waiting for the start token,
  about to take the count, running it, or gone. Where the parent is: between calls, having
  stored the count, waiting for readiness, or having reported the child's exit. \<open>sent\<close> and
  \<open>received\<close> are ghosts: the counts the parent stored and the child took, in order.
\<close>

datatype cpc = CSetup | CReady | CStart | CSwap | CRun u32 | CGone

datatype ppc = PIdle | PStored | PWaiting | PFailed

record psys =
  start_tokens :: nat
  ready_tokens :: nat
  iters_cell :: u32
  child_pc :: cpc
  parent_pc :: ppc
  sent :: "u32 list"
  received :: "u32 list"

text \<open>Whether a call of one token goes through on a semaphore of maximum one.\<close>

definition passes :: "sem_op \<Rightarrow> nat \<Rightarrow> bool" where
  "passes k n = enabled 1 (one_call k) (word_of_nat n)"

inductive pstep :: "psys \<Rightarrow> psys \<Rightarrow> bool" where
  set_up: "child_pc s = CSetup \<Longrightarrow> pstep s (s\<lparr>child_pc := CReady\<rparr>)"
| ready: "child_pc s = CReady \<Longrightarrow> passes Produce (ready_tokens s) \<Longrightarrow>
    pstep s (s\<lparr>child_pc := CStart, ready_tokens := ready_tokens s + 1\<rparr>)"
| begin_round: "child_pc s = CStart \<Longrightarrow> passes Consume (start_tokens s) \<Longrightarrow>
    pstep s (s\<lparr>child_pc := CSwap, start_tokens := start_tokens s - 1\<rparr>)"
| swap: "child_pc s = CSwap \<Longrightarrow>
    pstep s (s\<lparr>child_pc := CRun (iters_cell s), iters_cell := 0, received := received s @ [iters_cell s]\<rparr>)"
| round_done: "child_pc s = CRun n \<Longrightarrow> pstep s (s\<lparr>child_pc := CReady\<rparr>)"
| exit: "child_pc s \<noteq> CGone \<Longrightarrow> pstep s (s\<lparr>child_pc := CGone\<rparr>)"
| store: "parent_pc s = PIdle \<Longrightarrow>
    pstep s (s\<lparr>parent_pc := PStored, iters_cell := n, sent := sent s @ [n]\<rparr>)"
| release: "parent_pc s = PStored \<Longrightarrow> passes Produce (start_tokens s) \<Longrightarrow>
    pstep s (s\<lparr>parent_pc := PWaiting, start_tokens := start_tokens s + 1\<rparr>)"
| wait_ok: "parent_pc s = PWaiting \<Longrightarrow> passes Consume (ready_tokens s) \<Longrightarrow>
    pstep s (s\<lparr>parent_pc := PIdle, ready_tokens := ready_tokens s - 1\<rparr>)"
| wait_failed: "parent_pc s = PWaiting \<Longrightarrow> child_pc s = CGone \<Longrightarrow> pstep s (s\<lparr>parent_pc := PFailed\<rparr>)"

text \<open>The state after the child was made: the parent waits inside \<open>create\<close>.\<close>

definition psys_init :: psys where
  "psys_init = \<lparr>start_tokens = 0, ready_tokens = 0, iters_cell = 0, child_pc = CSetup,
     parent_pc = PWaiting, sent = [], received = []\<rparr>"

inductive preachable :: "psys \<Rightarrow> bool" where
  init: "preachable psys_init"
| step: "preachable s \<Longrightarrow> pstep s s' \<Longrightarrow> preachable s'"

lemma passes_produce: "n \<le> 1 \<Longrightarrow> passes Produce n \<longleftrightarrow> n = 0"
  by (cases n) (auto simp: passes_def enabled_def one_call_def)

lemma passes_consume: "n \<le> 1 \<Longrightarrow> passes Consume n \<longleftrightarrow> n = 1"
  by (cases n) (auto simp: passes_def enabled_def one_call_def)

lemma enabled_one [simp]: "enabled 1 (one_call Produce) 0" "enabled 1 (one_call Consume) 1"
  by (simp_all add: enabled_def one_call_def)

text \<open>
  A step of the handshake is one iteration of the semaphore's loop: the call passes exactly when
  the loop would exchange the word it loaded, and the count changes as the step says.
\<close>

lemma passes_decide:
  "passes k (unat (amount_of w)) \<longleftrightarrow>
    (\<exists>new. decide oc 1 (one_call k) w = Exchange new (has_waiter w)
      \<and> unat new = apply_call (one_call k) (unat (amount_of w)))"
proof -
  have small: "unat (amt (one_call k)) < 2 ^ 31" by (simp add: one_call_def)
  have "enabled 1 (one_call k) (amount_of w) \<longleftrightarrow> passes k (unat (amount_of w))"
    by (simp add: passes_def)
  then show ?thesis
    using decide_enabled [OF small, of 1 w oc] decide_blocked [OF small, of 1 w oc]
    by (cases "passes k (unat (amount_of w))") (metis, auto simp: block_decision_def)
qed

text \<open>
  The invariant, by where the parent is. Between calls the child has taken every count and
  waits for the next; after the store one count is still in the cell; while the parent waits,
  the token is with start, with the child, or with ready.
\<close>

definition taken :: "psys \<Rightarrow> bool" where
  "taken s \<longleftrightarrow> received s = sent s \<and> start_tokens s = 0"

definition pending :: "psys \<Rightarrow> bool" where
  "pending s \<longleftrightarrow> sent s = received s @ [iters_cell s] \<and> ready_tokens s = 0"

definition handshake_inv :: "psys \<Rightarrow> bool" where
  "handshake_inv s \<longleftrightarrow> (case parent_pc s of
     PIdle \<Rightarrow> taken s \<and> ready_tokens s = 0 \<and> child_pc s \<in> {CStart, CGone}
   | PStored \<Rightarrow> pending s \<and> start_tokens s = 0 \<and> child_pc s \<in> {CStart, CGone}
   | PWaiting \<Rightarrow>
       pending s \<and> start_tokens s = 1 \<and> child_pc s \<in> {CStart, CGone}
       \<or> pending s \<and> start_tokens s = 0 \<and> child_pc s \<in> {CSwap, CGone}
       \<or> taken s \<and> ready_tokens s = 0 \<and> child_pc s \<notin> {CStart, CSwap}
       \<or> taken s \<and> ready_tokens s = 1 \<and> child_pc s \<in> {CStart, CGone}
   | PFailed \<Rightarrow> child_pc s = CGone \<and> (taken s \<or> pending s))"

lemma handshake_step: "pstep s s' \<Longrightarrow> handshake_inv s \<Longrightarrow> handshake_inv s'"
  by (induction rule: pstep.induct) (auto simp: handshake_inv_def taken_def pending_def passes_produce passes_consume split: ppc.splits)

lemma handshake_reachable: "preachable s \<Longrightarrow> handshake_inv s"
  by (induction rule: preachable.induct)
    (simp_all add: handshake_step, simp add: handshake_inv_def psys_init_def taken_def)

section \<open>Properties\<close>

text \<open>
  C6. The child runs exactly the counts the parent hands out, in order, each once: in every
  reachable state what it has taken is a prefix of what was sent and at most one count
  behind, and when the parent is back from \<open>wait\<close> with success it has taken all of them, the
  last one is finished and it waits for the next, or it has exited since.
\<close>

theorem handshake_delivers:
  assumes "preachable s"
  shows "prefix (received s) (sent s) \<and> length (sent s) \<le> length (received s) + 1
    \<and> (parent_pc s = PIdle \<longrightarrow> received s = sent s \<and> child_pc s \<in> {CStart, CGone})
    \<and> (parent_pc s = PFailed \<longrightarrow> child_pc s = CGone)"
  using handshake_reachable [OF assms]
  by (auto simp: handshake_inv_def taken_def pending_def split: ppc.splits)

lemma pstep_to: "preachable s \<Longrightarrow> pstep s s' \<Longrightarrow> s' = t \<Longrightarrow> preachable t"
  by (auto intro: preachable.step)

definition round_state :: "cpc \<Rightarrow> ppc \<Rightarrow> nat \<Rightarrow> nat \<Rightarrow> u32 \<Rightarrow> u32 list \<Rightarrow> u32 list \<Rightarrow> psys" where
  "round_state c p st rd cell xs ys =
     \<lparr>start_tokens = st, ready_tokens = rd, iters_cell = cell, child_pc = c, parent_pc = p,
      sent = xs, received = ys\<rparr>"

lemma round_reachable: "preachable (round_state CStart PIdle 0 0 0 [5] [5])"
proof -
  note simps = round_state_def passes_produce passes_consume
  have "preachable (round_state CSetup PWaiting 0 0 0 [] [])"
    using preachable.init by (simp add: psys_init_def round_state_def)
  then have "preachable (round_state CReady PWaiting 0 0 0 [] [])"
    by (rule pstep_to [OF _ pstep.set_up]) (simp_all add: simps)
  then have "preachable (round_state CStart PWaiting 0 1 0 [] [])"
    by (rule pstep_to [OF _ pstep.ready]) (simp_all add: simps)
  then have "preachable (round_state CStart PIdle 0 0 0 [] [])"
    by (rule pstep_to [OF _ pstep.wait_ok]) (simp_all add: simps)
  then have "preachable (round_state CStart PStored 0 0 5 [5] [])"
    by (rule pstep_to [OF _ pstep.store [where n = 5]]) (simp_all add: simps)
  then have "preachable (round_state CStart PWaiting 1 0 5 [5] [])"
    by (rule pstep_to [OF _ pstep.release]) (simp_all add: simps)
  then have "preachable (round_state CSwap PWaiting 0 0 5 [5] [])"
    by (rule pstep_to [OF _ pstep.begin_round]) (simp_all add: simps)
  then have "preachable (round_state (CRun 5) PWaiting 0 0 0 [5] [5])"
    by (rule pstep_to [OF _ pstep.swap]) (simp_all add: simps)
  then have "preachable (round_state CReady PWaiting 0 0 0 [5] [5])"
    by (rule pstep_to [OF _ pstep.round_done [where n = 5]]) (simp_all add: simps)
  then have "preachable (round_state CStart PWaiting 0 1 0 [5] [5])"
    by (rule pstep_to [OF _ pstep.ready]) (simp_all add: simps)
  then show ?thesis
    by (rule pstep_to [OF _ pstep.wait_ok]) (simp_all add: simps)
qed

theorem handshake_delivers_witness:
  "prefix (received (round_state CStart PIdle 0 0 0 [5] [5])) (sent (round_state CStart PIdle 0 0 0 [5] [5]))
   \<and> received (round_state CStart PIdle 0 0 0 [5] [5]) = [5]"
  using handshake_delivers [OF round_reachable] by (simp add: round_state_def)

text \<open>How many steps of the child are left before the parent's wait can return.\<close>

definition to_go :: "psys \<Rightarrow> nat" where
  "to_go s = (case child_pc s of
     CStart \<Rightarrow> 4 * start_tokens s | CSwap \<Rightarrow> 3 | CRun _ \<Rightarrow> 2 | CSetup \<Rightarrow> 2 | CReady \<Rightarrow> 1 | CGone \<Rightarrow> 0)"

lemma waiting_progress:
  assumes "preachable s" and w: "parent_pc s = PWaiting"
  shows "to_go s \<le> 4 \<and>
    (passes Consume (ready_tokens s) \<or> child_pc s = CGone
     \<or> (\<exists>s'. pstep s s' \<and> parent_pc s' = PWaiting \<and> child_pc s' \<noteq> CGone \<and> to_go s' < to_go s))"
proof (cases "child_pc s")
  case CSetup
  then show ?thesis using w by (auto simp: to_go_def intro!: exI pstep.set_up)
next
  case CReady
  then have "passes Produce (ready_tokens s)" "ready_tokens s = 0" "start_tokens s = 0"
    using handshake_reachable [OF assms(1)] w by (auto simp: handshake_inv_def taken_def pending_def passes_produce)
  then show ?thesis using w CReady by (auto simp: to_go_def intro!: exI pstep.ready)
next
  case CStart
  then consider "ready_tokens s = 1" "start_tokens s = 0" | "start_tokens s = 1"
    using handshake_reachable [OF assms(1)] w by (auto simp: handshake_inv_def taken_def pending_def)
  then show ?thesis
    using w CStart by cases (auto simp: to_go_def passes_consume intro!: exI pstep.begin_round)
next
  case CSwap
  then show ?thesis using w by (auto simp: to_go_def intro!: exI pstep.swap)
next
  case (CRun n)
  then show ?thesis using w by (auto simp: to_go_def intro!: exI pstep.round_done)
next
  case CGone
  then show ?thesis by (simp add: to_go_def)
qed

text \<open>
  The handshake cannot get stuck. After the store the start token always goes through at
  once; while the parent waits, either its wait can return, or the child is gone and the
  wait reports it, or the child itself has a step that brings the return nearer: at most four
  of them are ever left.
\<close>

theorem handshake_never_stuck:
  assumes "preachable s"
  shows "(parent_pc s = PStored \<longrightarrow> passes Produce (start_tokens s))
    \<and> (parent_pc s = PWaiting \<longrightarrow> to_go s \<le> 4 \<and>
        (passes Consume (ready_tokens s) \<or> child_pc s = CGone
         \<or> (\<exists>s'. pstep s s' \<and> parent_pc s' = PWaiting \<and> child_pc s' \<noteq> CGone \<and> to_go s' < to_go s)))"
proof -
  note inv = handshake_reachable [OF assms]
  have stored: "passes Produce (start_tokens s)" if "parent_pc s = PStored"
    using inv that by (simp add: handshake_inv_def passes_produce)
  show ?thesis using stored waiting_progress [OF assms] by blast
qed

theorem handshake_never_stuck_witness: "to_go psys_init \<le> 4 \<and> parent_pc psys_init = PWaiting"
  using handshake_never_stuck [OF preachable.init] by (simp add: psys_init_def)

end
