(* ===== verification/Bench.thy ===== *)
theory Bench
  imports Prelude F64
begin

text \<open>
  The convergence loop of \<open>workloads/benchmark.rs\<close> and the macro \<open>converge!\<close> over it, and the
  spinning loop of \<open>workloads/spinner.rs\<close>. A measurement is a parameter: from the iteration
  count to the metric or an error, with the nanoseconds it took. The loop takes them from a
  list, one each round, and is \<open>None\<close> when the list is used up before it returns.
\<close>

section \<open>The next iteration count\<close>

definition u32_max :: u32 where
  "u32_max = - 1"

definition saturating_mul :: "u32 \<Rightarrow> u32 \<Rightarrow> u32" where
  "saturating_mul a b = (if unat a * unat b < 2 ^ 32 then a * b else u32_max)"

text \<open>\<open>((iters as f64) * min_time_ns / elapsed_ns).ceil() as u32\<close>\<close>

definition scaled_iters :: "u32 \<Rightarrow> nat \<Rightarrow> nat \<Rightarrow> u32" where
  "scaled_iters iters min_time elapsed =
     word_of_nat (f_to_uint 32 (f_ceil
       (f_div (f_mul (f_of_nat (unat iters)) (f_of_nat min_time)) (f_of_nat elapsed))))"

definition grow_iters :: "bool \<Rightarrow> nat \<Rightarrow> nat \<Rightarrow> u32 \<Rightarrow> u32 outcome" where
  "grow_iters oc min_time elapsed iters =
     (if elapsed = 0 then Inr (saturating_mul iters 100)
      else bind_sum (add_ck oc iters 1) (\<lambda>least.
        Inr (min (max (scaled_iters iters min_time elapsed) least) (saturating_mul iters 100))))"

definition half_max :: u32 where
  "half_max = u32_max div 2"

section \<open>The loop\<close>

type_synonym measurement = "u32 \<Rightarrow> f64 result \<times> nat"

text \<open>What a round decides: return, give up, or go on with another count.\<close>

datatype round = Return "f64 result" | GiveUp | Again u32

definition converge_round ::
    "bool \<Rightarrow> nat \<Rightarrow> nat \<Rightarrow> f64 \<Rightarrow> measurement \<Rightarrow> u32 \<Rightarrow> round outcome" where
  "converge_round oc min_time max_time threshold msr iters =
     (case msr iters of
        (Inl e, _) \<Rightarrow> Inr (Return (Inl e))
      | (Inr metric, elapsed) \<Rightarrow>
          if f_le threshold metric \<and> min_time \<le> elapsed then Inr (Return (Inr metric))
          else if max_time < elapsed then Inr GiveUp
          else if elapsed < min_time \<and> iters < half_max
          then bind_sum (grow_iters oc min_time elapsed iters) (\<lambda>n. Inr (Again n))
          else if elapsed < max_time \<and> iters < half_max then Inr (Again (saturating_mul iters 2))
          else Inr (Again iters))"

fun converge_loop ::
    "bool \<Rightarrow> nat \<Rightarrow> nat \<Rightarrow> f64 \<Rightarrow> measurement list \<Rightarrow> u32 \<Rightarrow> f64 result option outcome" where
  "converge_loop oc min_time max_time threshold [] iters = Inr None"
| "converge_loop oc min_time max_time threshold (m # ms) iters =
     bind_sum (converge_round oc min_time max_time threshold m iters) (\<lambda>r.
       case r of
         Return v \<Rightarrow> Inr (Some v)
       | GiveUp \<Rightarrow> Inr (Some (Inr (Fin 0)))
       | Again n \<Rightarrow> converge_loop oc min_time max_time threshold ms n)"

definition or_default :: "'a \<Rightarrow> 'a option \<Rightarrow> 'a" where
  "or_default d x = (case x of None \<Rightarrow> d | Some v \<Rightarrow> v)"

definition converge ::
    "bool \<Rightarrow> nat option \<Rightarrow> nat option \<Rightarrow> f64 option \<Rightarrow> measurement list \<Rightarrow> f64 result option outcome" where
  "converge oc min_time max_time threshold ms =
     converge_loop oc (or_default (10 ^ 9) min_time) (or_default (10 * 10 ^ 9) max_time)
       (or_default (rnd (95 / 100)) threshold) ms 1"

text \<open>The macro: an error or a metric below the threshold panics.\<close>

definition converge_macro ::
    "bool \<Rightarrow> nat \<Rightarrow> nat \<Rightarrow> f64 \<Rightarrow> measurement list \<Rightarrow> f64 option outcome" where
  "converge_macro oc min_time max_time threshold ms =
     bind_sum (converge oc (Some min_time) (Some max_time) (Some threshold) ms) (\<lambda>r.
       case r of
         None \<Rightarrow> Inr None
       | Some (Inl e) \<Rightarrow> Inl (PanicMsg ''converge error'')
       | Some (Inr metric) \<Rightarrow>
           if f_le threshold metric then Inr (Some metric) else Inl AssertFailed)"

text \<open>The end of a test that uses the macro: below the target is an error, otherwise success.\<close>

definition check_target :: "f64 \<Rightarrow> f64 \<Rightarrow> string \<Rightarrow> unit result" where
  "check_target final target msg = (if f_lt final target then Inl (Anyhow msg) else Inr ())"

section \<open>The spinner\<close>

text \<open>
  Each round of \<open>spin\<close> reads the clock and then the CPU; \<open>None\<close> is a negative answer of
  \<open>sched_getcpu\<close>. The loop ends at the first reading not below the duration.
\<close>

fun spin :: "nat \<Rightarrow> (nat \<times> u32 option) list \<Rightarrow> u32 \<Rightarrow> u32 option" where
  "spin duration [] cpu_id = None"
| "spin duration ((elapsed, cpu) # rest) cpu_id =
     (if \<not> elapsed < duration then Some cpu_id
      else spin duration rest (case cpu of None \<Rightarrow> cpu_id | Some c \<Rightarrow> c))"

definition get_current_cpu :: "int \<Rightarrow> u32 option" where
  "get_current_cpu cpu = (if 0 \<le> cpu then Some (word_of_int cpu) else None)"

definition last_cpu :: "u32 \<Rightarrow> u32" where
  "last_cpu cpu_id = cpu_id"

definition DEFAULT_DURATION :: nat where
  "DEFAULT_DURATION = 60 * 60 * 24 * 365 * 99 * 10 ^ 9"

section \<open>Lemmas\<close>

lemma unat_u32_max: "unat u32_max = 2 ^ 32 - 1"
  by (simp add: u32_max_def unsigned_minus_1_eq_mask mask_eq_exp_minus_1)

lemma u32_le_max [simp]: "x \<le> u32_max"
  by (simp add: u32_max_def)

lemma unat_half_max: "unat half_max = 2 ^ 31 - 1"
  by (simp add: half_max_def u32_max_def)

lemma unat_saturating_mul: "unat (saturating_mul a b) = min (unat a * unat b) (2 ^ 32 - 1)"
proof (cases "unat a * unat b < 2 ^ 32")
  case True
  then show ?thesis by (simp add: saturating_mul_def unat_word_ariths)
qed (simp add: saturating_mul_def unat_u32_max)

lemma grow_iters_bounds:
  assumes "0 < iters" and "iters < half_max"
  shows "\<exists>n. grow_iters oc min_time elapsed iters = Inr n \<and> iters < n
    \<and> unat n \<le> min (100 * unat iters) (2 ^ 32 - 1)"
proof -
  have i: "0 < unat iters" "unat iters < 2 ^ 31 - 1"
    using assms by (simp_all add: word_less_nat_alt unat_half_max unat_gt_0)
  then have small: "unat iters + unat (1 :: u32) < 2 ^ LENGTH(32)" by simp
  have one: "unat (iters + 1) = unat iters + 1" using unat_add_no_overflow [OF small] by simp
  have sat: "unat (saturating_mul iters 100) = min (100 * unat iters) (2 ^ 32 - 1)"
    by (simp add: unat_saturating_mul mult.commute)
  have lt: "iters < saturating_mul iters 100" using i by (simp add: word_less_nat_alt sat)
  have lt1: "iters < iters + 1" by (simp add: word_less_nat_alt one)
  show ?thesis
  proof (cases "elapsed = 0")
    case True
    then show ?thesis using lt sat by (simp add: grow_iters_def)
  next
    case False
    let ?n = "min (max (scaled_iters iters min_time elapsed) (iters + 1)) (saturating_mul iters 100)"
    have "grow_iters oc min_time elapsed iters = Inr ?n"
      using False by (simp add: grow_iters_def add_ck_ok [OF small])
    moreover have "iters < ?n" using lt lt1 by (simp add: less_max_iff_disj)
    moreover have "?n \<le> saturating_mul iters 100" by simp
    then have "unat ?n \<le> min (100 * unat iters) (2 ^ 32 - 1)"
      unfolding word_le_nat_alt sat .
    ultimately show ?thesis by blast
  qed
qed

text \<open>The counts a run of the loop passes to its measurements.\<close>

fun counts :: "bool \<Rightarrow> nat \<Rightarrow> nat \<Rightarrow> f64 \<Rightarrow> measurement list \<Rightarrow> u32 \<Rightarrow> u32 list" where
  "counts oc min_time max_time threshold [] iters = []"
| "counts oc min_time max_time threshold (m # ms) iters =
     iters # (case converge_round oc min_time max_time threshold m iters of
        Inr (Again n) \<Rightarrow> counts oc min_time max_time threshold ms n
      | _ \<Rightarrow> [])"

lemma converge_round_again:
  assumes "0 < iters"
  shows "\<exists>r. converge_round oc min_time max_time threshold m iters = Inr r
    \<and> (\<forall>n. r = Again n \<longrightarrow> iters \<le> n \<and> unat n \<le> 100 * unat iters)"
proof -
  have i: "0 < unat iters" using assms by (simp add: unat_gt_0)
  have twice: "iters \<le> saturating_mul iters 2 \<and> unat (saturating_mul iters 2) \<le> 100 * unat iters"
    using i unsigned_less [of iters, where 'a = nat]
    by (simp add: word_le_nat_alt unat_saturating_mul)
  show ?thesis
  proof (cases "fst (m iters)")
    case (Inl e)
    then show ?thesis by (cases "m iters") (simp add: converge_round_def)
  next
    case (Inr metric)
    obtain el where m: "m iters = (Inr metric, el)" using Inr by (cases "m iters") simp
    show ?thesis
    proof (cases "el < min_time \<and> iters < half_max")
      case True
      obtain n where "grow_iters oc min_time el iters = Inr n" "iters < n"
        "unat n \<le> min (100 * unat iters) (2 ^ 32 - 1)"
        using grow_iters_bounds [of iters oc min_time el] assms True by blast
      then show ?thesis using True by (auto simp: converge_round_def m)
    next
      case False
      then show ?thesis using twice by (auto simp: converge_round_def m)
    qed
  qed
qed

text \<open>What the last measurement must have been for the loop to return \<open>v\<close>.\<close>

definition decided_by ::
    "nat \<Rightarrow> nat \<Rightarrow> f64 \<Rightarrow> f64 result \<Rightarrow> measurement \<Rightarrow> u32 \<Rightarrow> bool" where
  "decided_by min_time max_time threshold v m iters =
     (case m iters of
        (Inl e, _) \<Rightarrow> v = Inl e
      | (Inr metric, elapsed) \<Rightarrow>
          v = Inr metric \<and> f_le threshold metric \<and> min_time \<le> elapsed
          \<or> v = Inr (Fin 0) \<and> max_time < elapsed \<and> \<not> (f_le threshold metric \<and> min_time \<le> elapsed))"

lemma converge_loop_decided:
  assumes "0 < iters"
  shows "\<exists>r. converge_loop oc min_time max_time threshold ms iters = Inr r
    \<and> (\<forall>v. r = Some v \<longrightarrow>
        (let cs = counts oc min_time max_time threshold ms iters in
         cs \<noteq> [] \<and> length cs \<le> length ms
         \<and> decided_by min_time max_time threshold v (ms ! (length cs - 1)) (last cs)))"
  using assms
proof (induction ms arbitrary: iters)
  case (Cons m ms)
  obtain d where d: "converge_round oc min_time max_time threshold m iters = Inr d"
    "\<And>n. d = Again n \<Longrightarrow> iters \<le> n" using converge_round_again [OF Cons.prems] by blast
  show ?case
  proof (cases d)
    case (Again n)
    then have "0 < n" using d(2) Cons.prems by (simp add: order_less_le_trans)
    from Cons.IH [OF this] d(1) Again show ?thesis
      by (auto simp: Let_def nth_Cons')
  next
    case (Return v)
    then show ?thesis using d(1)
      by (auto simp: decided_by_def converge_round_def bind_sum_Inr_iff split: prod.splits sum.splits if_splits)
  next
    case GiveUp
    then show ?thesis using d(1)
      by (auto simp: decided_by_def converge_round_def bind_sum_Inr_iff split: prod.splits sum.splits if_splits)
  qed
qed simp

lemma counts_head: "counts oc mn mx th ms iters \<noteq> [] \<Longrightarrow> hd (counts oc mn mx th ms iters) = iters"
  by (cases ms) auto

lemma converge_round_grows:
  assumes "converge_round oc mn mx th m iters = Inr (Again n)" and "0 < iters"
    and "snd (m iters) < mn" and "iters < half_max"
  shows "iters < n"
  using assms grow_iters_bounds [OF assms(2,4), of oc mn "snd (m iters)"]
  by (auto simp: converge_round_def bind_sum_Inr_iff split: prod.splits sum.splits if_splits)

lemma counts_step:
  assumes "0 < iters" and "Suc k < length (counts oc mn mx th ms iters)"
  defines "cs \<equiv> counts oc mn mx th ms iters"
  shows "cs ! k \<le> cs ! Suc k \<and> unat (cs ! Suc k) \<le> 100 * unat (cs ! k)
    \<and> (snd ((ms ! k) (cs ! k)) < mn \<and> cs ! k < half_max \<longrightarrow> cs ! k < cs ! Suc k)"
  using assms(1,2) unfolding cs_def
proof (induction ms arbitrary: iters k)
  case (Cons m ms)
  obtain n where n: "converge_round oc mn mx th m iters = Inr (Again n)"
    and cs: "counts oc mn mx th (m # ms) iters = iters # counts oc mn mx th ms n"
    and ne: "k < length (counts oc mn mx th ms n)"
    using Cons.prems(2) by (auto split: sum.splits round.splits)
  have step: "iters \<le> n" "unat n \<le> 100 * unat iters"
    using converge_round_again [OF Cons.prems(1), of oc mn mx th m] n by auto
  have pos: "0 < n" using step(1) Cons.prems(1) by (rule order_less_le_trans [rotated])
  show ?case
  proof (cases k)
    case 0
    then have "counts oc mn mx th ms n ! 0 = n"
      using counts_head [of oc mn mx th ms n] ne by (simp add: hd_conv_nth)
    then show ?thesis using step converge_round_grows [OF n Cons.prems(1)] 0 by (simp only: cs) simp
  next
    case (Suc j)
    then show ?thesis using Cons.IH [OF pos, of j] ne by (simp only: cs) simp
  qed
qed simp

lemma converge_loop_goes_on:
  assumes "\<not> f_le th metric" and "elapsed \<le> mx" and "0 < iters"
  shows "converge_loop oc mn mx th (replicate k (\<lambda>_. (Inr metric, elapsed))) iters = Inr None"
  using assms(3)
proof (induction k arbitrary: iters)
  case (Suc k)
  let ?m = "\<lambda>_. (Inr metric, elapsed)"
  obtain d where d: "converge_round oc mn mx th ?m iters = Inr d" "\<And>n. d = Again n \<Longrightarrow> iters \<le> n"
    using converge_round_again [OF Suc.prems, of oc mn mx th ?m] by blast
  have "\<exists>n. d = Again n"
    using d(1) assms(1,2) by (auto simp: converge_round_def bind_sum_Inr_iff split: if_splits)
  then obtain n where n: "d = Again n" by blast
  then have "0 < n" using d(2) Suc.prems by (auto intro: order_less_le_trans)
  then show ?case using Suc.IH d(1) n by simp
qed simp

text \<open>A round that goes on within the time limits asks for strictly more.\<close>

lemma converge_round_more:
  assumes "converge_round oc mn mx th m iters = Inr (Again n)" and "0 < iters"
    and "snd (m iters) \<noteq> mx" and "iters < half_max \<or> mx < snd (m iters)"
  shows "iters < n \<and> snd (m iters) \<le> mx"
proof -
  obtain metric elapsed where m: "m iters = (Inr metric, elapsed)"
    using assms(1) by (cases "m iters") (auto simp: converge_round_def split: sum.splits)
  have le: "elapsed \<le> mx" and half: "iters < half_max"
    using assms(1,4) by (auto simp: converge_round_def m split: if_splits)
  have "iters < n"
  proof (cases "elapsed < mn")
    case True
    then show ?thesis using converge_round_grows [OF assms(1,2)] half by (simp add: m)
  next
    case False
    then have n: "n = saturating_mul iters 2"
      using assms(1,3) le half by (auto simp: converge_round_def m split: if_splits)
    have "unat iters < 2 ^ 31 - 1" using half by (simp add: word_less_nat_alt unat_half_max)
    then show ?thesis using assms(2) by (simp add: n word_less_nat_alt unat_saturating_mul)
  qed
  then show ?thesis using le by (simp add: m)
qed

text \<open>When time follows the count, going on means a larger count, within what the maximum allows.\<close>

lemma again_grows:
  assumes "0 < c" and "mx < c * (2 ^ 31 - 1)"
    and "converge_round oc mn mx th m iters = Inr (Again n)" and "0 < iters"
    and "c * unat iters \<le> snd (m iters)" and "snd (m iters) \<noteq> mx"
  shows "0 < n \<and> unat iters < unat n \<and> unat iters \<le> mx div c"
proof -
  have "iters < half_max \<or> mx < snd (m iters)"
  proof (rule disjCI)
    assume "\<not> mx < snd (m iters)"
    then have "c * unat iters < c * (2 ^ 31 - 1)" using assms(2,5) by linarith
    then show "iters < half_max" by (simp add: word_less_nat_alt unat_half_max)
  qed
  with converge_round_more [OF assms(3,4,6)] have more: "iters < n" "snd (m iters) \<le> mx" by auto
  have "unat iters \<le> mx div c"
    using assms(1,5) more(2) by (simp add: less_eq_div_iff_mult_less_eq mult.commute)
  moreover have "0 < n" using more(1) by (metis word_coorder.not_eq_extremum not_less_zero word_not_simps(1))
  ultimately show ?thesis using more(1) by (simp add: word_less_nat_alt)
qed

lemma converge_loop_ends:
  assumes "0 < c" and "mx < c * (2 ^ 31 - 1)"
    and "\<forall>m\<in>set ms. \<forall>i. c * unat i \<le> snd (m i) \<and> snd (m i) \<noteq> mx"
    and "0 < iters" and "mx div c + 1 - unat iters < length ms"
  shows "\<exists>v. converge_loop oc mn mx th ms iters = Inr (Some v)"
  using assms(3-5)
proof (induction ms arbitrary: iters)
  case (Cons m ms)
  obtain d where d: "converge_round oc mn mx th m iters = Inr d"
    using converge_round_again [OF Cons.prems(2)] by blast
  show ?case
  proof (cases d)
    case (Again n)
    have el: "c * unat iters \<le> snd (m iters)" "snd (m iters) \<noteq> mx" using Cons.prems(1) by auto
    note more = again_grows [OF assms(1,2) d [unfolded Again] Cons.prems(2) el]
    then have "mx div c + 1 - unat n < length ms" using Cons.prems(3) by auto
    then show ?thesis using Cons.IH [of n] Cons.prems(1) d Again more by simp
  qed (simp_all add: d)
qed simp

section \<open>Cases that run the loop\<close>

text \<open>
  The contract of a test case that hands its metric to \<open>converge\<close> and judges the value that
  comes back: what the last measurement must have been for the case to pass.
\<close>

locale converging_case =
  fixes test :: "bool \<Rightarrow> measurement list \<Rightarrow> unit result option outcome"
    and mn :: nat and mx :: nat and th :: f64 and verdict :: "f64 \<Rightarrow> unit result"
  assumes test_eq: "test oc ms =
    bind_sum (converge oc (Some mn) (Some mx) (Some th) ms) (\<lambda>r.
      Inr (map_option (\<lambda>v. bind_sum v verdict) r))"
begin

lemma no_panic: "\<exists>r. test oc ms = Inr r"
  using converge_loop_decided [of 1 oc mn mx th ms]
  by (auto simp: test_eq converge_def or_default_def)

lemma pass_cases:
  assumes "test oc ms = Inr (Some (Inr ()))"
  defines "cs \<equiv> counts oc mn mx th ms 1"
  defines "m \<equiv> (ms ! (length cs - 1)) (last cs)"
  shows "cs \<noteq> [] \<and> length cs \<le> length ms \<and> (\<exists>metric. fst m = Inr metric
    \<and> (f_le th metric \<and> mn \<le> snd m \<and> verdict metric = Inr ()
       \<or> \<not> (f_le th metric \<and> mn \<le> snd m) \<and> mx < snd m \<and> verdict (Fin 0) = Inr ()))"
proof -
  obtain v where v: "converge_loop oc mn mx th ms 1 = Inr (Some (Inr v))" "verdict v = Inr ()"
    using assms(1) by (auto simp: test_eq converge_def or_default_def bind_sum_Inr_iff)
  then have "cs \<noteq> [] \<and> length cs \<le> length ms
      \<and> decided_by mn mx th (Inr v) (ms ! (length cs - 1)) (last cs)"
    using converge_loop_decided [of 1 oc mn mx th ms] by (auto simp: cs_def Let_def)
  then show ?thesis using v(2)
    by (auto simp: decided_by_def m_def split: prod.split_asm sum.split_asm)
qed

end

section \<open>Properties\<close>



text \<open>
  The iteration counts of a run start at one, never shrink, and grow at most a hundredfold
  from one measurement to the next; while a measurement is too short and the count is below half
  of the \<open>u32\<close> range, it grows strictly, whatever the floating-point estimate was.
\<close>

theorem converge_counts_grow:
  assumes "cs = counts oc mn mx th ms 1" and "Suc k < length cs"
  shows "hd cs = 1 \<and> cs ! k \<le> cs ! Suc k \<and> unat (cs ! Suc k) \<le> 100 * unat (cs ! k)
    \<and> (snd ((ms ! k) (cs ! k)) < mn \<and> cs ! k < half_max \<longrightarrow> cs ! k < cs ! Suc k)"
proof -
  have "cs \<noteq> []" using assms(2) by auto
  then have "hd cs = 1" using counts_head unfolding assms(1) by blast
  moreover have "Suc k < length (counts oc mn mx th ms 1)" using assms(2) unfolding assms(1) .
  from counts_step [OF _ this] have "cs ! k \<le> cs ! Suc k \<and> unat (cs ! Suc k) \<le> 100 * unat (cs ! k)
    \<and> (snd ((ms ! k) (cs ! k)) < mn \<and> cs ! k < half_max \<longrightarrow> cs ! k < cs ! Suc k)"
    unfolding assms(1) by simp
  ultimately show ?thesis by simp
qed

theorem converge_counts_grow_witness:
  "counts True 5 10 (Fin 1) [\<lambda>_. (Inr (Fin 0), 0), \<lambda>_. (Inr (Fin 0), 11)] 1 = [1, 100]
   \<and> unat (100 :: u32) \<le> 100 * unat (1 :: u32)"
proof -
  let ?ms = "[\<lambda>_. (Inr (Fin 0), 0), \<lambda>_. (Inr (Fin 0), 11)] :: measurement list"
  have half: "(1 :: u32) < half_max" by (simp add: word_less_nat_alt unat_half_max)
  have cs: "counts True 5 10 (Fin 1) ?ms 1 = [1, 100]"
    by (simp add: converge_round_def grow_iters_def saturating_mul_def half)
  show ?thesis using converge_counts_grow [OF cs [symmetric], of 0] cs by simp
qed

text \<open>
  The maximum time bounds one measurement, not the run: while no measurement reaches the
  threshold and none takes longer than the maximum, the loop goes on, after any number of
  measurements and so past any total time.
\<close>

theorem converge_has_no_total_limit:
  assumes "\<not> f_le th metric" and "elapsed \<le> mx"
  shows "converge oc (Some mn) (Some mx) (Some th) (replicate k (\<lambda>_. (Inr metric, elapsed))) = Inr None"
  using converge_loop_goes_on [OF assms, of 1] by (simp add: converge_def or_default_def)

theorem converge_has_no_total_limit_witness:
  "converge True (Some 5) (Some 10) (Some (Fin 1)) (replicate 1000 (\<lambda>_. (Inr (Fin 0), 10))) = Inr None"
  using converge_has_no_total_limit [of "Fin 1" "Fin 0" 10 10] by simp

text \<open>
  After \<open>converge!\<close> returned, the final comparison of the tests with their target cannot
  fail: the macro has panicked before whenever the metric is below it, so the error value of
  those tests is never produced.
\<close>

theorem converge_macro_preempts_error:
  assumes "converge_macro oc mn mx target ms = Inr (Some final)"
  shows "check_target final target msg = Inr () \<and> f_le target final"
proof -
  obtain r where r: "converge oc (Some mn) (Some mx) (Some target) ms = Inr r"
    using assms by (auto simp: converge_macro_def bind_sum_Inr_iff)
  have "f_le target final"
    using assms by (cases r rule: option.exhaust [case_names None Some]; cases "the r")
      (auto simp: converge_macro_def r split: if_splits)
  then show ?thesis by (simp add: check_target_def f_lt_def)
qed

theorem converge_macro_preempts_error_witness:
  "converge_macro True 5 10 (Fin (1 / 2)) [\<lambda>_. (Inr (Fin 1), 7)] = Inr (Some (Fin 1))
   \<and> check_target (Fin 1) (Fin (1 / 2)) ''x'' = Inr ()"
proof -
  have run: "converge_macro True 5 10 (Fin (1 / 2)) [\<lambda>_. (Inr (Fin 1), 7)] = Inr (Some (Fin 1))"
    by (simp add: converge_macro_def converge_def or_default_def converge_round_def)
  then show ?thesis using converge_macro_preempts_error [OF run] by simp
qed

text \<open>
  C35. The loop ends when time follows work: if every measurement takes at least \<open>c\<close> nanoseconds
  an iteration, the maximum is below \<open>c\<close> times half of the \<open>u32\<close> range and no measurement takes
  exactly the maximum, it returns after at most one more measurement than \<open>c\<close> goes into the
  maximum, plus one. The exact tie is excluded for a reason: there the count stays the same.
\<close>

theorem converge_terminates:
  assumes "0 < c" and "mx < c * (2 ^ 31 - 1)"
    and "\<forall>m\<in>set ms. \<forall>i. c * unat i \<le> snd (m i) \<and> snd (m i) \<noteq> mx"
    and "mx div c + 2 \<le> length ms"
  shows "\<exists>v. converge oc (Some mn) (Some mx) (Some th) ms = Inr (Some v)"
  using converge_loop_ends [OF assms(1-3), of 1 oc mn th] assms(4) by (simp add: converge_def or_default_def)

theorem converge_terminates_witness:
  "\<exists>v. converge True (Some 5) (Some 11) (Some (Fin 1)) (replicate 7 (\<lambda>i. (Inr (Fin 0), 2 * unat i)))
     = Inr (Some v)"
proof -
  have "2 * unat (i :: u32) \<noteq> 11" for i by presburger
  then show ?thesis
    using converge_terminates [of 2 11 "replicate 7 (\<lambda>i. (Inr (Fin 0), 2 * unat i))" True 5 "Fin 1"] by simp
qed

end
