(* ===== verification/Float_Bounds.thy ===== *)
theory Float_Bounds
  imports F64
begin

text \<open>
  Facts on doubles for the statistics: the order of the numbers as an instance of \<open>linorder\<close>,
  symmetry of the operations, an algebra of magnitudes (\<open>mag k a\<close>: a number of at most
  \<open>2 ^ k\<close>, so no operation overflows), and the relative error of one rounding.
\<close>

section \<open>The total order\<close>

text \<open>
  Sorting needs a linear order; on values that are not NaN it is the order of the comparison
  operators, and NaN is put last.
\<close>

fun f_rank :: "f64 \<Rightarrow> nat \<times> rat" where
  "f_rank NegInf = (0, 0)"
| "f_rank (Fin x) = (1, x)"
| "f_rank PosInf = (2, 0)"
| "f_rank NaN = (3, 0)"

lemma f_rank_inject: "f_rank a = f_rank b \<longleftrightarrow> a = b"
  by (cases a; cases b) auto

instantiation f64 :: linorder
begin

definition less_eq_f64 :: "f64 \<Rightarrow> f64 \<Rightarrow> bool" where
  "less_eq_f64 a b \<longleftrightarrow> fst (f_rank a) < fst (f_rank b)
     \<or> fst (f_rank a) = fst (f_rank b) \<and> snd (f_rank a) \<le> snd (f_rank b)"

definition less_f64 :: "f64 \<Rightarrow> f64 \<Rightarrow> bool" where
  "less_f64 a b \<longleftrightarrow> a \<le> b \<and> \<not> b \<le> (a :: f64)"

instance
proof
  fix a b c :: f64
  show "a < b \<longleftrightarrow> a \<le> b \<and> \<not> b \<le> a" by (simp add: less_f64_def)
  show "a \<le> a" by (simp add: less_eq_f64_def)
  show "a \<le> b \<Longrightarrow> b \<le> c \<Longrightarrow> a \<le> c" by (auto simp: less_eq_f64_def)
  show "a \<le> b \<Longrightarrow> b \<le> a \<Longrightarrow> a = b"
    unfolding f_rank_inject [symmetric] by (auto simp: less_eq_f64_def prod_eq_iff)
  show "a \<le> b \<or> b \<le> a" by (auto simp: less_eq_f64_def)
qed

end

lemma f_le_iff: "a \<noteq> NaN \<Longrightarrow> b \<noteq> NaN \<Longrightarrow> f_le a b \<longleftrightarrow> a \<le> b"
  by (cases a; cases b) (auto simp: less_eq_f64_def)

lemma f_lt_iff: "a \<noteq> NaN \<Longrightarrow> b \<noteq> NaN \<Longrightarrow> f_lt a b \<longleftrightarrow> a < b"
  by (simp add: f_lt_def f_le_iff less_f64_def)

lemma Fin_le_iff [simp]: "Fin x \<le> Fin y \<longleftrightarrow> x \<le> y"
  by (simp add: less_eq_f64_def)

lemma Fin_less_iff [simp]: "Fin x < Fin y \<longleftrightarrow> x < y"
  by (auto simp: less_f64_def)

section \<open>Symmetry\<close>

lemma f_add_commute: "f_add a b = f_add b a"
  by (cases a; cases b) (auto simp: add.commute)

lemma f_min_commute: "f_min a b = f_min b a"
  by (cases a; cases b) (auto simp: f_min_def)

lemma f_max_commute: "f_max a b = f_max b a"
  by (cases a; cases b) (auto simp: f_max_def)

lemma rnd_minus: "rnd (- x) = f_neg (rnd x)"
  by (auto simp: rnd_def Let_def)

lemma f_neg_neg [simp]: "f_neg (f_neg a) = a"
  by (cases a) auto

lemma f_sub_swap: "f_sub b a = f_neg (f_sub a b)"
  by (cases a; cases b) (auto simp: f_sub_def simp flip: rnd_minus)

lemma f_abs_neg [simp]: "f_abs (f_neg a) = f_abs a"
  by (cases a) (auto simp: f_abs_def f_lt_def)

lemma f_abs_sub_commute: "f_abs (f_sub a b) = f_abs (f_sub b a)"
  by (subst f_sub_swap) simp

section \<open>Magnitudes\<close>

lemma rnd_power:
  assumes "k \<le> 1023"
  shows "rnd (2 ^ k) = Fin (2 ^ k)"
proof -
  let ?x = "2 powi int k :: rat"
  have "2 powi floor_log2 ?x \<le> ?x" by (intro floor_log2_bounds) simp
  then have "floor_log2 ?x \<le> int k" using powi_le_iff by blast
  then have u: "unit_exp ?x \<le> int k" by (simp add: unit_exp_def)
  then have "round_pos ?x = ?x"
    by (intro order_antisym round_pos_le_power power_le_round_pos order_refl u)
  moreover have "\<not> 2 powi 1024 \<le> ?x" unfolding powi_le_iff using assms by simp
  ultimately have "rnd ?x = Fin ?x" by (simp add: rnd_def)
  then show ?thesis by simp
qed

lemma rnd_one [simp]: "rnd 1 = Fin 1"
  using rnd_power [of 0] by simp

definition mag :: "nat \<Rightarrow> f64 \<Rightarrow> bool" where
  "mag k a \<longleftrightarrow> (\<exists>x. a = Fin x \<and> \<bar>x\<bar> \<le> 2 ^ k)"

lemma magI: "\<bar>x\<bar> \<le> 2 ^ k \<Longrightarrow> mag k (Fin x)"
  by (simp add: mag_def)

lemma mag_mono:
  assumes "mag j a" and "j \<le> k"
  shows "mag k a"
proof -
  have "(2 :: rat) ^ j \<le> 2 ^ k" using assms(2) by (rule power_increasing) simp
  moreover obtain x where x: "a = Fin x" "\<bar>x\<bar> \<le> 2 ^ j" using assms(1) by (auto simp: mag_def)
  ultimately have "\<bar>x\<bar> \<le> 2 ^ k" using order_trans by blast
  then show ?thesis by (simp add: mag_def x(1))
qed

lemma mag_not_NaN: "mag k a \<Longrightarrow> a \<noteq> NaN"
  by (auto simp: mag_def)

lemma rnd_mag:
  assumes "\<bar>x\<bar> \<le> 2 ^ k" and "k \<le> 1023"
  shows "mag k (rnd x)"
proof -
  have "f_le (rnd x) (rnd (2 ^ k))" "f_le (rnd (- (2 ^ k))) (rnd x)"
    using assms(1) by (auto intro!: rnd_mono)
  then have "f_le (rnd x) (Fin (2 ^ k))" "f_le (Fin (- (2 ^ k))) (rnd x)"
    by (simp_all add: rnd_power [OF assms(2)] rnd_minus)
  then show ?thesis by (cases "rnd x") (auto simp: mag_def)
qed

lemma mag_add: "mag k a \<Longrightarrow> mag k b \<Longrightarrow> k < 1023 \<Longrightarrow> mag (Suc k) (f_add a b)"
  by (auto simp: mag_def [of k] intro!: rnd_mag)

lemma mag_neg: "mag k a \<Longrightarrow> mag k (f_neg a)"
  by (auto simp: mag_def)

lemma mag_sub: "mag k a \<Longrightarrow> mag k b \<Longrightarrow> k < 1023 \<Longrightarrow> mag (Suc k) (f_sub a b)"
  unfolding f_sub_def by (intro mag_add mag_neg)

lemma mag_mul: "mag j a \<Longrightarrow> mag k b \<Longrightarrow> j + k \<le> 1023 \<Longrightarrow> mag (j + k) (f_mul a b)"
  by (auto simp: mag_def [of j] mag_def [of k] abs_mult power_add intro!: rnd_mag mult_mono)

lemma mag_div:
  assumes "mag j a" and "1 / 2 ^ k \<le> y" and "j + k \<le> 1023"
  shows "mag (j + k) (f_div a (Fin y))"
proof -
  obtain x where x: "a = Fin x" "\<bar>x\<bar> \<le> 2 ^ j" using assms(1) by (auto simp: mag_def)
  have y: "0 < y" using assms(2) by (rule order_less_le_trans [rotated]) simp
  have "1 \<le> 2 ^ k * y" using assms(2) by (simp add: divide_le_eq mult.commute)
  then have "2 ^ j * 1 \<le> 2 ^ j * (2 ^ k * y)" by (intro mult_left_mono) simp_all
  then have "2 ^ j \<le> 2 ^ (j + k) * y" by (simp only: power_add mult.assoc mult_1_right)
  with x(2) have "\<bar>x\<bar> \<le> 2 ^ (j + k) * y" by (rule order_trans)
  then have "\<bar>x / y\<bar> \<le> 2 ^ (j + k)" using y by (simp add: abs_divide divide_le_eq)
  then show ?thesis using y x(1) assms(3) by (auto intro: rnd_mag)
qed

lemma mag_abs: "mag k a \<Longrightarrow> mag k (f_abs a)"
  by (auto simp: mag_def f_abs_def f_lt_def)

lemma f_sub_self: "mag k a \<Longrightarrow> f_sub a a = Fin 0"
  by (auto simp: mag_def f_sub_def)

section \<open>Signs\<close>

definition f_nonneg :: "f64 \<Rightarrow> bool" where
  "f_nonneg a \<longleftrightarrow> f_le (Fin 0) a"

lemma rnd_nonneg: "0 \<le> x \<Longrightarrow> f_nonneg (rnd x)"
  unfolding f_nonneg_def using rnd_mono [of 0 x] by simp

lemma nonneg_add: "f_nonneg a \<Longrightarrow> f_nonneg b \<Longrightarrow> f_nonneg (f_add a b)"
  by (cases a; cases b) (auto simp: f_nonneg_def dest: rnd_nonneg [unfolded f_nonneg_def, OF add_nonneg_nonneg])

lemma nonneg_sub_Fin: "b \<le> a \<Longrightarrow> f_nonneg (f_sub (Fin a) (Fin b))"
  by (auto simp: f_sub_def intro: rnd_nonneg)

lemma nonneg_abs: "a \<noteq> NaN \<Longrightarrow> f_nonneg (f_abs a)"
  by (cases a) (auto simp: f_nonneg_def f_abs_def f_lt_def)

lemma nonneg_mul: "f_nonneg a \<Longrightarrow> mag j a \<Longrightarrow> f_nonneg b \<Longrightarrow> mag k b \<Longrightarrow> f_nonneg (f_mul a b)"
  by (auto simp: mag_def f_nonneg_def [of a] f_nonneg_def [of b] intro!: rnd_nonneg)

lemma nonneg_div: "f_nonneg a \<Longrightarrow> mag k a \<Longrightarrow> 0 < y \<Longrightarrow> f_nonneg (f_div a (Fin y))"
  by (auto simp: mag_def f_nonneg_def [of a] intro!: rnd_nonneg)

section \<open>The error of one rounding\<close>

lemma round_even_error: "\<bar>of_int (round_even x) - x\<bar> \<le> 1 / 2"
  using of_int_floor_le [of x] floor_correct [of x]
  by (auto simp: round_even_def Let_def abs_le_iff)

lemma rnd_error:
  assumes "2 powi (-1022) \<le> x" and "x \<le> 2 ^ k" and "k \<le> 1023"
  shows "\<exists>y. rnd x = Fin y \<and> \<bar>y - x\<bar> \<le> x / 2 ^ 53"
proof -
  have pos: "0 < x" using assms(1) by (rule order_less_le_trans [rotated]) simp
  obtain y where y: "rnd x = Fin y" using rnd_mag [of x k] assms(2,3) pos by (auto simp: mag_def)
  then have yr: "y = round_pos x" using pos by (auto simp: rnd_def Let_def split: if_splits)
  have "2 powi (-1022) < (2 :: rat) powi (floor_log2 x + 1)"
    using assms(1) floor_log2_bounds(2) [OF pos] by linarith
  then have "-1022 \<le> floor_log2 x" using powi_int_less by fastforce
  then have u: "unit_exp x = floor_log2 x - 52" by (simp add: unit_exp_def)
  let ?u = "2 powi unit_exp x :: rat"
  have "round_pos x - x = (of_int (round_even (x / ?u)) - x / ?u) * ?u"
    by (simp add: round_pos_def left_diff_distrib)
  then have "\<bar>round_pos x - x\<bar> = \<bar>of_int (round_even (x / ?u)) - x / ?u\<bar> * ?u"
    by (simp add: abs_mult)
  also have "\<dots> \<le> 1 / 2 * ?u" by (intro mult_right_mono round_even_error) simp
  also have "\<dots> = 2 powi floor_log2 x / 2 ^ 53" by (simp add: u power_int_diff)
  also have "\<dots> \<le> x / 2 ^ 53" by (intro divide_right_mono floor_log2_bounds(1) pos) simp
  finally show ?thesis using y yr by blast
qed

section \<open>Evaluating a rounding\<close>

lemma floor_log2_eqI:
  assumes "2 powi e \<le> x" and "x < 2 powi (e + 1)"
  shows "floor_log2 x = e"
proof -
  have "0 < x" using assms(1) by (rule order_less_le_trans [rotated]) simp
  note b = floor_log2_bounds [OF this]
  have "(2 :: rat) powi e < 2 powi (floor_log2 x + 1)" "(2 :: rat) powi floor_log2 x < 2 powi (e + 1)"
    using assms b by linarith+
  then have "e < floor_log2 x + 1" "floor_log2 x < e + 1" by (blast dest: powi_int_less)+
  then show ?thesis by linarith
qed

lemma round_even_nearest:
  assumes "\<bar>x - of_int m\<bar> < 1 / 2"
  shows "round_even x = m"
proof -
  have "\<bar>of_int (round_even x) - x\<bar> \<le> 1 / 2" by (rule round_even_error)
  with assms have "\<bar>of_int (round_even x) - of_int m\<bar> < (1 :: rat)" by linarith
  then have "\<bar>round_even x - m\<bar> < 1" by (metis of_int_diff of_int_abs of_int_less_1_iff)
  then show ?thesis by linarith
qed

text \<open>A value below one, given its exponent and its significand.\<close>

lemma rnd_eqI:
  assumes "1 / 2 ^ k \<le> x" and "x < 2 / 2 ^ k" and "k \<le> 1000"
    and "\<bar>x * 2 ^ (52 + k) - of_int m\<bar> < 1 / 2"
  shows "rnd x = Fin (of_int m / 2 ^ (52 + k))"
proof -
  have p: "(2 :: rat) powi (- int k) = 1 / 2 ^ k" "(2 :: rat) powi (- int k + 1) = 2 / 2 ^ k"
    by (simp_all add: power_int_minus inverse_eq_divide power_int_diff)
  have "floor_log2 x = - int k" using assms(1,2) unfolding p [symmetric] by (rule floor_log2_eqI)
  then have u: "unit_exp x = - int (52 + k)" using assms(3) by (simp add: unit_exp_def)
  have pu: "(2 :: rat) powi unit_exp x = 1 / 2 ^ (52 + k)"
    unfolding u power_int_minus power_int_of_nat by (simp add: inverse_eq_divide)
  have r: "round_pos x = of_int m / 2 ^ (52 + k)" unfolding round_pos_def pu using round_even_nearest [OF assms(4)] by simp
  have x: "0 < x" "\<bar>x\<bar> \<le> 2 ^ 1"
  proof -
    show "0 < x" using assms(1) by (rule order_less_le_trans [rotated]) simp
    have "2 / 2 ^ k \<le> (2 :: rat)" by (simp add: divide_le_eq)
    then show "\<bar>x\<bar> \<le> 2 ^ 1" using assms(2) \<open>0 < x\<close> by simp
  qed
  then obtain y where "rnd x = Fin y" using rnd_mag [of x 1] by (auto simp: mag_def)
  then show ?thesis using r x(1) by (auto simp: rnd_def Let_def split: if_splits)
qed

text \<open>A value of at least one.\<close>

lemma rnd_eqI_big:
  assumes "2 ^ k \<le> x" and "x < 2 * 2 ^ k" and "k \<le> 52"
    and "\<bar>x * 2 ^ (52 - k) - of_int m\<bar> < 1 / 2"
  shows "rnd x = Fin (of_int m / 2 ^ (52 - k))"
proof -
  have p: "(2 :: rat) powi (int k) = 2 ^ k" "(2 :: rat) powi (int k + 1) = 2 * 2 ^ k"
    by (simp_all add: power_int_add)
  have "floor_log2 x = int k" by (rule floor_log2_eqI) (unfold p, rule assms(1), rule assms(2))
  then have u: "unit_exp x = - int (52 - k)" using assms(3) by (simp add: unit_exp_def of_nat_diff)
  have pu: "(2 :: rat) powi unit_exp x = 1 / 2 ^ (52 - k)"
    unfolding u power_int_minus power_int_of_nat by (simp add: inverse_eq_divide)
  have r: "round_pos x = of_int m / 2 ^ (52 - k)"
    unfolding round_pos_def pu using round_even_nearest [OF assms(4)] by simp
  have pos: "0 < x" using assms(1) by (rule order_less_le_trans [rotated]) simp
  have "(2 :: rat) ^ k \<le> 2 ^ 52" using assms(3) by (rule power_increasing) simp
  then have "\<bar>x\<bar> \<le> 2 ^ 53" using assms(2) pos by simp
  then obtain y where "rnd x = Fin y" using rnd_mag [of x 53] by (auto simp: mag_def)
  then show ?thesis using r pos by (auto simp: rnd_def Let_def split: if_splits)
qed

end
