(* ===== verification/Cases.thy ===== *)
theory Cases
  imports TopologyLoad Semaphore Process Bench Float_Bounds
begin

text \<open>
  The test cases of \<open>cases/basic.rs\<close>, \<open>cases/latency.rs\<close> and \<open>cases/topology.rs\<close>: the wake
  types of the ping-pong benchmark with their masks and constraints, its two loops, and the
  metrics of the topology tests. What the spinners were last seen on is a parameter: for
  every round of observation, the CPU that each spinner's cell holds.
\<close>

section \<open>Wake types\<close>

datatype wake_type = SameHyperthread | SameCore | SameComplex | SameNode | Unpinned

fun show_wake_type :: "wake_type \<Rightarrow> string" where
  "show_wake_type SameHyperthread = ''SameHyperthread''"
| "show_wake_type SameCore = ''SameCore''"
| "show_wake_type SameComplex = ''SameComplex''"
| "show_wake_type SameNode = ''SameNode''"
| "show_wake_type Unpinned = ''Unpinned''"

text \<open>\<open>first().unwrap()\<close>.\<close>

definition first_of :: "'a list \<Rightarrow> 'a outcome" where
  "first_of xs = (case xs of [] \<Rightarrow> Inl UnwrapNone | x # _ \<Rightarrow> Inr x)"

definition ping_pong_mask :: "system \<Rightarrow> wake_type \<Rightarrow> mask outcome" where
  "ping_pong_mask s w =
     (case w of
        SameHyperthread \<Rightarrow>
          bind_sum (first_of (all_cores s)) (\<lambda>c.
          bind_sum (first_of (hyperthreads c)) (\<lambda>h. CPUMask_new Hyperthread_mask h))
      | SameCore \<Rightarrow> bind_sum (first_of (all_cores s)) (\<lambda>c. CPUMask_new Core_mask c)
      | SameComplex \<Rightarrow>
          bind_sum (first_of (nodes s)) (\<lambda>n.
          bind_sum (first_of (complexes n)) (\<lambda>x. CPUMask_new CoreComplex_mask x))
      | SameNode \<Rightarrow> bind_sum (first_of (nodes s)) (\<lambda>n. CPUMask_new Node_mask n)
      | Unpinned \<Rightarrow> CPUMask_new System_mask s)"

definition need :: "bool \<Rightarrow> string \<Rightarrow> unit result" where
  "need b msg = (if b then Inr () else Inl (Anyhow msg))"

definition check_wake_type :: "system \<Rightarrow> wake_type \<Rightarrow> unit result outcome" where
  "check_wake_type s w =
     (case w of
        SameHyperthread \<Rightarrow>
          bind_sum (first_of (all_cores s)) (\<lambda>c.
            Inr (need (1 < length (hyperthreads c)) ''same as single core''))
      | SameCore \<Rightarrow> Inr (need (1 < length (all_cores s)) ''only one core available'')
      | SameComplex \<Rightarrow> Inr (need (1 < System_complexes s) ''only one complex available'')
      | SameNode \<Rightarrow> Inr (need (1 < length (nodes s)) ''only one node available'')
      | Unpinned \<Rightarrow> Inr (Inr ()))"

definition needs_numa_or_complexes :: "system \<Rightarrow> unit result outcome" where
  "needs_numa_or_complexes s =
     (if 1 < length (nodes s) then Inr (Inr ())
      else bind_sum (vec_index (nodes s) 0) (\<lambda>n.
        Inr (need (1 < length (complexes n)) ''test requires multiple nodes or complexes'')))"

section \<open>The ping-pong loops\<close>

text \<open>
  Each process runs \<open>iters\<close> rounds of a produce on its own semaphore and a consume on the other's;
  the state is the two semaphores, of maximum one, and how many operations each process has
  done. A step is one operation that goes through.
\<close>

record ping_pong =
  sem1 :: nat
  sem2 :: nat
  adone :: nat
  bdone :: nat

definition own_turn :: "nat \<Rightarrow> bool" where
  "own_turn k \<longleftrightarrow> even k"

definition a_step :: "nat \<Rightarrow> ping_pong \<Rightarrow> ping_pong option" where
  "a_step iters s =
     (if 2 * iters \<le> adone s then None
      else if own_turn (adone s)
      then (if passes Produce (sem1 s) then Some (s\<lparr>sem1 := sem1 s + 1, adone := adone s + 1\<rparr>) else None)
      else (if passes Consume (sem2 s) then Some (s\<lparr>sem2 := sem2 s - 1, adone := adone s + 1\<rparr>) else None))"

definition b_step :: "nat \<Rightarrow> ping_pong \<Rightarrow> ping_pong option" where
  "b_step iters s =
     (if 2 * iters \<le> bdone s then None
      else if own_turn (bdone s)
      then (if passes Produce (sem2 s) then Some (s\<lparr>sem2 := sem2 s + 1, bdone := bdone s + 1\<rparr>) else None)
      else (if passes Consume (sem1 s) then Some (s\<lparr>sem1 := sem1 s - 1, bdone := bdone s + 1\<rparr>) else None))"

inductive pp_reach :: "nat \<Rightarrow> ping_pong \<Rightarrow> bool" for iters where
  fresh: "pp_reach iters \<lparr>sem1 = 0, sem2 = 0, adone = 0, bdone = 0\<rparr>"
| by_a: "pp_reach iters s \<Longrightarrow> a_step iters s = Some s' \<Longrightarrow> pp_reach iters s'"
| by_b: "pp_reach iters s \<Longrightarrow> b_step iters s = Some s' \<Longrightarrow> pp_reach iters s'"

definition pp_inv :: "nat \<Rightarrow> ping_pong \<Rightarrow> bool" where
  "pp_inv iters s \<longleftrightarrow> adone s \<le> 2 * iters \<and> bdone s \<le> 2 * iters \<and> sem1 s \<le> 1 \<and> sem2 s \<le> 1
     \<and> sem1 s + bdone s div 2 = (adone s + 1) div 2 \<and> sem2 s + adone s div 2 = (bdone s + 1) div 2"

lemma pp_reach_inv: "pp_reach iters s \<Longrightarrow> pp_inv iters s"
proof (induction rule: pp_reach.induct)
  case fresh
  then show ?case by (simp add: pp_inv_def)
next
  case (by_a s s')
  then show ?case
    by (auto simp: pp_inv_def a_step_def own_turn_def passes_produce passes_consume split: if_splits
        elim!: evenE oddE)
next
  case (by_b s s')
  then show ?case
    by (auto simp: pp_inv_def b_step_def own_turn_def passes_produce passes_consume split: if_splits
        elim!: evenE oddE)
qed

lemma pp_progress:
  assumes "pp_reach iters s"
  shows "adone s = 2 * iters \<and> bdone s = 2 * iters \<and> sem1 s = 0 \<and> sem2 s = 0
    \<or> a_step iters s \<noteq> None \<or> b_step iters s \<noteq> None"
  using pp_reach_inv [OF assms] unfolding pp_inv_def a_step_def b_step_def own_turn_def
  by (auto simp: passes_produce passes_consume elim!: evenE oddE; presburger)

section \<open>The spread_out metric\<close>

definition core_of_cpu :: "core list \<Rightarrow> int \<rightharpoonup> int" where
  "core_of_cpu cs =
     fold (\<lambda>(k, v) m. m(k \<mapsto> v)) (concat (map (\<lambda>c. map (\<lambda>h. (ht_id h, core_id c)) (hyperthreads c)) cs))
       Map.empty"

text \<open>The counters are \<open>i32\<close>.\<close>

definition inc_i32 :: "bool \<Rightarrow> u32 \<Rightarrow> u32 outcome" where
  "inc_i32 oc x = (if oc \<and> sint x = 2 ^ 31 - 1 then Inl ArithOverflow else Inr (x + 1))"

definition note_cpu ::
    "bool \<Rightarrow> (int \<rightharpoonup> int) \<Rightarrow> u32 \<Rightarrow> (int \<rightharpoonup> u32) \<Rightarrow> (int \<rightharpoonup> u32) outcome" where
  "note_cpu oc where_is cpu seen =
     (case where_is (sint cpu) of
        None \<Rightarrow> Inr seen
      | Some p \<Rightarrow>
          bind_sum (inc_i32 oc (case seen p of None \<Rightarrow> 0 | Some n \<Rightarrow> n)) (\<lambda>n. Inr (seen(p \<mapsto> n))))"

fun observe ::
    "bool \<Rightarrow> (int \<rightharpoonup> int) \<Rightarrow> u32 list \<Rightarrow> (int \<rightharpoonup> u32) \<Rightarrow> (int \<rightharpoonup> u32) outcome" where
  "observe oc where_is [] seen = Inr seen"
| "observe oc where_is (cpu # cpus) seen =
     bind_sum (note_cpu oc where_is cpu seen) (observe oc where_is cpus)"

text \<open>The migrations before the observations; the first failing \<open>stats\<close> is the error.\<close>

fun all_ok :: "'a result list \<Rightarrow> 'a list result" where
  "all_ok [] = Inr []"
| "all_ok (r # rs) = bind_sum r (\<lambda>x. bind_sum (all_ok rs) (\<lambda>xs. Inr (x # xs)))"

text \<open>The migrations since, summed over the processes; a \<open>u64\<close> difference and sum.\<close>

fun delta_migrations :: "bool \<Rightarrow> u64 list \<Rightarrow> u64 result list \<Rightarrow> u64 \<Rightarrow> u64 result outcome" where
  "delta_migrations oc (b # bs) (Inl e # _) acc = Inr (Inl e)"
| "delta_migrations oc (b # bs) (Inr a # as) acc =
     bind_sum (sub_ck oc a b) (\<lambda>d.
     bind_sum (add_ck oc acc d) (\<lambda>acc'. delta_migrations oc bs as acc'))"
| "delta_migrations oc _ _ acc = Inr (Inr acc)"

definition spread_metric ::
    "bool \<Rightarrow> system \<Rightarrow> u64 result list \<Rightarrow> u32 list list \<Rightarrow> unit result \<Rightarrow> u64 result list
     \<Rightarrow> f64 result outcome" where
  "spread_metric oc s first rounds waited second =
     (case all_ok first of
        Inl e \<Rightarrow> Inr (Inl e)
      | Inr base \<Rightarrow>
          bind_sum (observe oc (core_of_cpu (all_cores s)) (concat rounds) Map.empty) (\<lambda>seen.
          case waited of
            Inl e \<Rightarrow> Inr (Inl e)
          | Inr _ \<Rightarrow>
              bind_sum (delta_migrations oc base second 0) (\<lambda>r.
              case r of
                Inl e \<Rightarrow> Inr (Inl e)
              | Inr d \<Rightarrow>
                  Inr (Inr (if 0 < d then Fin 0
                    else f_div (f_of_nat (card (dom seen))) (f_of_nat (length (all_cores s))))))))"

text \<open>
  The body of \<open>spread_out\<close> and \<open>come_together\<close> after the processes were made: \<open>converge!\<close> over
  one to thirty seconds with the target 0.95, and the last comparison. The numbers in the
  message are left out.
\<close>

definition the_target :: f64 where
  "the_target = rnd (95 / 100)"

definition target_test :: "bool \<Rightarrow> measurement list \<Rightarrow> unit result option outcome" where
  "target_test oc ms =
     bind_sum (converge_macro oc (10 ^ 9) (30 * 10 ^ 9) the_target ms) (\<lambda>r.
       Inr (map_option (\<lambda>v. check_target v the_target ''Failed to achieve target'') r))"

section \<open>The \<open>come_together\<close> metric\<close>

definition complex_of_cpu :: "system \<Rightarrow> int \<rightharpoonup> int" where
  "complex_of_cpu s =
     fold (\<lambda>(k, v) m. m(k \<mapsto> v))
       (concat (map (\<lambda>n. concat (map (\<lambda>x. concat (map (\<lambda>c.
          map (\<lambda>h. (ht_id h, complex_id x)) (hyperthreads c)) (cores x))) (complexes n))) (nodes s)))
       Map.empty"

text \<open>
  One spinner set of one round: the first spinner's complex is the reference, every later
  spinner elsewhere is a mismatch. Indexing the map panics on a CPU it does not have.
\<close>

fun count_set ::
    "bool \<Rightarrow> (int \<rightharpoonup> int) \<Rightarrow> u32 list \<Rightarrow> int option \<Rightarrow> u32 \<Rightarrow> u32 \<Rightarrow> (u32 \<times> u32) outcome" where
  "count_set oc where_is [] reference bad seen_all = Inr (bad, seen_all)"
| "count_set oc where_is (cpu # cpus) reference bad seen_all =
     (case where_is (sint cpu) of
        None \<Rightarrow> Inl (PanicMsg ''key not found in map'')
      | Some here \<Rightarrow>
          bind_sum (if reference \<noteq> None \<and> reference \<noteq> Some here then inc_i32 oc bad else Inr bad)
            (\<lambda>bad'. bind_sum (inc_i32 oc seen_all) (\<lambda>seen_all'.
              count_set oc where_is cpus (if reference = None then Some here else reference)
                bad' seen_all')))"

fun count_sets :: "bool \<Rightarrow> (int \<rightharpoonup> int) \<Rightarrow> u32 list list \<Rightarrow> u32 \<Rightarrow> u32 \<Rightarrow> (u32 \<times> u32) outcome" where
  "count_sets oc where_is [] bad seen_all = Inr (bad, seen_all)"
| "count_sets oc where_is (cpus # rest) bad seen_all =
     bind_sum (count_set oc where_is cpus None bad seen_all) (\<lambda>(b, n). count_sets oc where_is rest b n)"

definition come_metric :: "bool \<Rightarrow> system \<Rightarrow> u32 list list \<Rightarrow> unit result \<Rightarrow> f64 result outcome" where
  "come_metric oc s sets waited =
     bind_sum (count_sets oc (complex_of_cpu s) sets 0 0) (\<lambda>(bad, seen_all).
     Inr (case waited of
        Inl e \<Rightarrow> Inl e
      | Inr _ \<Rightarrow> Inr (f_sub (Fin 1) (f_div (rnd (of_int (sint bad))) (rnd (of_int (sint seen_all)))))))"

text \<open>The calls a process of \<open>come_together\<close> makes on its own semaphore; nobody consumes from it.\<close>

definition only_produces :: "nat \<Rightarrow> call \<Rightarrow> bool" where
  "only_produces t c \<longleftrightarrow> op c = Produce \<and> wake_n c = amt c \<and> \<not> timed c \<and> unat (amt c) < 2 ^ 31"

section \<open>The latency test\<close>

text \<open>
  \<open>adaptive_priority\<close>: the ratio of the two percentiles, in seconds; a missing percentile is an
  error. The test fails when the converged value is not below the target.
\<close>

definition latency_ratio :: "f64 option \<Rightarrow> f64 option \<Rightarrow> f64 result" where
  "latency_ratio fast slow =
     (case fast of
        None \<Rightarrow> Inl (Anyhow ''No p90 for fast semaphore'')
      | Some a \<Rightarrow>
          (case slow of
             None \<Rightarrow> Inl (Anyhow ''No p90 for slow semaphore'')
           | Some b \<Rightarrow> Inr (f_div a b)))"

definition check_below :: "f64 \<Rightarrow> f64 \<Rightarrow> string \<Rightarrow> unit result" where
  "check_below final target msg = (if f_le target final then Inl (Anyhow msg) else Inr ())"

definition adaptive_test :: "bool \<Rightarrow> measurement list \<Rightarrow> unit result option outcome" where
  "adaptive_test oc ms =
     bind_sum (converge oc (Some (5 * 10 ^ 9)) (Some (10 * 10 ^ 9)) (Some (Fin (1 / 2))) ms) (\<lambda>r.
       Inr (map_option (\<lambda>v. bind_sum v (\<lambda>x. check_below x (Fin (1 / 2)) ''Failed to achieve target'')) r))"

section \<open>Lemmas\<close>

lemma ran_fold_update:
  "ran (fold (\<lambda>(k, v) m. m(k \<mapsto> v)) kvs m) \<subseteq> ran m \<union> snd ` set kvs"
proof (induction kvs arbitrary: m)
  case (Cons kv kvs)
  obtain k v where kv: "kv = (k, v)" by fastforce
  have "ran (m(k \<mapsto> v)) \<subseteq> ran m \<union> {v}" by (auto simp: ran_def)
  then show ?case using Cons.IH [of "m(k \<mapsto> v)"] by (simp add: kv del: fun_upd_apply) blast
qed simp

lemma ran_core_of_cpu: "ran (core_of_cpu cs) \<subseteq> core_id ` set cs"
  unfolding core_of_cpu_def
  by (rule order_trans [OF ran_fold_update]) auto

lemma observe_dom:
  "observe oc where_is cpus seen = Inr seen' \<Longrightarrow> dom seen' \<subseteq> dom seen \<union> ran where_is"
proof (induction cpus arbitrary: seen)
  case (Cons cpu cpus)
  then obtain mid where mid: "note_cpu oc where_is cpu seen = Inr mid"
      "observe oc where_is cpus mid = Inr seen'"
    by (auto simp: bind_sum_Inr_iff)
  have "dom mid \<subseteq> dom seen \<union> ran where_is"
    using mid(1) by (auto simp: note_cpu_def bind_sum_Inr_iff split: option.splits if_splits intro: ranI)
  then show ?case using Cons.IH [OF mid(2)] by blast
qed simp

lemma split_outcome:
  "(case r of Inl e \<Rightarrow> Inr (Inl e) | Inr d \<Rightarrow> Inr (Inr (f d))) = Inr (Inr v) \<longleftrightarrow> (\<exists>d. r = Inr d \<and> f d = v)"
  by (cases r) auto

lemma spread_le:
  assumes "spread_metric oc s first rounds waited second = Inr (Inr v)"
    and "all_cores s \<noteq> []" and "length (all_cores s) \<le> 2 ^ 53"
  shows "f_le v (rnd (of_nat (card (core_id ` set (all_cores s))) / of_nat (length (all_cores s))))"
proof -
  let ?ids = "core_id ` set (all_cores s)" and ?n = "length (all_cores s)"
  obtain seen where obs: "observe oc (core_of_cpu (all_cores s)) (concat rounds) Map.empty = Inr seen"
    and v: "v = Fin 0 \<or> v = f_div (f_of_nat (card (dom seen))) (f_of_nat ?n)"
    using assms(1) by (cases "all_ok first"; cases waited)
      (auto simp: spread_metric_def bind_sum_Inr_iff split_outcome)
  have "dom seen \<subseteq> ?ids" using observe_dom [OF obs] ran_core_of_cpu by fastforce
  then have le: "card (dom seen) \<le> card ?ids" by (simp add: card_mono)
  have "card ?ids \<le> ?n" by (metis card_image_le card_length finite_set order_trans)
  then have fl: "f_of_nat (card (dom seen)) = Fin (of_nat (card (dom seen)))" "f_of_nat ?n = Fin (of_nat ?n)"
    using le assms(3) by (simp_all add: rnd_nat)
  have pos: "0 < (of_nat ?n :: rat)" using assms(2) by simp
  from v show ?thesis
  proof
    assume "v = Fin 0"
    then show ?thesis using rnd_mono [of 0 "of_nat (card ?ids) / of_nat ?n"] pos by simp
  next
    assume "v = f_div (f_of_nat (card (dom seen))) (f_of_nat ?n)"
    then show ?thesis
      using rnd_mono [of "of_nat (card (dom seen)) / of_nat ?n" "of_nat (card ?ids) / of_nat ?n"] pos le
      by (simp add: fl divide_right_mono)
  qed
qed

lemma not_target: "f_le v (Fin (1 / 2)) \<Longrightarrow> \<not> f_le the_target v"
proof
  assume "f_le v (Fin (1 / 2))" and "f_le the_target v"
  then have le: "f_le the_target (Fin (1 / 2))" by (blast intro: f_le_trans)
  have eq: "the_target = Fin (4278419646001971 / 4503599627370496)"
    unfolding the_target_def by (rule rnd_eqI [where k = 1 and m = 8556839292003942, THEN trans]) simp_all
  show False using le unfolding eq by simp
qed

lemma half_rnd: "rnd (1 / 2) = Fin (1 / 2)"
  by (rule rnd_eqI [where k = 1 and m = "2 ^ 52", THEN trans]) simp_all

lemma spread_half:
  assumes "spread_metric oc s first rounds waited second = Inr (Inr v)"
    and "all_cores s \<noteq> []" and "length (all_cores s) \<le> 2 ^ 53"
    and "2 * card (core_id ` set (all_cores s)) \<le> length (all_cores s)"
  shows "f_le v (Fin (1 / 2))"
proof -
  have "(2 * of_nat (card (core_id ` set (all_cores s))) :: rat) \<le> of_nat (length (all_cores s))"
    using assms(4) by (metis of_nat_le_iff of_nat_mult of_nat_numeral)
  then have "of_nat (card (core_id ` set (all_cores s))) / of_nat (length (all_cores s)) \<le> (1 / 2 :: rat)"
    using assms(2) by (simp add: divide_le_eq)
  then have "f_le (rnd (of_nat (card (core_id ` set (all_cores s))) / of_nat (length (all_cores s)))) (Fin (1 / 2))"
    using rnd_mono half_rnd by metis
  with spread_le [OF assms(1-3)] show ?thesis by (rule f_le_trans)
qed

text \<open>What makes \<open>converge!\<close> return a value: one measurement gave it and it is at least the target.\<close>

lemma converge_macro_value:
  assumes "converge_macro oc mn mx target ms = Inr (Some v)" and "\<not> f_le target (Fin 0)"
  shows "f_le target v \<and> (\<exists>m\<in>set ms. \<exists>i. fst (m i) = Inr v)"
proof -
  obtain r where r: "converge_loop oc mn mx target ms 1 = Inr r"
    "\<forall>v. r = Some v \<longrightarrow> (let cs = counts oc mn mx target ms 1 in cs \<noteq> [] \<and> length cs \<le> length ms
       \<and> decided_by mn mx target v (ms ! (length cs - 1)) (last cs))"
    using converge_loop_decided [of 1 oc mn mx target ms] by auto
  have v: "r = Some (Inr v)" "f_le target v"
    using assms(1) r(1) by (auto simp: converge_macro_def converge_def or_default_def
      split: option.split_asm sum.split_asm if_split_asm)
  let ?cs = "counts oc mn mx target ms 1"
  have d: "?cs \<noteq> []" "length ?cs \<le> length ms"
    "decided_by mn mx target (Inr v) (ms ! (length ?cs - 1)) (last ?cs)"
    using r(2) v(1) by (simp_all add: Let_def)
  have "v \<noteq> Fin 0" using v(2) assms(2) by auto
  then have "fst ((ms ! (length ?cs - 1)) (last ?cs)) = Inr v"
    using d(3) by (auto simp: decided_by_def split: prod.split_asm sum.split_asm)
  moreover have "length ?cs - 1 < length ms" using d(1,2) by (cases ?cs) auto
  ultimately show ?thesis using v(2) nth_mem by blast
qed

text \<open>\<open>adaptive_priority\<close> judges that the value stays below its target.\<close>

interpretation adaptive: converging_case adaptive_test "5 * 10 ^ 9" "10 * 10 ^ 9" "Fin (1 / 2)"
  "\<lambda>x. check_below x (Fin (1 / 2)) ''Failed to achieve target''"
  by unfold_locales (simp add: adaptive_test_def)

section \<open>Properties\<close>

text \<open>
  The two processes of the ping-pong benchmark never block each other for good: in every
  reachable state of a round either both have finished it, with both semaphores empty again
  for the next round, or one of them has an operation that goes through; each operation
  counts towards the \<open>2 * iters\<close> of its process, so a round ends.
\<close>

theorem ping_pong_never_stuck:
  assumes "pp_reach iters s"
  shows "adone s \<le> 2 * iters \<and> bdone s \<le> 2 * iters \<and> sem1 s \<le> 1 \<and> sem2 s \<le> 1
    \<and> (adone s = 2 * iters \<and> bdone s = 2 * iters \<and> sem1 s = 0 \<and> sem2 s = 0
       \<or> (\<exists>s'. a_step iters s = Some s' \<and> adone s' = adone s + 1 \<and> bdone s' = bdone s)
       \<or> (\<exists>s'. b_step iters s = Some s' \<and> bdone s' = bdone s + 1 \<and> adone s' = adone s))"
proof -
  note inv = pp_reach_inv [OF assms, unfolded pp_inv_def]
  have "adone s = 2 * iters \<and> bdone s = 2 * iters \<and> sem1 s = 0 \<and> sem2 s = 0
    \<or> a_step iters s \<noteq> None \<or> b_step iters s \<noteq> None"
    using assms by (rule pp_progress)
  moreover have "adone s' = adone s + 1 \<and> bdone s' = bdone s" if "a_step iters s = Some s'" for s'
    using that by (auto simp: a_step_def split: if_splits)
  moreover have "bdone s' = bdone s + 1 \<and> adone s' = adone s" if "b_step iters s = Some s'" for s'
    using that by (auto simp: b_step_def split: if_splits)
  ultimately show ?thesis using inv by blast
qed

theorem ping_pong_never_stuck_witness:
  "\<exists>s. pp_reach 1 s \<and> adone s = 1 \<and> a_step 1 s = None \<and> (\<exists>s'. b_step 1 s = Some s')"
proof -
  let ?s = "\<lparr>sem1 = 1, sem2 = 0, adone = 1, bdone = 0\<rparr>"
  have "a_step 1 \<lparr>sem1 = 0, sem2 = 0, adone = 0, bdone = 0\<rparr> = Some ?s"
    by (simp add: a_step_def own_turn_def passes_produce)
  then have r: "pp_reach 1 ?s" by (rule pp_reach.by_a [OF pp_reach.fresh])
  have "a_step 1 ?s = None" by (simp add: a_step_def own_turn_def passes_consume)
  then show ?thesis using ping_pong_never_stuck [OF r] r by (intro exI [of _ ?s]) auto
qed

text \<open>
  \<open>spread_out\<close> counts physical cores by their id, which sysfs numbers anew in every package:
  on a machine whose cores have at most half as many distinct ids as there are cores (two
  packages or more), the metric never passes one half and the test cannot succeed, however well
  the scheduler spreads the spinners.
\<close>

theorem spread_out_cannot_pass:
  assumes "all_cores s \<noteq> []" and "length (all_cores s) \<le> 2 ^ 53"
    and "2 * card (core_id ` set (all_cores s)) \<le> length (all_cores s)"
    and "\<forall>m\<in>set ms. \<forall>i. \<exists>first rounds waited second.
           spread_metric oc s first rounds waited second = Inr (fst (m i))"
  shows "target_test oc ms \<noteq> Inr (Some (Inr ()))"
proof
  assume "target_test oc ms = Inr (Some (Inr ()))"
  then obtain v where run: "converge_macro oc (10 ^ 9) (30 * 10 ^ 9) the_target ms = Inr (Some v)"
    by (auto simp: target_test_def bind_sum_Inr_iff)
  have "\<not> f_le the_target (Fin 0)" by (rule not_target) simp
  from converge_macro_value [OF run this] obtain m i where
    v: "f_le the_target v" and m: "m \<in> set ms" "fst (m i) = Inr v" by blast
  obtain first rounds waited second where
    "spread_metric oc s first rounds waited second = Inr (Inr v)"
    using assms(4) m by metis
  note spread_half [OF this assms(1-3)]
  then show False using not_target v by blast
qed

theorem spread_out_cannot_pass_witness:
  "length (all_cores (System_new [Node_new 0 [CoreComplex_new 0 [Core_new 0 [Hyperthread_new 0]]],
      Node_new 1 [CoreComplex_new 1 [Core_new 0 [Hyperthread_new 1]]]])) = 2
   \<and> target_test True [\<lambda>_. (Inr (Fin (1 / 2)), 2 * 10 ^ 9)] \<noteq> Inr (Some (Inr ()))"
proof -
  let ?s = "System_new [Node_new 0 [CoreComplex_new 0 [Core_new 0 [Hyperthread_new 0]]],
      Node_new 1 [CoreComplex_new 1 [Core_new 0 [Hyperthread_new 1]]]]"
  have cs: "all_cores ?s = [Core_new 0 [Hyperthread_new 0], Core_new 0 [Hyperthread_new 1]]"
    by (simp add: System_new_def Node_cores_def Node_new_def CoreComplex_new_def Core_new_def)
  have ids: "core_id ` set (all_cores ?s) = {0}" unfolding cs by (simp add: Core_new_def)
  have "f_of_nat (Suc 0) = Fin 1" "f_of_nat 2 = Fin 2" by (simp_all add: rnd_nat)
  then have half: "f_div (f_of_nat (Suc 0)) (f_of_nat (Suc (Suc 0))) = Fin (1 / 2)"
    by (simp add: half_rnd numeral_2_eq_2)
  have map: "core_of_cpu (all_cores ?s) = [0 \<mapsto> 0, 1 \<mapsto> 0]"
    unfolding cs by (simp add: core_of_cpu_def Core_new_def Hyperthread_new_def)
  have "spread_metric True ?s [] [[0, 1]] (Inr ()) [] = Inr (Inr (Fin (1 / 2)))"
    by (simp add: spread_metric_def map note_cpu_def inc_i32_def half) (simp add: cs half)
  then have "\<forall>m\<in>set [\<lambda>_. (Inr (Fin (1 / 2)), 2 * 10 ^ 9)]. \<forall>i. \<exists>first rounds waited second.
      spread_metric True ?s first rounds waited second = Inr (fst (m i))"
    by (simp, blast)
  from spread_out_cannot_pass [OF _ _ _ this] show ?thesis
    unfolding ids by (simp add: cs)
qed

text \<open>
  In \<open>come_together\<close> nothing consumes from the semaphore that each process produces on, so
  over the whole test the rounds that a process gets through have counts that sum to at most
  the number of cores; a round whose count does not fit under that blocks for good, and with
  it the parent's wait.
\<close>

theorem come_together_fills_up:
  assumes "sem_reach oc only_produces (sem_init (Semaphore_new n_cores readings R) n) st"
  shows "consumed st = 0 \<and> produced st \<le> unat (smax (ssem st))
    \<and> smax (ssem st) = n_cores AND NOT WAITER
    \<and> (\<forall>c. only_produces 0 c \<and> unat (smax (ssem st)) < produced st + unat (amt c)
         \<longrightarrow> decide oc (smax (ssem st)) c (count (ssem st)) = block_decision (count (ssem st)))"
proof -
  have small: "\<And>t c. only_produces t c \<Longrightarrow> small_call c" by (simp add: only_produces_def)
  let ?st0 = "sem_init (Semaphore_new n_cores readings R) n"
  have init: "sem_inv ?st0" "calls_in only_produces (spcs ?st0)"
    by (rule sem_init_ok [OF Semaphore_new_ok])+
  have "sem_inv st" "calls_in only_produces (spcs st)"
    using sem_reach_inv [OF assms small init] by auto
  moreover have "consumed st = 0 \<and> smax (ssem st) = n_cores AND NOT WAITER"
    using assms
  proof (induction rule: sem_reach.induct)
    case start
    then show ?case by (simp add: sem_init_def Semaphore_new_def)
  next
    case (step st a st')
    have ci: "calls_in only_produces (spcs st)" using sem_reach_inv [OF step.hyps(1) small init] by auto
    have cs: "calls_in (\<lambda>_. small_call) (spcs st)" using ci small by (rule calls_in_mono)
    from step.hyps(3) cs show ?case
    proof (cases rule: sem_act_effect)
      case (exchange t c)
      then have "op c = Produce"
        using calls_in_nth [OF ci exchange(1), of c] by (simp add: is_exchange_def only_produces_def)
      then show ?thesis using exchange step.IH by (simp add: is_exchange_def set_view_def)
    qed (use step.IH in \<open>auto simp: effect_defs\<close>)
  qed
  ultimately show ?thesis
    by (auto simp: sem_inv_def only_produces_def enabled_def intro!: decide_blocked)
qed

text \<open>On four cores, a round of one is followed by a round of a hundred, which blocks.\<close>

theorem come_together_fills_up_witness:
  "\<exists>st. sem_reach True only_produces (sem_init (Semaphore_new 4 [] 0) 1) st \<and> produced st = 1
     \<and> decide True (smax (ssem st)) \<lparr>op = Produce, amt = 100, wake_n = 100, timed = False\<rparr> (count (ssem st))
         = MarkWaiter (1 OR WAITER)"
proof -
  let ?c = "\<lparr>op = Produce, amt = 1, wake_n = 1, timed = False\<rparr>"
  let ?d = "\<lparr>op = Produce, amt = 100, wake_n = 100, timed = False\<rparr>"
  let ?s = "Semaphore_new 4 [] 0"
  let ?st = "\<lparr>ssem = ?s\<lparr>count := 1\<rparr>, spcs = [SDone True], produced = 1, consumed = 0\<rparr>"
  have "sem_run True [Call 0 ?c, Run 0, Run 0] (sem_init ?s 1) = Some ?st"
    by (simp add: sem_init_def sem_act_def run_step_def loop_step_def decide_def produce_decide_def
        add_ck_def set_spc_def set_count_def commit_def amount_of_def has_waiter_def WAITER_def
        Semaphore_new_def Let_def)
  then have r: "sem_reach True only_produces (sem_init ?s 1) ?st"
    by (rule sem_run_reach [OF _ _ sem_reach.start]) (simp add: only_produces_def)
  have m: "smax ?s = 4" by (simp add: Semaphore_new_def WAITER_def)
  have "only_produces 0 ?d" by (simp add: only_produces_def)
  then have "decide True 4 ?d 1 = block_decision 1"
    using come_together_fills_up [OF r] m by auto
  then have "decide True 4 ?d 1 = MarkWaiter (1 OR WAITER)"
    by (simp add: block_decision_def has_waiter_def WAITER_def)
  then show ?thesis using r m by (intro exI [of _ ?st]) simp
qed

text \<open>
  How \<open>adaptive_priority\<close> can pass. The loop returns a converged value only at or above the
  target, which the test then reports as a failure: it succeeds exactly when the loop gives
  up, that is when one measurement took longer than the ten seconds without a ratio of at
  least one half.
\<close>

theorem adaptive_test_passes_by_giving_up:
  "\<exists>r. adaptive_test oc ms = Inr r
    \<and> (r = Some (Inr ()) \<longrightarrow>
        (let cs = counts oc (5 * 10 ^ 9) (10 * 10 ^ 9) (Fin (1 / 2)) ms 1;
             m = ms ! (length cs - 1) in
         cs \<noteq> [] \<and> length cs \<le> length ms \<and> 10 * 10 ^ 9 < snd (m (last cs))
         \<and> (\<exists>ratio. fst (m (last cs)) = Inr ratio \<and> \<not> f_le (Fin (1 / 2)) ratio)))"
proof -
  have "10 * 10 ^ 9 < snd m \<and> (\<exists>ratio. fst m = Inr ratio \<and> \<not> f_le (Fin (1 / 2)) ratio)"
    if "\<exists>metric. fst m = Inr metric \<and> (f_le (Fin (1 / 2)) metric \<and> 5 * 10 ^ 9 \<le> snd m
          \<and> check_below metric (Fin (1 / 2)) ''Failed to achieve target'' = Inr ()
        \<or> \<not> (f_le (Fin (1 / 2)) metric \<and> 5 * 10 ^ 9 \<le> snd m) \<and> 10 * 10 ^ 9 < snd m \<and> P)"
    for m :: "f64 result \<times> nat" and P
    using that by (auto simp: check_below_def split: if_split_asm)
  then show ?thesis
    using adaptive.no_panic [of oc ms] adaptive.pass_cases [of oc ms] unfolding Let_def by blast
qed

theorem adaptive_test_passes_by_giving_up_witness:
  "adaptive_test True [\<lambda>_. (Inr (Fin (1 / 4)), 11 * 10 ^ 9)] = Inr (Some (Inr ()))
   \<and> \<not> f_le (Fin (1 / 2)) (Fin (1 / 4))"
proof -
  let ?ms = "[\<lambda>_. (Inr (Fin (1 / 4)), 11 * 10 ^ 9)] :: measurement list"
  have run: "adaptive_test True ?ms = Inr (Some (Inr ()))"
    by (simp add: adaptive_test_def converge_def or_default_def converge_round_def check_below_def)
  then show ?thesis using adaptive_test_passes_by_giving_up [of True ?ms]
    by (simp add: converge_round_def Let_def)
qed

end
