(* ===== verification/Composed.thy ===== *)
theory Composed
  imports Client Cases
begin

text \<open>
  The programs of \<open>workloads/process.rs\<close> and of the ping-pong benchmark and the latency test,
  over the semaphores themselves: every atomic access of \<open>produce\<close> and \<open>consume\<close> is a step,
  with spurious failures, timeouts, interrupts and the kernel's wake-ups. Each is a client in
  the sense of \<open>Client\<close>; its counters are the abstract program, so what \<open>Process\<close> and \<open>Cases\<close>
  prove of the abstract programs holds of every interleaving of accesses.
\<close>

section \<open>The handshake\<close>

text \<open>
  The parent is thread 0: idle, having stored a count, waiting for the child, or asking whether
  the child lives. The child is thread 1, at the locations of \<open>Process\<close>. Semaphore 0 is \<open>start\<close>
  and semaphore 1 is \<open>ready\<close>.
\<close>

datatype hpc = HIdle | HStored | HWaiting | HChecking | HFailed | HChild cpc

record hdata =
  h_cell :: u32
  h_sent :: "u32 list"
  h_received :: "u32 list"

definition wait_call :: call where
  "wait_call = \<lparr>op = Consume, amt = 1, wake_n = 1, timed = True\<rparr>"

fun parent_code :: "hpc \<Rightarrow> (nat \<times> call \<times> (bool \<Rightarrow> hpc)) option" where
  "parent_code HStored = Some (0, one_call Produce, \<lambda>_. HWaiting)"
| "parent_code HWaiting = Some (1, wait_call, \<lambda>got. if got then HIdle else HChecking)"
| "parent_code _ = None"

fun child_code :: "hpc \<Rightarrow> (nat \<times> call \<times> (bool \<Rightarrow> hpc)) option" where
  "child_code (HChild CReady) = Some (1, one_call Produce, \<lambda>_. HChild CStart)"
| "child_code (HChild CStart) = Some (0, one_call Consume, \<lambda>got. HChild (if got then CSwap else CGone))"
| "child_code _ = None"

definition handshake_code :: "nat \<Rightarrow> hpc \<Rightarrow> (nat \<times> call \<times> (bool \<Rightarrow> hpc)) option" where
  "handshake_code t p = (if t = 0 then parent_code p else if t = 1 then child_code p else None)"

inductive handshake_local :: "nat \<Rightarrow> hpc \<Rightarrow> nat set \<Rightarrow> hdata \<Rightarrow> hpc \<Rightarrow> hdata \<Rightarrow> bool" where
  h_store: "handshake_local 0 HIdle gone d HStored (d\<lparr>h_cell := n, h_sent := h_sent d @ [n]\<rparr>)"
| h_dead: "1 \<in> gone \<Longrightarrow> handshake_local 0 HChecking gone d HFailed d"
| h_alive: "1 \<notin> gone \<Longrightarrow> handshake_local 0 HChecking gone d HWaiting d"
| h_set_up: "handshake_local 1 (HChild CSetup) gone d (HChild CReady) d"
| h_swap: "handshake_local 1 (HChild CSwap) gone d (HChild (CRun (h_cell d)))
    (d\<lparr>h_cell := 0, h_received := h_received d @ [h_cell d]\<rparr>)"
| h_done: "handshake_local 1 (HChild (CRun n)) gone d (HChild CReady) d"

definition handshake_client :: "(hpc, hdata) client" where
  "handshake_client = \<lparr>cl_code = handshake_code, cl_local = handshake_local, cl_mortal = {1},
     cl_fresh = (\<lambda>_. Semaphore_new 1 [] 0)\<rparr>"

definition handshake_locs :: "nat \<Rightarrow> hpc" where
  "handshake_locs t = (if t = 0 then HWaiting else HChild CSetup)"

definition handshake_data :: hdata where
  "handshake_data = \<lparr>h_cell = 0, h_sent = [], h_received = []\<rparr>"

lemma handshake_codes:
  assumes "cl_code handshake_client t p = Some (j, c, nx)"
  obtains (release) "t = 0" "p = HStored" "j = 0" "c = one_call Produce" "nx = (\<lambda>_. HWaiting)"
    | (waits) "t = 0" "p = HWaiting" "j = 1" "c = wait_call" "nx = (\<lambda>got. if got then HIdle else HChecking)"
    | (ready) "t = 1" "p = HChild CReady" "j = 1" "c = one_call Produce" "nx = (\<lambda>_. HChild CStart)"
    | (begins) "t = 1" "p = HChild CStart" "j = 0" "c = one_call Consume"
        "nx = (\<lambda>got. HChild (if got then CSwap else CGone))"
  using assms
  by (auto simp: handshake_client_def handshake_code_def split: if_splits
      elim!: parent_code.elims child_code.elims)

interpretation hs: pair_client handshake_client
proof unfold_locales
  show "\<exists>m readings R. cl_fresh handshake_client j = Semaphore_new m readings R" for j
    by (auto simp: handshake_client_def)
  show "unat (amt c) \<le> 1" if "cl_code handshake_client t p = Some (j, c, nx)" for t p j c nx
    using that by (cases rule: handshake_codes) (simp_all add: one_call_def wait_call_def)
  show "t = u"
    if "cl_code handshake_client t p = Some (j, c, nx)" "cl_code handshake_client u q = Some (j, d, ny)"
      "op c = op d" for t p j c nx u q d ny
    using that(1)
  proof (cases rule: handshake_codes)
    case release
    from that(2) show ?thesis
      by (cases rule: handshake_codes) (use release that(3) in \<open>simp_all add: one_call_def\<close>)
  next
    case waits
    from that(2) show ?thesis
      by (cases rule: handshake_codes) (use waits that(3) in \<open>simp_all add: one_call_def wait_call_def\<close>)
  next
    case ready
    from that(2) show ?thesis
      by (cases rule: handshake_codes) (use ready that(3) in \<open>simp_all add: one_call_def wait_call_def\<close>)
  next
    case begins
    from that(2) show ?thesis
      by (cases rule: handshake_codes) (use begins that(3) in \<open>simp_all add: one_call_def\<close>)
  qed
qed

text \<open>The abstract handshake of \<open>Process\<close> that the counters are.\<close>

fun parent_at :: "hpc \<Rightarrow> ppc" where
  "parent_at HIdle = PIdle"
| "parent_at HStored = PStored"
| "parent_at HFailed = PFailed"
| "parent_at _ = PWaiting"

fun child_at :: "hpc \<Rightarrow> cpc" where
  "child_at (HChild c) = c"
| "child_at _ = CGone"

definition psys_of :: "(hpc, hdata) astate \<Rightarrow> psys" where
  "psys_of a = \<lparr>start_tokens = a_tok a 0, ready_tokens = a_tok a 1, iters_cell = h_cell (a_data a),
     child_pc = (if 1 \<in> a_gone a then CGone else child_at (a_loc a 1)), parent_pc = parent_at (a_loc a 0),
     sent = h_sent (a_data a), received = h_received (a_data a)\<rparr>"

text \<open>The child's thread is at a location of the child, and never at the one after a panic.\<close>

definition located :: "(hpc, hdata) astate \<Rightarrow> bool" where
  "located a \<longleftrightarrow> 0 \<notin> a_gone a \<and> a_loc a 0 \<notin> range HChild \<and> (\<exists>c. a_loc a 1 = HChild c \<and> c \<noteq> CGone)"

lemma fresh_max [simp]: "smax (cl_fresh handshake_client j) = 1"
  by (simp add: handshake_client_def Semaphore_new_def WAITER_def)

lemma apply_one: "apply_call (one_call k) n = (case k of Produce \<Rightarrow> n + 1 | Consume \<Rightarrow> n - 1)"
  "apply_call wait_call n = n - 1"
  by (simp_all add: apply_call_def one_call_def wait_call_def split: sem_op.split)

lemma passes_enabled: "enabled 1 (one_call k) (word_of_nat n) = passes k n"
  "enabled 1 wait_call (word_of_nat n) = passes Consume n"
  by (simp_all add: passes_def enabled_def one_call_def wait_call_def)

lemma pstep_eq: "pstep s s' \<Longrightarrow> t = s' \<Longrightarrow> pstep s t"
  by simp

lemma handshake_pass:
  assumes "t \<notin> a_gone a" and "cl_code handshake_client t (a_loc a t) = Some (j, c, nx)"
    and "enabled 1 c (word_of_nat (a_tok a j))" and "located a"
    and "a' = a\<lparr>a_tok := (a_tok a)(j := apply_call c (a_tok a j)), a_loc := (a_loc a)(t := nx True)\<rparr>"
  shows "located a' \<and> pstep (psys_of a) (psys_of a')"
  using assms(2)
proof (cases rule: handshake_codes)
  case release
  then have "pstep (psys_of a) (psys_of a')"
    using assms by (intro pstep_eq [OF pstep.release]) (auto simp: psys_of_def passes_enabled apply_one)
  then show ?thesis using release assms by (auto simp: located_def)
next
  case waits
  then have "pstep (psys_of a) (psys_of a')"
    using assms by (intro pstep_eq [OF pstep.wait_ok]) (auto simp: psys_of_def passes_enabled apply_one)
  then show ?thesis using waits assms by (auto simp: located_def)
next
  case ready
  then have "pstep (psys_of a) (psys_of a')"
    using assms by (intro pstep_eq [OF pstep.ready]) (auto simp: psys_of_def passes_enabled apply_one)
  then show ?thesis using ready assms by (auto simp: located_def)
next
  case begins
  then have "pstep (psys_of a) (psys_of a')"
    using assms by (intro pstep_eq [OF pstep.begin_round]) (auto simp: psys_of_def passes_enabled apply_one)
  then show ?thesis using begins assms by (auto simp: located_def)
qed

lemma handshake_alone:
  assumes "t \<notin> a_gone a" and "handshake_local t (a_loc a t) (a_gone a) (a_data a) p d" and "located a"
    and "a' = a\<lparr>a_loc := (a_loc a)(t := p), a_data := d\<rparr>"
  shows "located a' \<and> (psys_of a' = psys_of a \<or> pstep (psys_of a) (psys_of a'))"
  using assms(2)
proof (cases rule: handshake_local.cases)
  case (h_store n)
  then have "pstep (psys_of a) (psys_of a')"
    using assms by (intro pstep_eq [OF pstep.store [where n = n]]) (auto simp: psys_of_def)
  then show ?thesis using h_store assms by (auto simp: located_def)
next
  case h_dead
  then have "pstep (psys_of a) (psys_of a')"
    using assms by (intro pstep_eq [OF pstep.wait_failed]) (auto simp: psys_of_def)
  then show ?thesis using h_dead assms by (auto simp: located_def)
next
  case h_alive
  then show ?thesis using assms by (auto simp: located_def psys_of_def)
next
  case h_set_up
  then have "pstep (psys_of a) (psys_of a')"
    using assms by (intro pstep_eq [OF pstep.set_up]) (auto simp: psys_of_def)
  then show ?thesis using h_set_up assms by (auto simp: located_def)
next
  case h_swap
  then have "pstep (psys_of a) (psys_of a')"
    using assms by (intro pstep_eq [OF pstep.swap]) (auto simp: psys_of_def)
  then show ?thesis using h_swap assms by (auto simp: located_def)
next
  case (h_done n)
  then have "pstep (psys_of a) (psys_of a')"
    using assms by (intro pstep_eq [OF pstep.round_done [where n = n]]) (auto simp: psys_of_def)
  then show ?thesis using h_done assms by (auto simp: located_def)
qed

lemma handshake_astep:
  assumes "counter_step handshake_client a a'" and "located a"
  shows "located a' \<and> (psys_of a' = psys_of a \<or> pstep (psys_of a) (psys_of a'))"
  using assms(1)
proof (cases rule: counter_step.cases)
  case (pass t j c nx)
  then show ?thesis using handshake_pass [OF pass(2,3) _ assms(2) pass(1)] by simp
next
  case (expire t j c nx)
  from expire(3) show ?thesis
    by (cases rule: handshake_codes)
      (use expire assms(2) in \<open>auto simp: located_def psys_of_def one_call_def\<close>)
next
  case (alone t p d)
  have "handshake_local t (a_loc a t) (a_gone a) (a_data a) p d"
    using alone(4) by (simp add: handshake_client_def)
  from handshake_alone [OF alone(2) this assms(2) alone(1)] show ?thesis .
next
  case (kill t)
  then have "t = 1" by (simp add: handshake_client_def)
  then have "located a'" and gone: "child_pc (psys_of a') = CGone"
    "psys_of a' = (psys_of a)\<lparr>child_pc := CGone\<rparr>"
    using kill(1) assms(2) by (auto simp: located_def psys_of_def)
  moreover have "psys_of a' = psys_of a \<or> pstep (psys_of a) (psys_of a')"
    using gone(2) pstep.exit [of "psys_of a"] by (cases "child_pc (psys_of a) = CGone") simp_all
  ultimately show ?thesis by simp
qed

lemma handshake_a_reach:
  "a_reach handshake_client handshake_locs handshake_data a \<Longrightarrow> located a \<and> preachable (psys_of a)"
proof (induction rule: a_reach.induct)
  case start
  have "psys_of (a_init handshake_locs handshake_data) = psys_init"
    by (simp add: psys_of_def a_init_def handshake_locs_def handshake_data_def psys_init_def)
  then show ?case
    using preachable.init by (simp add: located_def) (auto simp: a_init_def handshake_locs_def)
next
  case (step a a')
  then show ?case using handshake_astep [OF step.hyps(2)] preachable.step by metis
qed

text \<open>While the child lives, one of the two can go on.\<close>

lemma enabled_wait [simp]: "enabled 1 wait_call 1"
  by (simp add: enabled_def wait_call_def)

lemma handshake_ready:
  assumes "located a" and "preachable (psys_of a)" and "a_gone a = {}"
  shows "\<exists>t. a_ready handshake_client a t"
proof -
  have inv: "handshake_inv (psys_of a)" using assms(2) by (rule handshake_reachable)
  obtain c where c: "a_loc a 1 = HChild c" "c \<noteq> CGone" using assms(1) by (auto simp: located_def)
  then have child: "child_pc (psys_of a) = c" using assms(3) by (simp add: psys_of_def)
  note simps = a_ready_def handshake_client_def handshake_code_def passes_enabled Semaphore_new_def WAITER_def
  have local: "a_ready handshake_client a 1" if "c = CSetup \<or> c = CSwap \<or> (\<exists>n. c = CRun n)"
  proof -
    have "\<exists>p d. handshake_local 1 (a_loc a 1) (a_gone a) (a_data a) p d"
      using that c(1) by (metis handshake_local.intros(4-6))
    moreover have "cl_code handshake_client 1 (a_loc a 1) = None"
      using that c(1) by (auto simp: handshake_client_def handshake_code_def)
    ultimately show ?thesis using assms(3) by (simp add: a_ready_def) (simp add: handshake_client_def)
  qed
  have toks: "start_tokens (psys_of a) = a_tok a 0" "ready_tokens (psys_of a) = a_tok a 1"
    "parent_pc (psys_of a) = parent_at (a_loc a 0)" by (simp_all add: psys_of_def)
  show ?thesis
  proof (cases "a_loc a 0")
    case HIdle
    then have "a_ready handshake_client a 0" using assms(3) by (auto simp: simps intro: handshake_local.intros)
    then show ?thesis ..
  next
    case HStored
    then have "a_tok a 0 = 0" using inv toks by (simp add: handshake_inv_def)
    then have "a_ready handshake_client a 0" using HStored assms(3) by (simp add: simps enabled_def one_call_def)
    then show ?thesis ..
  next
    case HWaiting
    then have w: "parent_pc (psys_of a) = PWaiting" using toks by simp
    have rdy: "a_ready handshake_client a 1" if "c = CReady"
      using that c(1) assms(3) inv w child toks by (auto simp: simps passes_produce handshake_inv_def taken_def pending_def)
    have "a_ready handshake_client a 0 \<or> a_ready handshake_client a 1" if "c = CStart"
    proof -
      have "a_tok a 0 = 1 \<or> a_tok a 1 = 1"
        using inv w child that toks by (auto simp: handshake_inv_def taken_def pending_def)
      then show ?thesis
        using HWaiting that c(1) assms(3) by (auto simp: simps passes_consume)
    qed
    then show ?thesis using rdy local c(2) by (cases c) auto
  next
    case HChecking
    then have "a_ready handshake_client a 0" using assms(3) by (auto simp: simps intro: handshake_local.intros)
    then show ?thesis ..
  next
    case HFailed
    then show ?thesis using inv toks child c(2) by (simp add: handshake_inv_def)
  next
    case (HChild d)
    then show ?thesis using assms(1) by (auto simp: located_def)
  qed
qed

text \<open>A state on the way: the parent has looked for the child and fallen asleep.\<close>

definition parent_sleeps :: "(nat \<times> act) list" where
  "parent_sleeps = [(0, Call 0 wait_call), (0, Run 0), (0, Run 0), (0, Run 0), (0, Run 0)]"

lemma parent_sleeps_reach:
  "\<exists>s. c_reach True handshake_client handshake_locs handshake_data s \<and> c_gone s = {}
    \<and> c_loc s 0 = HWaiting \<and> is_asleep (spc_at s 1 wait_call)"
proof -
  let ?s0 = "c_init handshake_client handshake_locs handshake_data"
  have "\<exists>s. c_accesses True handshake_client parent_sleeps ?s0 = Some s \<and> c_gone s = {}
    \<and> c_loc s 0 = HWaiting \<and> is_asleep (spc_at s 1 wait_call)"
    by (simp add: parent_sleeps_def c_init_def handshake_client_def handshake_code_def handshake_locs_def
        handshake_data_def role_def wait_call_def sem_init_def Semaphore_new_def SplitTimer_new_def
        ReservoirSampler_new_def act_simps numeral_2_eq_2)
  then obtain s where run: "c_accesses True handshake_client parent_sleeps ?s0 = Some s"
    and s: "c_gone s = {}" "c_loc s 0 = HWaiting" "is_asleep (spc_at s 1 wait_call)" by (elim exE conjE)
  from c_accesses_reach [OF run c_reach.start] s show ?thesis by (intro exI conjI)
qed

section \<open>Properties of the handshake\<close>

text \<open>
  C7. The handshake over the semaphores themselves refines the abstract handshake: for every
  interleaving of the atomic accesses of parent and child, with spurious failures, timeouts,
  interrupts, and the child killed between any two of them, the counters are a state that the
  handshake of whole operations reaches. So the child has taken exactly the counts the parent
  stored, in order, at most one behind, and all of them when the parent is back.
\<close>

theorem atomic_handshake_refines:
  assumes "c_reach oc handshake_client handshake_locs handshake_data s"
  shows "preachable (psys_of (counters handshake_client s))
    \<and> prefix (h_received (c_data s)) (h_sent (c_data s))
    \<and> length (h_sent (c_data s)) \<le> length (h_received (c_data s)) + 1
    \<and> (c_loc s 0 = HIdle \<longrightarrow> h_received (c_data s) = h_sent (c_data s))"
proof -
  let ?a = "counters handshake_client s"
  have reach: "preachable (psys_of ?a)"
    using handshake_a_reach [OF hs.refines [OF assms]] by simp
  note inv = handshake_reachable [OF this]
  have "parent_pc (psys_of ?a) = PIdle" if "c_loc s 0 = HIdle"
    using that by (simp add: psys_of_def counters_def loc_of_def handshake_client_def handshake_code_def)
  moreover have "received (psys_of ?a) = h_received (c_data s)" "sent (psys_of ?a) = h_sent (c_data s)"
    by (simp_all add: psys_of_def counters_def)
  moreover have "prefix (received (psys_of ?a)) (sent (psys_of ?a))
      \<and> length (sent (psys_of ?a)) \<le> length (received (psys_of ?a)) + 1
      \<and> (parent_pc (psys_of ?a) = PIdle \<longrightarrow> received (psys_of ?a) = sent (psys_of ?a))"
    using inv by (auto simp: handshake_inv_def taken_def pending_def split: ppc.splits)
  ultimately show ?thesis using reach by simp
qed

theorem atomic_handshake_refines_witness:
  "\<exists>s. is_asleep (spc_at s 1 wait_call) \<and> preachable (psys_of (counters handshake_client s))"
  using parent_sleeps_reach atomic_handshake_refines by blast

text \<open>
  C8. Parent and child never sleep on each other: while the child lives, in every state that
  the atomic accesses reach, one of the two is awake and has a step of its own; the one second
  timeout of the parent is not what keeps the handshake going.
\<close>

theorem atomic_handshake_never_asleep:
  assumes "c_reach oc handshake_client handshake_locs handshake_data s" and "c_gone s = {}"
  shows "\<exists>t. c_awake handshake_client s t
    \<and> (\<exists>s'. thread_step oc handshake_client t s s' \<and> c_gone s' = {})"
proof -
  let ?a = "counters handshake_client s"
  have "a_gone ?a = {}" using assms(2) by (simp add: counters_def)
  then obtain t where "a_ready handshake_client ?a t"
    using handshake_a_reach [OF hs.refines [OF assms(1)]] handshake_ready by blast
  moreover have "timers (wake (cl_fresh handshake_client j)) = []" for j
    by (simp add: handshake_client_def Semaphore_new_def SplitTimer_new_def)
  ultimately obtain u where "c_awake handshake_client s u"
    using hs.progress [OF assms] by blast
  then show ?thesis using hs.awake_steps [OF assms(1)] assms(2) by metis
qed

theorem atomic_handshake_never_asleep_witness:
  "\<exists>s t. is_asleep (spc_at s 1 wait_call) \<and> c_awake handshake_client s t"
  using parent_sleeps_reach atomic_handshake_never_asleep by blast

end
