(* ===== verification/Rounds.thy ===== *)
theory Rounds
  imports Client Cases
begin

text \<open>
  The loops of the ping-pong benchmark (\<open>cases/basic.rs\<close>) and of the latency test
  (\<open>cases/latency.rs\<close>) over the semaphores themselves, every atomic access a step. Each process
  of the benchmark, and the pair of threads in each process of the test, is a client in the
  sense of \<open>Client\<close>. A bound on the iterations of the producing side stands for the counts
  that \<open>get_iters\<close> hands out: between two rounds these semaphores are not touched.
\<close>

section \<open>Ping-pong\<close>

text \<open>
  Thread 0 is the first process, thread 1 the second; semaphore 0 is \<open>sem1\<close> and 1 is \<open>sem2\<close>. The
  location is the number of operations done. \<open>readings\<close> are the clock readings with which the
  timers of each semaphore were made.
\<close>

definition ping_pong_code :: "nat \<Rightarrow> nat \<Rightarrow> nat \<Rightarrow> (nat \<times> call \<times> (bool \<Rightarrow> nat)) option" where
  "ping_pong_code iters t k =
     (if t < 2 \<and> k < 2 * iters
      then Some (if even k then (t, one_call Produce, \<lambda>_. Suc k) else (1 - t, one_call Consume, \<lambda>_. Suc k))
      else None)"

definition ping_pong_client ::
    "(nat \<Rightarrow> (instant \<times> instant) list) \<Rightarrow> nat \<Rightarrow> (nat, unit) client" where
  "ping_pong_client readings iters = \<lparr>cl_code = ping_pong_code iters, cl_local = (\<lambda>_ _ _ _ _ _. False),
     cl_mortal = {}, cl_fresh = (\<lambda>j. Semaphore_new 1 (readings j) 1024)\<rparr>"

lemma ping_pong_simps [simp]:
  "cl_code (ping_pong_client rs iters) = ping_pong_code iters"
  "cl_local (ping_pong_client rs iters) t p gone d p' d' = False"
  "cl_mortal (ping_pong_client rs iters) = {}"
  "smax (cl_fresh (ping_pong_client rs iters) j) = 1"
  by (simp_all add: ping_pong_client_def Semaphore_new_def WAITER_def)

interpretation pp: pair_client "ping_pong_client rs iters" for rs iters
proof unfold_locales
  show "\<exists>m readings R. cl_fresh (ping_pong_client rs iters) j = Semaphore_new m readings R" for j
    by (auto simp: ping_pong_client_def)
  show "unat (amt c) \<le> 1" if "cl_code (ping_pong_client rs iters) t p = Some (j, c, nx)" for t p j c nx
    using that by (auto simp: ping_pong_code_def one_call_def split: if_splits)
  show "t = u"
    if "cl_code (ping_pong_client rs iters) t p = Some (j, c, nx)"
      "cl_code (ping_pong_client rs iters) u q = Some (j, d, ny)" "op c = op d" for t p j c nx u q d ny
    using that by (auto simp: ping_pong_code_def one_call_def less_2_cases_iff split: if_splits)
qed

definition ping_pong_of :: "(nat, unit) astate \<Rightarrow> ping_pong" where
  "ping_pong_of a = \<lparr>sem1 = a_tok a 0, sem2 = a_tok a 1, adone = a_loc a 0, bdone = a_loc a 1\<rparr>"

lemma enabled_passes: "enabled 1 (one_call k) (word_of_nat n) = passes k n"
  by (simp add: passes_def)

lemma apply_one_call [simp]:
  "apply_call (one_call Produce) n = n + 1" "apply_call (one_call Consume) n = n - 1"
  by (simp_all add: apply_call_def one_call_def)

lemma ping_pong_counter_step:
  assumes "counter_step (ping_pong_client rs iters) a a'"
  shows "a_step iters (ping_pong_of a) = Some (ping_pong_of a')
    \<or> b_step iters (ping_pong_of a) = Some (ping_pong_of a')"
  using assms
proof (cases rule: counter_step.cases)
  case (pass t j c nx)
  then have "t = 0 \<or> t = 1" by (auto simp: ping_pong_code_def split: if_splits)
  then show ?thesis
    using pass by (auto simp: ping_pong_code_def ping_pong_of_def a_step_def b_step_def own_turn_def
        enabled_passes split: if_splits)
next
  case (expire t j c nx)
  then show ?thesis by (auto simp: ping_pong_code_def one_call_def split: if_splits)
qed simp_all

lemma ping_pong_a_reach:
  "a_reach (ping_pong_client rs iters) (\<lambda>_. 0) () a \<Longrightarrow> pp_reach iters (ping_pong_of a) \<and> a_gone a = {}"
proof (induction rule: a_reach.induct)
  case start
  then show ?case using pp_reach.fresh by (simp add: ping_pong_of_def a_init_def)
next
  case (step a a')
  have "a_gone a' = {}" using step.hyps(2) step.IH by (cases rule: counter_step.cases) simp_all
  moreover have "pp_reach iters (ping_pong_of a')"
    using ping_pong_counter_step [OF step.hyps(2)] step.IH by (blast intro: pp_reach.intros)
  ultimately show ?case by simp
qed

lemma ping_pong_ready:
  assumes "pp_reach iters (ping_pong_of a)" and "a_gone a = {}"
  shows "a_loc a 0 = 2 * iters \<and> a_loc a 1 = 2 * iters \<and> a_tok a 0 = 0 \<and> a_tok a 1 = 0
    \<or> (\<exists>t. a_ready (ping_pong_client rs iters) a t)"
proof -
  have "a_ready (ping_pong_client rs iters) a 0" if "a_step iters (ping_pong_of a) \<noteq> None"
    using that assms(2) by (auto simp: a_ready_def ping_pong_code_def a_step_def ping_pong_of_def own_turn_def
        enabled_passes split: if_splits)
  moreover have "a_ready (ping_pong_client rs iters) a 1" if "b_step iters (ping_pong_of a) \<noteq> None"
    using that assms(2) by (auto simp: a_ready_def ping_pong_code_def b_step_def ping_pong_of_def own_turn_def
        enabled_passes split: if_splits)
  ultimately show ?thesis using pp_progress [OF assms(1)] by (auto simp: ping_pong_of_def)
qed

text \<open>
  C19. A ping-pong round over the semaphores themselves: whatever the interleaving of the atomic
  accesses, the two processes are at a state that the loop of whole operations reaches; and
  unless both are through all their operations and the semaphores are empty again, one of them
  is awake and has a step, or a timer's cookie has overflowed in a panic.
\<close>

theorem ping_pong_atomic_round:
  assumes "c_reach oc (ping_pong_client rs iters) (\<lambda>_. 0) () s"
  shows "pp_reach iters (ping_pong_of (counters (ping_pong_client rs iters) s))
    \<and> ((\<forall>t < 2. loc_of (ping_pong_client rs iters) s t = 2 * iters) \<and> tokens (c_sem s 0) = 0 \<and> tokens (c_sem s 1) = 0
       \<or> (\<exists>t s'. c_awake (ping_pong_client rs iters) s t \<and> thread_step oc (ping_pong_client rs iters) t s s')
       \<or> (\<exists>j c. is_panic (spc_at s j c)))"
proof -
  let ?C = "ping_pong_client rs iters"
  have a: "pp_reach iters (ping_pong_of (counters ?C s))" and "a_gone (counters ?C s) = {}"
    using ping_pong_a_reach [OF pp.refines [OF assms]] by simp_all
  then have gone: "a_gone (counters ?C s) = {}" "c_gone s = {}" by (simp_all add: counters_def)
  from ping_pong_ready [OF a gone(1), of rs] consider
      (through) "\<forall>t < 2. loc_of ?C s t = 2 * iters" "tokens (c_sem s 0) = 0" "tokens (c_sem s 1) = 0"
    | (ready) t where "a_ready ?C (counters ?C s) t"
    by (auto simp: counters_def less_2_cases_iff)
  then show ?thesis
  proof cases
    case through
    then show ?thesis using a by blast
  next
    case ready
    from pp.not_stuck [OF assms gone(2) ready] show ?thesis
      using a pp.awake_steps [OF assms] by blast
  qed
qed

lemma sem_init_two: "sem_init s 2 = \<lparr>ssem = s, spcs = [SIdle, SIdle], produced = 0, consumed = 0\<rparr>"
  by (simp add: sem_init_def numeral_2_eq_2)

text \<open>The first process has produced and fallen asleep on the other semaphore.\<close>

definition first_sleeps :: "(nat \<times> act) list" where
  "first_sleeps = [(0, Call 1 (one_call Produce)), (0, Run 1), (0, Run 1), (0, Run 1),
     (0, Call 0 (one_call Consume)), (0, Run 0), (0, Run 0), (0, Run 0), (0, Run 0)]"

theorem ping_pong_atomic_round_witness:
  "\<exists>s. tokens (c_sem s 0) = 1 \<and> is_asleep (spc_at s 1 (one_call Consume))
    \<and> (\<exists>t s'. c_awake (ping_pong_client (\<lambda>_. []) 1) s t \<and> thread_step True (ping_pong_client (\<lambda>_. []) 1) t s s')"
proof -
  let ?C = "ping_pong_client (\<lambda>_. []) 1" and ?p = "\<lambda>_. 0 :: nat"
  have "\<exists>s. c_accesses True ?C first_sleeps (c_init ?C ?p ()) = Some s \<and> tokens (c_sem s 0) = 1
    \<and> is_asleep (spc_at s 1 (one_call Consume)) \<and> \<not> is_panic (spcs (c_sem s 0) ! 0)"
    by (simp add: first_sleeps_def c_init_def ping_pong_client_def ping_pong_code_def one_call_def
        role_def sem_init_two Semaphore_new_def SplitTimer_new_def tokens_def act_simps)
  then obtain s where run: "c_accesses True ?C first_sleeps (c_init ?C ?p ()) = Some s"
    and s: "tokens (c_sem s 0) = 1" "is_asleep (spc_at s 1 (one_call Consume))" by (elim exE conjE)
  have reach: "c_reach True ?C ?p () s" by (rule c_accesses_reach [OF run c_reach.start])
  have calm: "\<not> is_panic (spc_at s j c)" for j c
    by (rule pp.no_panic_at [OF reach]) (simp add: ping_pong_client_def Semaphore_new_def SplitTimer_new_def)
  have "tokens (c_sem s 0) \<noteq> 0" using s(1) by simp
  then have "\<exists>t s'. c_awake ?C s t \<and> thread_step True ?C t s s'"
    using ping_pong_atomic_round [OF reach] calm by metis
  then show ?thesis using s by blast
qed

section \<open>Requests and replies\<close>

text \<open>
  Each process of \<open>adaptive_priority\<close> has two threads: the main one (thread 0) produces a request
  and consumes the reply, \<open>iters\<close> times in all; the worker (thread 1) consumes a request, pauses
  and produces the reply, for ever. Semaphore 0 carries the requests, semaphore 1 the replies.
  The worker's locations count the replies it has given; \<open>WPause\<close> holds the pauses left.
\<close>

datatype pause = Spins nat | Sleeps nat

datatype worker = WTake nat | WPause nat "pause list"

fun request_code :: "nat \<Rightarrow> nat + worker \<Rightarrow> (nat \<times> call \<times> (bool \<Rightarrow> nat + worker)) option" where
  "request_code iters (Inl k) =
     (if k < 2 * iters
      then Some (if even k then (0, one_call Produce, \<lambda>_. Inl (Suc k)) else (1, one_call Consume, \<lambda>_. Inl (Suc k)))
      else None)"
| "request_code iters _ = None"

fun worker_code ::
    "pause list \<Rightarrow> nat + worker \<Rightarrow> (nat \<times> call \<times> (bool \<Rightarrow> nat + worker)) option" where
  "worker_code ps (Inr (WTake n)) = Some (0, one_call Consume, \<lambda>_. Inr (WPause n ps))"
| "worker_code ps (Inr (WPause n [])) = Some (1, one_call Produce, \<lambda>_. Inr (WTake (Suc n)))"
| "worker_code ps _ = None"

definition latency_code ::
    "pause list \<Rightarrow> nat \<Rightarrow> nat \<Rightarrow> nat + worker \<Rightarrow> (nat \<times> call \<times> (bool \<Rightarrow> nat + worker)) option" where
  "latency_code ps iters t p =
     (if t = 0 then request_code iters p else if t = 1 then worker_code ps p else None)"

inductive latency_local :: "nat \<Rightarrow> nat + worker \<Rightarrow> nat set \<Rightarrow> unit \<Rightarrow> nat + worker \<Rightarrow> unit \<Rightarrow> bool" where
  paused: "latency_local 1 (Inr (WPause n (p # ps))) gone d (Inr (WPause n ps)) d"

definition latency_client ::
    "(nat \<Rightarrow> (instant \<times> instant) list) \<Rightarrow> pause list \<Rightarrow> nat \<Rightarrow> (nat + worker, unit) client" where
  "latency_client readings ps iters = \<lparr>cl_code = latency_code ps iters, cl_local = latency_local,
     cl_mortal = {}, cl_fresh = (\<lambda>j. Semaphore_new 1 (readings j) 1024)\<rparr>"

text \<open>
  The slow process spins for ten milliseconds; the fast one spins for a tenth of one and sleeps
  for the rest of ten. Their semaphores take two clock readings each.
\<close>

definition slow_client ::
    "(nat \<Rightarrow> (instant \<times> instant) list) \<Rightarrow> nat \<Rightarrow> (nat + worker, unit) client" where
  "slow_client readings iters = latency_client readings [Spins (10 * 10 ^ 6)] iters"

definition fast_client ::
    "(nat \<Rightarrow> (instant \<times> instant) list) \<Rightarrow> nat \<Rightarrow> (nat + worker, unit) client" where
  "fast_client readings iters = latency_client readings [Spins 100000, Sleeps (10000000 - 100000)] iters"

definition latency_locs :: "nat \<Rightarrow> nat + worker" where
  "latency_locs t = (if t = 0 then Inl 0 else Inr (WTake 0))"

lemma latency_simps [simp]:
  "cl_code (latency_client rs ps iters) = latency_code ps iters"
  "cl_local (latency_client rs ps iters) = latency_local"
  "cl_mortal (latency_client rs ps iters) = {}"
  "smax (cl_fresh (latency_client rs ps iters) j) = 1"
  by (simp_all add: latency_client_def Semaphore_new_def WAITER_def)

lemma latency_codes:
  assumes "latency_code ps iters t p = Some (j, c, nx)"
  obtains (request) k where "t = 0" "p = Inl k" "k < 2 * iters" "even k" "j = 0" "c = one_call Produce"
        "nx = (\<lambda>_. Inl (Suc k))"
    | (reply) k where "t = 0" "p = Inl k" "k < 2 * iters" "odd k" "j = 1" "c = one_call Consume"
        "nx = (\<lambda>_. Inl (Suc k))"
    | (take) n where "t = 1" "p = Inr (WTake n)" "j = 0" "c = one_call Consume" "nx = (\<lambda>_. Inr (WPause n ps))"
    | (give) n where "t = 1" "p = Inr (WPause n [])" "j = 1" "c = one_call Produce"
        "nx = (\<lambda>_. Inr (WTake (Suc n)))"
  using assms
  by (auto simp: latency_code_def split: if_splits elim!: request_code.elims worker_code.elims)

interpretation lat: pair_client "latency_client rs ps iters" for rs ps iters
proof unfold_locales
  show "\<exists>m readings R. cl_fresh (latency_client rs ps iters) j = Semaphore_new m readings R" for j
    by (auto simp: latency_client_def)
  show "unat (amt c) \<le> 1" if "cl_code (latency_client rs ps iters) t p = Some (j, c, nx)" for t p j c nx
    using that [simplified] by (cases rule: latency_codes) (simp_all add: one_call_def)
  have who: "t = (if op c = Produce \<longleftrightarrow> j = 0 then 0 else 1)"
    if "latency_code ps iters t p = Some (j, c, nx)" for t p j c nx
    using that by (cases rule: latency_codes) (simp_all add: one_call_def)
  show "t = u"
    if "cl_code (latency_client rs ps iters) t p = Some (j, c, nx)"
      "cl_code (latency_client rs ps iters) u q = Some (j, d, ny)" "op c = op d" for t p j c nx u q d ny
    using who [of t p j c nx] who [of u q j d ny] that by simp
qed

text \<open>What the main thread has asked and got, and the worker taken and given.\<close>

fun taken_by :: "worker \<Rightarrow> nat" where
  "taken_by (WTake n) = n"
| "taken_by (WPause n ps) = Suc n"

fun given_by :: "worker \<Rightarrow> nat" where
  "given_by (WTake n) = n"
| "given_by (WPause n ps) = n"

definition latency_inv :: "nat \<Rightarrow> (nat + worker, unit) astate \<Rightarrow> bool" where
  "latency_inv iters a \<longleftrightarrow> a_gone a = {} \<and> a_tok a 0 \<le> 1 \<and> a_tok a 1 \<le> 1
     \<and> (\<exists>k w. a_loc a 0 = Inl k \<and> a_loc a 1 = Inr w \<and> k \<le> 2 * iters
         \<and> a_tok a 0 + taken_by w = (k + 1) div 2 \<and> a_tok a 1 + k div 2 = given_by w)"

lemma latency_step:
  assumes "counter_step (latency_client rs ps iters) a a'" and "latency_inv iters a"
  shows "latency_inv iters a'"
proof -
  obtain k w where inv: "a_gone a = {}" "a_tok a 0 \<le> 1" "a_tok a 1 \<le> 1" "a_loc a 0 = Inl k" "a_loc a 1 = Inr w"
    "k \<le> 2 * iters" "a_tok a 0 + taken_by w = (k + 1) div 2" "a_tok a 1 + k div 2 = given_by w"
    using assms(2) by (auto simp: latency_inv_def)
  from assms(1) show ?thesis
  proof (cases rule: counter_step.cases)
    case (pass t j c nx)
    have code: "latency_code ps iters t (a_loc a t) = Some (j, c, nx)" using pass(3) by simp
    then show ?thesis
    proof (cases rule: latency_codes)
      case (request m)
      then have "a_tok a 0 = 0" using pass(4) inv by (simp add: enabled_passes passes_produce)
      then show ?thesis using request pass(1) inv by (auto simp: latency_inv_def elim!: evenE)
    next
      case (reply m)
      then have "a_tok a 1 = 1" using pass(4) inv by (simp add: enabled_passes passes_consume)
      then show ?thesis using reply pass(1) inv by (auto simp: latency_inv_def elim!: oddE)
    next
      case (take n)
      then have "a_tok a 0 = 1" using pass(4) inv by (simp add: enabled_passes passes_consume)
      then show ?thesis using take pass(1) inv by (auto simp: latency_inv_def)
    next
      case (give n)
      then have "a_tok a 1 = 0" using pass(4) inv by (simp add: enabled_passes passes_produce)
      then show ?thesis using give pass(1) inv by (auto simp: latency_inv_def)
    qed
  next
    case (expire t j c nx)
    have "latency_code ps iters t (a_loc a t) = Some (j, c, nx)" using expire(3) by simp
    then show ?thesis using expire(4) by (cases rule: latency_codes) (simp_all add: one_call_def)
  next
    case (alone t p d)
    have "latency_local t (a_loc a t) (a_gone a) (a_data a) p d" using alone(4) by simp
    then show ?thesis using alone(1) inv by cases (auto simp: latency_inv_def)
  qed simp
qed

lemma latency_a_reach:
  "a_reach (latency_client rs ps iters) latency_locs () a \<Longrightarrow> latency_inv iters a"
proof (induction rule: a_reach.induct)
  case start
  show ?case by (auto simp: latency_inv_def a_init_def latency_locs_def)
qed (rule latency_step)

lemma latency_ready:
  assumes "latency_inv iters a" and "a_loc a 0 \<noteq> Inl (2 * iters)"
  shows "\<exists>t. a_ready (latency_client rs ps iters) a t"
proof -
  obtain k w where inv: "a_gone a = {}" "a_tok a 0 \<le> 1" "a_tok a 1 \<le> 1" "a_loc a 0 = Inl k" "a_loc a 1 = Inr w"
    "k < 2 * iters" "a_tok a 0 + taken_by w = (k + 1) div 2" "a_tok a 1 + k div 2 = given_by w"
    using assms by (auto simp: latency_inv_def)
  note simps = a_ready_def latency_code_def enabled_passes passes_produce passes_consume
  have le: "given_by w \<le> taken_by w" by (cases w) simp_all
  show ?thesis
  proof (cases "even k")
    case True
    then have "a_tok a 0 = 0" using inv(7,8) le by (auto elim!: evenE)
    then have "a_ready (latency_client rs ps iters) a 0" using True inv by (simp add: simps)
    then show ?thesis ..
  next
    case odd: False
    show ?thesis
    proof (cases "a_tok a 1 = 1")
      case True
      then have "a_ready (latency_client rs ps iters) a 0" using odd inv by (simp add: simps)
      then show ?thesis ..
    next
      case False
      then have none: "a_tok a 1 = 0" using inv(3) by simp
      have "a_ready (latency_client rs ps iters) a 1"
      proof (cases w)
        case (WTake n)
        then have "a_tok a 0 = 1" using inv(7,8) none odd by (auto elim!: oddE)
        then show ?thesis using WTake inv by (simp add: simps)
      next
        case (WPause n qs)
        show ?thesis
        proof (cases qs)
          case Nil
          then show ?thesis using WPause none inv by (simp add: simps)
        next
          case (Cons q qs')
          then have "\<exists>p d. latency_local 1 (a_loc a 1) (a_gone a) (a_data a) p d"
            using inv(5) WPause latency_local.paused by metis
          then show ?thesis using WPause Cons inv by (simp add: simps)
        qed
      qed
      then show ?thesis ..
    qed
  qed
qed

text \<open>
  C20. In each process of the latency test, whatever the interleaving of the atomic accesses,
  every request is served once and answered once: the replies given never run ahead of the
  requests made nor fall behind the replies taken, and when the main thread is through its
  rounds the worker has answered exactly that many times and waits for the next request. Until
  then one of the two threads is awake and has a step, or a timer's cookie has overflowed.
\<close>

theorem latency_atomic_rounds:
  assumes "c_reach oc (latency_client rs ps iters) latency_locs () s"
  shows "\<exists>k w. loc_of (latency_client rs ps iters) s 0 = Inl k \<and> loc_of (latency_client rs ps iters) s 1 = Inr w
    \<and> k div 2 \<le> given_by w \<and> given_by w \<le> taken_by w \<and> taken_by w \<le> (k + 1) div 2
    \<and> (k = 2 * iters \<longrightarrow> w = WTake iters)
    \<and> (k \<noteq> 2 * iters \<longrightarrow> (\<exists>t s'. c_awake (latency_client rs ps iters) s t \<and> thread_step oc (latency_client rs ps iters) t s s')
         \<or> (\<exists>j c. is_panic (spc_at s j c)))"
proof -
  let ?C = "latency_client rs ps iters"
  have inv: "latency_inv iters (counters ?C s)" by (rule latency_a_reach [OF lat.refines [OF assms]])
  then have gone: "c_gone s = {}" by (simp add: latency_inv_def counters_def)
  obtain k w where kw: "loc_of ?C s 0 = Inl k" "loc_of ?C s 1 = Inr w" "taken_by w \<le> (k + 1) div 2"
    "k div 2 \<le> given_by w"
    using inv by (auto simp: latency_inv_def counters_def)
  have le: "given_by w \<le> taken_by w" by (cases w) simp_all
  have "w = WTake iters" if "k = 2 * iters" using that kw(3,4) by (cases w) simp_all
  moreover have "(\<exists>t s'. c_awake ?C s t \<and> thread_step oc ?C t s s') \<or> (\<exists>j c. is_panic (spc_at s j c))"
    if "k \<noteq> 2 * iters"
  proof -
    have "a_loc (counters ?C s) 0 \<noteq> Inl (2 * iters)" using that kw(1) by (simp add: counters_def)
    from latency_ready [OF inv this] obtain t where "a_ready ?C (counters ?C s) t" by blast
    from lat.not_stuck [OF assms gone this] show ?thesis using lat.awake_steps [OF assms] by blast
  qed
  ultimately show ?thesis using kw le by blast
qed

text \<open>The worker has taken the first request and is about to spin.\<close>

definition first_request :: "(nat \<times> act) list" where
  "first_request = [(0, Call 1 (one_call Produce)), (0, Run 1), (0, Run 1),
     (1, Call 0 (one_call Consume)), (1, Run 0), (1, Run 0)]"

theorem latency_atomic_rounds_witness:
  "\<exists>s t. loc_of (fast_client (\<lambda>_. []) 3) s 0 = Inl 1 \<and> loc_of (fast_client (\<lambda>_. []) 3) s 1 = Inr (WPause 0 [Spins 100000, Sleeps (10000000 - 100000)])
    \<and> c_awake (fast_client (\<lambda>_. []) 3) s t"
proof -
  let ?C = "latency_client (\<lambda>_. []) [Spins 100000, Sleeps (10000000 - 100000)] 3"
  have "\<exists>s. c_accesses True ?C first_request (c_init ?C latency_locs ()) = Some s
    \<and> loc_of ?C s 0 = Inl 1 \<and> loc_of ?C s 1 = Inr (WPause 0 [Spins 100000, Sleeps (10000000 - 100000)])"
    by (simp add: first_request_def c_init_def latency_client_def latency_code_def latency_locs_def
        one_call_def role_def sem_init_two Semaphore_new_def SplitTimer_new_def loc_of_def passed_def act_simps)
  then obtain s where run: "c_accesses True ?C first_request (c_init ?C latency_locs ()) = Some s"
    and s: "loc_of ?C s 0 = Inl 1" "loc_of ?C s 1 = Inr (WPause 0 [Spins 100000, Sleeps (10000000 - 100000)])" by (elim exE conjE)
  have reach: "c_reach True ?C latency_locs () s" by (rule c_accesses_reach [OF run c_reach.start])
  have calm: "\<not> is_panic (spc_at s j c)" for j c
    by (rule lat.no_panic_at [OF reach]) (simp add: latency_client_def Semaphore_new_def SplitTimer_new_def)
  have "\<exists>t. c_awake ?C s t" using latency_atomic_rounds [OF reach] calm s by force
  then show ?thesis using s unfolding fast_client_def by blast
qed

end
