(* ===== verification/Ctx.thy ===== *)
theory Ctx
  imports Process
begin

text \<open>
  \<open>workloads/context.rs\<close>: the context of a workload, with its allocator, the shared running flag
  and the registered processes. The state is the context and the store of shared objects;
  the outcome of waiting for each process is a parameter, as \<open>Process\<close> models the wait itself.
\<close>

section \<open>State\<close>

record ctx =
  callocator :: bump
  crunning :: usize
  cprocesses :: "process list"

definition Running_running :: "usize \<Rightarrow> shared_value heap \<Rightarrow> bool" where
  "Running_running r h = (box_read r h = Some (FlagV True))"

definition Running_start :: "usize \<Rightarrow> shared_value heap \<Rightarrow> shared_value heap" where
  "Running_start r h = box_write r (FlagV True) h"

definition Running_stop :: "usize \<Rightarrow> shared_value heap \<Rightarrow> shared_value heap" where
  "Running_stop r h = box_write r (FlagV False) h"

definition TOTAL_SIZE :: usize where
  "TOTAL_SIZE = 1024 * 1024 * 1024"

text \<open>\<open>create\<close>: one gigabyte of shared memory, and in it the flag, not running.\<close>

definition Context_create ::
    "bool \<Rightarrow> memfd_env \<Rightarrow> layout \<Rightarrow> kernel \<times> shared_value heap
     \<Rightarrow> ctx result outcome \<times> kernel \<times> shared_value heap" where
  "Context_create oc env flag_layout st =
     (case st of (k, h) \<Rightarrow>
       (case BumpAllocator_new oc env ''context'' TOTAL_SIZE k of
          (Inl p, k') \<Rightarrow> (Inl p, k', h)
        | (Inr (Inl e), k') \<Rightarrow> (Inr (Inl e), k', h)
        | (Inr (Inr b), k') \<Rightarrow>
            (case SharedBox_new oc flag_layout (FlagV False) (b, h) of
               Inl p \<Rightarrow> (Inl p, k', h)
             | Inr (Inl e, b', h') \<Rightarrow> (Inr (Inl e), MemFd_drop (bmem b') k', h')
             | Inr (Inr a, b', h') \<Rightarrow>
                 (Inr (Inr \<lparr>callocator = b', crunning = a, cprocesses = []\<rparr>), k', h'))))"

definition Context_add :: "process \<Rightarrow> ctx \<Rightarrow> int \<times> ctx" where
  "Context_add p c =
     (let c' = c\<lparr>cprocesses := cprocesses c @ [p]\<rparr> in (Process_handle (last (cprocesses c')), c'))"

section \<open>Starting and waiting\<close>

fun start_all :: "bool \<Rightarrow> u32 \<Rightarrow> process list \<Rightarrow> shared_value heap \<Rightarrow> shared_value heap option" where
  "start_all oc iters [] h = Some h"
| "start_all oc iters (p # ps) h =
     (case Process_start oc iters p h of None \<Rightarrow> None | Some h' \<Rightarrow> start_all oc iters ps h')"

definition Context_start :: "bool \<Rightarrow> u32 \<Rightarrow> ctx \<Rightarrow> shared_value heap \<Rightarrow> shared_value heap option" where
  "Context_start oc iters c h = start_all oc iters (cprocesses c) (Running_start (crunning c) h)"

text \<open>One outcome of \<open>wait\<close> for each process, in the order they were added.\<close>

fun wait_all :: "usize \<Rightarrow> unit result list \<Rightarrow> shared_value heap \<Rightarrow> unit result \<times> shared_value heap" where
  "wait_all r [] h = (Inr (), Running_stop r h)"
| "wait_all r (Inl e # ws) h = (Inl e, h)"
| "wait_all r (Inr _ # ws) h = wait_all r ws (Running_stop r h)"

definition Context_wait :: "ctx \<Rightarrow> unit result list \<Rightarrow> shared_value heap \<Rightarrow> unit result \<times> shared_value heap" where
  "Context_wait c waits h = wait_all (crunning c) waits h"

definition Context_run ::
    "bool \<Rightarrow> u32 \<Rightarrow> ctx \<Rightarrow> unit result list \<Rightarrow> shared_value heap
     \<Rightarrow> (unit result \<times> shared_value heap) option" where
  "Context_run oc iters c waits h =
     (case Context_start oc iters c h of
        None \<Rightarrow> None
      | Some h1 \<Rightarrow>
          (case Context_wait c waits h1 of
             (Inl e, h2) \<Rightarrow> Some (Inl e, h2)
           | (Inr _, h2) \<Rightarrow> Some (Inr (), h2)))"

section \<open>Shared objects\<close>

definition Context_allocate ::
    "bool \<Rightarrow> layout \<Rightarrow> 'v \<Rightarrow> bump \<times> 'v heap \<Rightarrow> (usize result \<times> bump \<times> 'v heap) outcome" where
  "Context_allocate oc l v st = SharedBox_new oc l v st"

definition Context_allocate_vec ::
    "bool \<Rightarrow> layout \<Rightarrow> usize \<Rightarrow> (usize \<Rightarrow> 'v) \<Rightarrow> bump \<times> 'v heap
     \<Rightarrow> ((svec \<times> 'v heap) result \<times> bump) outcome" where
  "Context_allocate_vec oc elem sz f st =
     (case st of (b, h) \<Rightarrow>
       bind_sum (SharedVec_with_capacity oc elem sz b) (\<lambda>(r, b').
         case r of
           Inl e \<Rightarrow> Inr (Inl e, b')
         | Inr v \<Rightarrow>
             bind_sum (push_all (SharedVec_push oc) (map (\<lambda>i. f (word_of_nat i)) [0 ..< unat sz]) (v, h))
               (\<lambda>r. Inr (r, b'))))"

section \<open>Lemmas\<close>

lemma wait_all_ok: "wait_all r (replicate n (Inr ())) h = (Inr (), Running_stop r h)"
  by (induction n arbitrary: h) (simp_all add: Running_stop_def box_write_def)

lemma wait_all_failed:
  "wait_all r (replicate n (Inr ()) @ Inl e # ws) h = (Inl e, if n = 0 then h else Running_stop r h)"
  by (induction n arbitrary: h) (simp_all add: Running_stop_def box_write_def)

text \<open>
  The start semaphores of the processes hold no token and the objects of the context are
  apart: the flag, and of every process the start semaphore and the cell.
\<close>

definition objects :: "ctx \<Rightarrow> usize list" where
  "objects c = crunning c # concat (map (\<lambda>p. [pstart p, piters p]) (cprocesses c))"

definition at_rest :: "shared_value heap \<Rightarrow> process \<Rightarrow> bool" where
  "at_rest h p \<longleftrightarrow> (\<exists>s. h (pstart p) = Some (SemV s) \<and> count s = 0 \<and> smax s = 1)"

lemma produce_one: "decide oc 1 (one_call Produce) 0 = Exchange 1 False"
  by (simp add: decide_def produce_decide_def one_call_def amount_of_def has_waiter_def add_ck_def WAITER_def)

lemma Process_start_rest:
  assumes "at_rest h p" and "pstart p \<noteq> piters p"
  shows "\<exists>s. Process_start oc iters p h
      = Some (h(piters p \<mapsto> ItersV iters, pstart p \<mapsto> SemV s)) \<and> count s = 1"
  using assms by (auto simp: at_rest_def Process_start_def produce_one Let_def)

lemma start_all_rest:
  assumes "\<And>p. p \<in> set ps \<Longrightarrow> at_rest h p"
    and "distinct (concat (map (\<lambda>p. [pstart p, piters p]) ps))"
  shows "\<exists>h'. start_all oc iters ps h = Some h'
    \<and> (\<forall>p\<in>set ps. h' (piters p) = Some (ItersV iters) \<and> (\<exists>s. h' (pstart p) = Some (SemV s) \<and> count s = 1))
    \<and> (\<forall>a. a \<notin> set (concat (map (\<lambda>p. [pstart p, piters p]) ps)) \<longrightarrow> h' a = h a)"
  using assms
proof (induction ps arbitrary: h)
  case (Cons p ps)
  let ?objs = "set (concat (map (\<lambda>p. [pstart p, piters p]) ps))"
  have ne: "pstart p \<noteq> piters p" and apart: "pstart p \<notin> ?objs" "piters p \<notin> ?objs"
    using Cons.prems(2) by auto
  obtain s where s: "Process_start oc iters p h
      = Some (h(piters p \<mapsto> ItersV iters, pstart p \<mapsto> SemV s))" "count s = 1"
    using Process_start_rest [OF Cons.prems(1) ne] by auto
  let ?h = "h(piters p \<mapsto> ItersV iters, pstart p \<mapsto> SemV s)"
  have rest: "at_rest ?h q" if "q \<in> set ps" for q
  proof -
    have "pstart q \<in> ?objs" using that by auto
    then have "pstart q \<noteq> pstart p" "pstart q \<noteq> piters p" using apart by auto
    then show ?thesis using Cons.prems(1) [of q] that by (simp add: at_rest_def)
  qed
  have dist: "distinct (concat (map (\<lambda>p. [pstart p, piters p]) ps))" using Cons.prems(2) by simp
  from Cons.IH [OF rest dist] obtain h' where h': "start_all oc iters ps ?h = Some h'"
    "\<forall>q\<in>set ps. h' (piters q) = Some (ItersV iters) \<and> (\<exists>s. h' (pstart q) = Some (SemV s) \<and> count s = 1)"
    "\<And>a. a \<notin> ?objs \<Longrightarrow> h' a = ?h a"
    by blast
  have "h' (piters p) = Some (ItersV iters)" "h' (pstart p) = Some (SemV s)"
    using h'(3) apart ne by simp_all
  then show ?case using s h' by auto
qed simp

section \<open>Properties\<close>

text \<open>
  \<open>Context::run\<close> on processes that are all waiting, with objects apart: every process gets
  the same iteration count in its cell and its start token. When all waits succeed the run
  succeeds and the running flag is down. When a wait fails the run fails with its error, and
  the flag is down unless it was the first process: then \<open>wait\<close> returns before the first
  stop and the other processes still read that they should keep running.
\<close>

theorem context_run_hands_out:
  assumes "distinct (objects c)" and "\<forall>p\<in>set (cprocesses c). at_rest h p"
  shows "\<exists>h1. Context_start oc iters c h = Some h1
    \<and> (\<forall>p\<in>set (cprocesses c). h1 (piters p) = Some (ItersV iters)
        \<and> (\<exists>s. h1 (pstart p) = Some (SemV s) \<and> count s = 1))
    \<and> Running_running (crunning c) h1
    \<and> (\<exists>h2. Context_run oc iters c (replicate (length (cprocesses c)) (Inr ())) h = Some (Inr (), h2)
        \<and> \<not> Running_running (crunning c) h2)
    \<and> (\<forall>n e ws. \<exists>h2. Context_run oc iters c (replicate n (Inr ()) @ Inl e # ws) h = Some (Inl e, h2)
        \<and> (Running_running (crunning c) h2 \<longleftrightarrow> n = 0))"
proof -
  let ?h = "Running_start (crunning c) h"
  have out: "crunning c \<notin> set (concat (map (\<lambda>p. [pstart p, piters p]) (cprocesses c)))"
    and dist: "distinct (concat (map (\<lambda>p. [pstart p, piters p]) (cprocesses c)))"
    using assms(1) by (simp_all add: objects_def)
  have "at_rest ?h p" if "p \<in> set (cprocesses c)" for p
  proof -
    have "pstart p \<noteq> crunning c" using that out by auto
    then show ?thesis using assms(2) that by (simp add: at_rest_def Running_start_def box_write_def)
  qed
  then obtain h1 where h1: "start_all oc iters (cprocesses c) ?h = Some h1"
    "\<forall>p\<in>set (cprocesses c). h1 (piters p) = Some (ItersV iters)
        \<and> (\<exists>s. h1 (pstart p) = Some (SemV s) \<and> count s = 1)"
    "h1 (crunning c) = ?h (crunning c)"
    using start_all_rest [OF _ dist, of ?h oc iters] out by blast
  have run: "Running_running (crunning c) h1"
    using h1(3) by (simp add: Running_running_def Running_start_def box_write_def box_read_def)
  have stop: "\<not> Running_running (crunning c) (Running_stop (crunning c) h1)"
    by (simp add: Running_running_def Running_stop_def box_write_def box_read_def)
  show ?thesis
    using h1 run stop
    by (intro exI [of _ h1])
      (auto simp: Context_start_def Context_run_def Context_wait_def wait_all_ok wait_all_failed)
qed

definition demo_child :: child where
  "demo_child = Child_new 7 \<lparr>read_fd = Some 3, write_fd = None\<rparr>"

definition demo_process :: "usize \<Rightarrow> usize \<Rightarrow> process" where
  "demo_process a b = \<lparr>pcgroup = [], pchild = demo_child, pstart = a, pready = 0, piters = b\<rparr>"

definition demo_ctx :: ctx where
  "demo_ctx = \<lparr>callocator = \<lparr>bmem = \<lparr>fd = 3, data = 4096, fsize = 4096\<rparr>, next_off = 64\<rparr>,
     crunning = 1, cprocesses = [demo_process 2 3, demo_process 4 5]\<rparr>"

definition demo_heap :: "shared_value heap" where
  "demo_heap = [2 \<mapsto> SemV (Semaphore_new 1 [] 0), 4 \<mapsto> SemV (Semaphore_new 1 [] 0)]"

theorem context_run_hands_out_witness:
  "\<exists>h1 h2. Context_start True 9 demo_ctx demo_heap = Some h1 \<and> h1 5 = Some (ItersV 9)
    \<and> Context_run True 9 demo_ctx [Inl (Anyhow ''x''), Inr ()] demo_heap = Some (Inl (Anyhow ''x''), h2)
    \<and> Running_running 1 h2"
proof -
  have apart: "distinct (objects demo_ctx)"
    by (simp add: objects_def demo_ctx_def demo_process_def)
  have rest: "\<forall>p\<in>set (cprocesses demo_ctx). at_rest demo_heap p"
    by (auto simp: demo_ctx_def demo_process_def at_rest_def demo_heap_def Semaphore_new_def
        WAITER_def)
  obtain h1 where run: "Context_start True 9 demo_ctx demo_heap = Some h1
    \<and> (\<forall>p\<in>set (cprocesses demo_ctx). h1 (piters p) = Some (ItersV 9)
        \<and> (\<exists>s. h1 (pstart p) = Some (SemV s) \<and> count s = 1))
    \<and> Running_running (crunning demo_ctx) h1
    \<and> (\<exists>h2. Context_run True 9 demo_ctx (replicate (length (cprocesses demo_ctx)) (Inr ())) demo_heap
        = Some (Inr (), h2) \<and> \<not> Running_running (crunning demo_ctx) h2)
    \<and> (\<forall>n e ws. \<exists>h2. Context_run True 9 demo_ctx (replicate n (Inr ()) @ Inl e # ws) demo_heap
        = Some (Inl e, h2) \<and> (Running_running (crunning demo_ctx) h2 \<longleftrightarrow> n = 0))"
    using context_run_hands_out [OF apart rest, of True 9] by (rule exE)
  from run have start: "Context_start True 9 demo_ctx demo_heap = Some h1" by (rule conjunct1)
  from run have cells: "\<forall>p\<in>set (cprocesses demo_ctx). h1 (piters p) = Some (ItersV 9)" by simp
  from run have fails: "\<forall>n e ws. \<exists>h2. Context_run True 9 demo_ctx (replicate n (Inr ()) @ Inl e # ws) demo_heap
      = Some (Inl e, h2) \<and> (Running_running (crunning demo_ctx) h2 \<longleftrightarrow> n = 0)" by (elim conjE)
  have "h1 5 = Some (ItersV 9)" using cells by (simp add: demo_ctx_def demo_process_def)
  moreover have "crunning demo_ctx = 1" by (simp add: demo_ctx_def)
  moreover obtain h2 where "Context_run True 9 demo_ctx (replicate 0 (Inr ()) @ Inl (Anyhow ''x'') # [Inr ()]) demo_heap
      = Some (Inl (Anyhow ''x''), h2)" "Running_running (crunning demo_ctx) h2"
    using fails [rule_format, of 0 "Anyhow ''x''" "[Inr ()]"] by auto
  ultimately show ?thesis using start by (intro exI [of _ h1] exI [of _ h2]) simp
qed

text \<open>
  \<open>allocate_vec\<close> fills the whole vector: when its memory was allocated, for elements that are
  not zero-sized, it succeeds, the vector's length is the size asked for, and index \<open>i\<close> reads
  \<open>f i\<close> below the size and nothing from there on.
\<close>

theorem allocate_vec_filled:
  assumes "SharedVec_with_capacity oc elem sz b = Inr (Inr v, b')" and "lsize elem \<noteq> 0"
    and "unat (vptr v) + unat sz * unat (lsize elem) < 2 ^ 64"
  shows "\<exists>v' h'. Context_allocate_vec oc elem sz f (b, h) = Inr (Inr (v', h'), b')
    \<and> SharedVec_len v' = sz
    \<and> (\<forall>i. SharedVec_get (v', h') i = (if i < sz then Some (f i) else None))"
proof -
  let ?xs = "map (\<lambda>i. f (word_of_nat i)) [0 ..< unat sz]"
  have v: "vlen v = 0" "vcap v = sz" "vstride v = lsize elem"
    using assms(1) by (auto simp: SharedVec_with_capacity_def bind_sum_Inr_iff split: option.splits)
  have inv: "vec_invar (v, h)" using assms(2,3) v by (simp add: vec_shape_def)
  have "length (vec_contents (v, h)) + length ?xs \<le> vec_cap (v, h)" using v by simp
  from shared_vec.push_all_fits [OF inv this, of oc] obtain v' h' where
    full: "push_all (SharedVec_push oc) ?xs (v, h) = Inr (Inr (v', h'))" "vec_invar (v', h')"
      "vec_contents (v', h') = ?xs" using v by auto
  have "unat (vlen v') = length (vec_contents (v', h'))" by simp
  then have len: "vlen v' = sz" unfolding full(3) by (simp add: word_unat_eq_iff)
  have "SharedVec_get (v', h') i = (if i < sz then Some (f i) else None)" for i
    unfolding shared_vec.get_nth [OF full(2)] full(3) by (simp add: word_less_nat_alt)
  then show ?thesis
    using assms(1) full(1) len by (auto simp: Context_allocate_vec_def SharedVec_len_def)
qed

theorem allocate_vec_filled_witness:
  "\<exists>v' h' b'. Context_allocate_vec True \<lparr>lsize = 4, lalign = 4\<rparr> 2 unat
      (\<lparr>bmem = \<lparr>fd = 3, data = 4096, fsize = 4096\<rparr>, next_off = 6\<rparr>, Map.empty) = Inr (Inr (v', h'), b')
    \<and> SharedVec_get (v', h') 1 = Some 1"
proof -
  let ?b = "\<lparr>bmem = \<lparr>fd = 3, data = 4096, fsize = 4096\<rparr>, next_off = 6\<rparr>"
  have cap: "SharedVec_with_capacity True \<lparr>lsize = 4, lalign = 4\<rparr> 2 ?b
      = Inr (Inr \<lparr>vptr = 4104, vlen = 0, vcap = 2, vstride = 4\<rparr>, ?b\<lparr>next_off := 16\<rparr>)"
    by (simp add: SharedVec_with_capacity_def layout_array_def alloc_def alloc_target_def round_up_def
        add_ck_def sub_ck_def)
  from allocate_vec_filled [OF cap, of unat Map.empty] show ?thesis by force
qed

end
