(* ===== verification/Several.thy ===== *)
theory Several
  imports Ctx
begin

text \<open>
  \<open>Context::start\<close> and \<open>Context::wait\<close> over all processes of a context, run together with the
  children: the parent hands a count to one process after the other and then waits for one
  after the other, while every child takes its own steps. Each process is the handshake of
  \<open>Process\<close>; what is shared is the parent, which is at one place of one loop at a time.
\<close>

section \<open>The parent over all processes\<close>

datatype xpos = AtRest | Starting nat | Waiting nat | GaveUp

text \<open>\<open>xruns\<close> is a ghost: the counts of the runs begun so far.\<close>

record xsys =
  xprocs :: "psys list"
  xpos :: xpos
  xflag :: bool
  xruns :: "u32 list"

definition set_proc :: "nat \<Rightarrow> psys \<Rightarrow> xsys \<Rightarrow> xsys" where
  "set_proc i p s = s\<lparr>xprocs := (xprocs s)[i := p]\<rparr>"

text \<open>
  A run begins by raising the flag. In \<open>start\<close> the parent stores the count for process \<open>i\<close> and
  releases it before it goes on to the next; in \<open>wait\<close> it waits for process \<open>i\<close>, lowers the flag
  and goes on, or gives up with the error and the flag as it is. A child steps at any time.
\<close>

inductive xstep :: "xsys \<Rightarrow> xsys \<Rightarrow> bool" where
  run_begins: "xpos s = AtRest \<Longrightarrow>
    xstep s (s\<lparr>xpos := Starting 0, xflag := True, xruns := xruns s @ [n]\<rparr>)"
| stores: "xpos s = Starting i \<Longrightarrow> i < length (xprocs s) \<Longrightarrow> pstep (xprocs s ! i) p \<Longrightarrow>
    parent_pc (xprocs s ! i) = PIdle \<Longrightarrow> sent p = sent (xprocs s ! i) @ [last (xruns s)] \<Longrightarrow>
    xstep s (set_proc i p s)"
| releases: "xpos s = Starting i \<Longrightarrow> i < length (xprocs s) \<Longrightarrow> pstep (xprocs s ! i) p \<Longrightarrow>
    parent_pc (xprocs s ! i) = PStored \<Longrightarrow> parent_pc p = PWaiting \<Longrightarrow>
    xstep s (set_proc i p s\<lparr>xpos := Starting (i + 1)\<rparr>)"
| all_started: "xpos s = Starting (length (xprocs s)) \<Longrightarrow> xstep s (s\<lparr>xpos := Waiting 0\<rparr>)"
| is_ready: "xpos s = Waiting i \<Longrightarrow> i < length (xprocs s) \<Longrightarrow> pstep (xprocs s ! i) p \<Longrightarrow>
    parent_pc (xprocs s ! i) = PWaiting \<Longrightarrow> parent_pc p = PIdle \<Longrightarrow>
    xstep s (set_proc i p s\<lparr>xpos := Waiting (i + 1), xflag := False\<rparr>)"
| has_failed: "xpos s = Waiting i \<Longrightarrow> i < length (xprocs s) \<Longrightarrow> pstep (xprocs s ! i) p \<Longrightarrow>
    parent_pc (xprocs s ! i) = PWaiting \<Longrightarrow> parent_pc p = PFailed \<Longrightarrow>
    xstep s (set_proc i p s\<lparr>xpos := GaveUp\<rparr>)"
| all_ready: "xpos s = Waiting (length (xprocs s)) \<Longrightarrow> xstep s (s\<lparr>xpos := AtRest, xflag := False\<rparr>)"
| child_moves: "i < length (xprocs s) \<Longrightarrow> pstep (xprocs s ! i) p \<Longrightarrow>
    parent_pc p = parent_pc (xprocs s ! i) \<Longrightarrow> sent p = sent (xprocs s ! i) \<Longrightarrow>
    xstep s (set_proc i p s)"

text \<open>At first every process was created: \<open>create\<close> has waited for it and nothing was handed out.\<close>

definition created :: "psys \<Rightarrow> bool" where
  "created p \<longleftrightarrow> preachable p \<and> parent_pc p = PIdle \<and> sent p = []"

inductive xreach :: "xsys \<Rightarrow> bool" where
  fresh: "\<forall>p\<in>set ps. created p \<Longrightarrow> xreach \<lparr>xprocs = ps, xpos = AtRest, xflag = False, xruns = []\<rparr>"
| step: "xreach s \<Longrightarrow> xstep s s' \<Longrightarrow> xreach s'"

section \<open>The invariant\<close>

text \<open>What the parent is doing with process \<open>i\<close>, and what it has handed to it.\<close>

definition place_ok :: "xpos \<Rightarrow> u32 list \<Rightarrow> nat \<Rightarrow> psys \<Rightarrow> bool" where
  "place_ok pos runs i p \<longleftrightarrow> (case pos of
     AtRest \<Rightarrow> parent_pc p = PIdle \<and> sent p = runs
   | Starting k \<Rightarrow>
       if i < k then parent_pc p = PWaiting \<and> sent p = runs
       else parent_pc p = PIdle \<and> sent p = butlast runs
         \<or> i = k \<and> parent_pc p = PStored \<and> sent p = runs
   | Waiting k \<Rightarrow> parent_pc p = (if i < k then PIdle else PWaiting) \<and> sent p = runs
   | GaveUp \<Rightarrow> sent p = runs)"

definition xinv :: "xsys \<Rightarrow> bool" where
  "xinv s \<longleftrightarrow>
     (\<forall>i < length (xprocs s). preachable (xprocs s ! i) \<and> place_ok (xpos s) (xruns s) i (xprocs s ! i))
     \<and> (case xpos s of
          AtRest \<Rightarrow> \<not> xflag s
        | Starting k \<Rightarrow> k \<le> length (xprocs s) \<and> xflag s \<and> xruns s \<noteq> []
        | Waiting k \<Rightarrow> k \<le> length (xprocs s) \<and> (xflag s \<longleftrightarrow> k = 0) \<and> xruns s \<noteq> []
        | GaveUp \<Rightarrow> xruns s \<noteq> [])"

lemma set_proc_simps [simp]:
  "length (xprocs (set_proc i p s)) = length (xprocs s)" "xpos (set_proc i p s) = xpos s"
  "xflag (set_proc i p s) = xflag s" "xruns (set_proc i p s) = xruns s"
  "k < length (xprocs s) \<Longrightarrow> xprocs (set_proc i p s) ! k = (if k = i then p else xprocs s ! k)"
  by (auto simp: set_proc_def nth_list_update)

text \<open>The parent's steps on one process keep what they do not name.\<close>

lemma pstep_keeps:
  assumes "pstep p p'"
  shows "parent_pc p \<noteq> PIdle \<Longrightarrow> sent p' = sent p"
    and "parent_pc p = PIdle \<Longrightarrow> sent p' = sent p @ [n] \<Longrightarrow> parent_pc p' = PStored"
  using assms by (cases rule: pstep.cases; simp)+

lemma xinv_step:
  assumes "xstep s s'" and "xinv s"
  shows "xinv s'"
proof -
  have reach: "preachable p" if "i < length (xprocs s)" "pstep (xprocs s ! i) p" for i p
    using assms(2) that preachable.step by (auto simp: xinv_def)
  from assms(1) show ?thesis
  proof (cases rule: xstep.cases)
    case (run_begins n)
    then show ?thesis using assms(2) by (auto simp: xinv_def place_ok_def)
  next
    case (stores i p)
    then have "parent_pc p = PStored" using pstep_keeps(2) by blast
    then show ?thesis using stores assms(2) reach by (auto simp: xinv_def place_ok_def split: if_splits)
  next
    case (releases i p)
    then have "sent p = sent (xprocs s ! i)" using pstep_keeps(1) by simp
    then show ?thesis using releases assms(2) reach by (auto simp: xinv_def place_ok_def split: if_splits)
  next
    case all_started
    then show ?thesis using assms(2) by (auto simp: xinv_def place_ok_def)
  next
    case (is_ready i p)
    then have "sent p = sent (xprocs s ! i)" using pstep_keeps(1) by simp
    then show ?thesis using is_ready assms(2) reach by (auto simp: xinv_def place_ok_def split: if_splits)
  next
    case (has_failed i p)
    then have "sent p = sent (xprocs s ! i)" using pstep_keeps(1) by simp
    then show ?thesis using has_failed assms(2) reach by (auto simp: xinv_def place_ok_def split: if_splits)
  next
    case all_ready
    then show ?thesis using assms(2) by (auto simp: xinv_def place_ok_def)
  next
    case (child_moves i p)
    then show ?thesis
      using assms(2) reach by (auto simp: xinv_def place_ok_def split: xpos.splits if_splits)
  qed
qed

lemma xreach_inv: "xreach s \<Longrightarrow> xinv s"
proof (induction rule: xreach.induct)
  case (fresh ps)
  then show ?case by (auto simp: xinv_def place_ok_def created_def)
qed (rule xinv_step)

text \<open>
  How many steps are at most left of a run: for every process two to start and six to wait
  for, and the two changes of loop.
\<close>

definition run_left :: "xsys \<Rightarrow> nat" where
  "run_left s = (let n = length (xprocs s) in case xpos s of
     Starting k \<Rightarrow> 6 * n + 2 + 2 * (n - k) - (if k < n \<and> parent_pc (xprocs s ! k) = PStored then 1 else 0)
   | Waiting k \<Rightarrow> if k < n then 6 * (n - k) - 4 + to_go (xprocs s ! k) else 1
   | _ \<Rightarrow> 0)"

lemma start_goes_on:
  assumes "xreach s" and "xpos s = Starting k"
  shows "\<exists>s'. xstep s s' \<and> run_left s' < run_left s"
proof (cases "k < length (xprocs s)")
  case False
  then have k: "k = length (xprocs s)" using xreach_inv [OF assms(1)] assms(2) by (simp add: xinv_def)
  then have step: "xstep s (s\<lparr>xpos := Waiting 0\<rparr>)" using assms(2) xstep.all_started by simp
  have "to_go (xprocs s ! 0) \<le> 4" if "0 < length (xprocs s)"
    using xreach_inv [OF assms(1)] assms(2) that k waiting_progress by (auto simp: xinv_def place_ok_def)
  then have "run_left (s\<lparr>xpos := Waiting 0\<rparr>) < run_left s"
    using assms(2) k by (cases "length (xprocs s)") (auto simp: run_left_def Let_def)
  with step show ?thesis by blast
next
  case True
  let ?p = "xprocs s ! k"
  have inv: "preachable ?p" "place_ok (Starting k) (xruns s) k ?p"
    using xreach_inv [OF assms(1)] assms(2) True by (auto simp: xinv_def)
  show ?thesis
  proof (cases "parent_pc ?p = PStored")
    case stored: True
    let ?q = "?p\<lparr>parent_pc := PWaiting, start_tokens := start_tokens ?p + 1\<rparr>"
    have "passes Produce (start_tokens ?p)"
      using handshake_reachable [OF inv(1)] stored by (simp add: handshake_inv_def passes_produce)
    then have "pstep ?p ?q" using stored by (rule pstep.release [rotated])
    then have "xstep s (set_proc k ?q s\<lparr>xpos := Starting (k + 1)\<rparr>)"
      using assms(2) True stored by (intro xstep.releases) simp_all
    moreover have "run_left (set_proc k ?q s\<lparr>xpos := Starting (k + 1)\<rparr>) < run_left s"
      using assms(2) True stored by (simp add: run_left_def Let_def)
    ultimately show ?thesis by blast
  next
    case False
    then have idle: "parent_pc ?p = PIdle" using inv(2) by (auto simp: place_ok_def)
    let ?q = "?p\<lparr>parent_pc := PStored, iters_cell := last (xruns s), sent := sent ?p @ [last (xruns s)]\<rparr>"
    have "pstep ?p ?q" using idle by (rule pstep.store)
    then have "xstep s (set_proc k ?q s)"
      using assms(2) True idle by (intro xstep.stores) simp_all
    moreover have "run_left (set_proc k ?q s) < run_left s"
      using assms(2) True idle by (simp add: run_left_def Let_def)
    ultimately show ?thesis by blast
  qed
qed

lemma wait_goes_on:
  assumes "xreach s" and "xpos s = Waiting k"
  shows "\<exists>s'. xstep s s' \<and> (xpos s' = GaveUp \<or> run_left s' < run_left s)"
proof (cases "k < length (xprocs s)")
  case False
  then have "k = length (xprocs s)" using xreach_inv [OF assms(1)] assms(2) by (simp add: xinv_def)
  then have "xstep s (s\<lparr>xpos := AtRest, xflag := False\<rparr>)" using assms(2) xstep.all_ready by simp
  moreover have "run_left (s\<lparr>xpos := AtRest, xflag := False\<rparr>) < run_left s"
    using assms(2) False by (simp add: run_left_def)
  ultimately show ?thesis by blast
next
  case True
  let ?p = "xprocs s ! k"
  have p: "preachable ?p" "parent_pc ?p = PWaiting"
    using xreach_inv [OF assms(1)] assms(2) True by (auto simp: xinv_def place_ok_def)
  from waiting_progress [OF p] consider (ready) "passes Consume (ready_tokens ?p)" | (gone) "child_pc ?p = CGone"
    | (child) q where "pstep ?p q" "parent_pc q = PWaiting" "to_go q < to_go ?p" by blast
  then show ?thesis
  proof cases
    case ready
    let ?q = "?p\<lparr>parent_pc := PIdle, ready_tokens := ready_tokens ?p - 1\<rparr>"
    let ?s = "set_proc k ?q s\<lparr>xpos := Waiting (k + 1), xflag := False\<rparr>"
    have "pstep ?p ?q" using p(2) ready by (rule pstep.wait_ok)
    then have step: "xstep s ?s" using assms(2) True p(2) by (intro xstep.is_ready) simp_all
    have "to_go (xprocs s ! (k + 1)) \<le> 4" if "k + 1 < length (xprocs s)"
      using xreach_inv [OF assms(1)] assms(2) that waiting_progress by (auto simp: xinv_def place_ok_def)
    then have "run_left ?s < run_left s" using assms(2) True by (auto simp: run_left_def Let_def)
    with step show ?thesis by blast
  next
    case gone
    let ?q = "?p\<lparr>parent_pc := PFailed\<rparr>"
    have "pstep ?p ?q" using p(2) gone by (rule pstep.wait_failed)
    then have "xstep s (set_proc k ?q s\<lparr>xpos := GaveUp\<rparr>)"
      using assms(2) True p(2) by (intro xstep.has_failed) simp_all
    then show ?thesis by (intro exI [of _ "set_proc k ?q s\<lparr>xpos := GaveUp\<rparr>"]) simp
  next
    case child
    have "sent q = sent ?p" using pstep_keeps(1) [OF child(1)] p(2) by simp
    then have "xstep s (set_proc k q s)" using True child p(2) by (intro xstep.child_moves) simp_all
    moreover have "run_left (set_proc k q s) < run_left s"
      using assms(2) True child(3) by (simp add: run_left_def Let_def)
    ultimately show ?thesis by blast
  qed
qed

section \<open>Properties\<close>

text \<open>
  C9. All processes of a context run the same counts: whatever the children do in between, what
  each has taken is a prefix of the counts of the runs so far; once the parent is past its
  wait for a process that process has taken all of them, and when a run is over every one has,
  the flag is down, and every child waits for the next run or has exited. The flag is up
  while processes are started and until the first wait is over.
\<close>

theorem context_runs_deliver:
  assumes "xreach s"
  shows "(\<forall>i < length (xprocs s). prefix (received (xprocs s ! i)) (xruns s))
    \<and> (\<forall>k. xpos s = Starting k \<longrightarrow> xflag s)
    \<and> (\<forall>k. xpos s = Waiting k \<longrightarrow> (xflag s \<longleftrightarrow> k = 0) \<and> (\<forall>i < k. received (xprocs s ! i) = xruns s))
    \<and> (xpos s = AtRest \<longrightarrow> \<not> xflag s \<and> (\<forall>i < length (xprocs s).
         received (xprocs s ! i) = xruns s \<and> child_pc (xprocs s ! i) \<in> {CStart, CGone}))"
proof -
  have inv: "xinv s" using assms by (rule xreach_inv)
  have idle: "received p = sent p \<and> child_pc p \<in> {CStart, CGone}"
    if "preachable p" "parent_pc p = PIdle" for p
    using handshake_reachable [OF that(1)] that(2) by (simp add: handshake_inv_def taken_def)
  have behind: "prefix (received p) (sent p)" if "preachable p" for p
    using handshake_reachable [OF that]
    by (auto simp: handshake_inv_def taken_def pending_def split: ppc.splits)
  have "prefix (received (xprocs s ! i)) (xruns s)" if "i < length (xprocs s)" for i
  proof -
    have "prefix (sent (xprocs s ! i)) (xruns s)"
      using inv that by (auto simp: xinv_def place_ok_def prefixeq_butlast split: xpos.splits if_splits)
    then show ?thesis using behind inv that prefix_order.trans unfolding xinv_def by blast
  qed
  moreover have "received (xprocs s ! i) = xruns s \<and> child_pc (xprocs s ! i) \<in> {CStart, CGone}"
    if "i < length (xprocs s)" "xpos s = AtRest \<or> (\<exists>k. xpos s = Waiting k \<and> i < k)" for i
  proof -
    have "preachable (xprocs s ! i)" "parent_pc (xprocs s ! i) = PIdle" "sent (xprocs s ! i) = xruns s"
      using inv that by (auto simp: xinv_def place_ok_def)
    then show ?thesis using idle by metis
  qed
  ultimately show ?thesis using inv by (auto simp: xinv_def)
qed

definition two_created :: xsys where
  "two_created = \<lparr>xprocs = replicate 2 (round_state CStart PIdle 0 0 0 [] []), xpos = AtRest,
     xflag = False, xruns = []\<rparr>"

text \<open>Three steps into a run: the first process was handed its count and released.\<close>

definition one_released :: xsys where
  "one_released = \<lparr>xprocs = [round_state CStart PWaiting 1 0 7 [7] [], round_state CStart PIdle 0 0 0 [] []],
     xpos = Starting 1, xflag = True, xruns = [7]\<rparr>"

lemma created_round: "created (round_state CStart PIdle 0 0 0 [] [])"
proof -
  note simps = round_state_def passes_produce passes_consume
  have "preachable (round_state CSetup PWaiting 0 0 0 [] [])"
    using preachable.init by (simp add: psys_init_def round_state_def)
  then have "preachable (round_state CReady PWaiting 0 0 0 [] [])"
    by (rule pstep_to [OF _ pstep.set_up]) (simp_all add: simps)
  then have "preachable (round_state CStart PWaiting 0 1 0 [] [])"
    by (rule pstep_to [OF _ pstep.ready]) (simp_all add: simps)
  then have "preachable (round_state CStart PIdle 0 0 0 [] [])"
    by (rule pstep_to [OF _ pstep.wait_ok]) (simp_all add: simps)
  then show ?thesis by (simp add: created_def round_state_def)
qed

lemma xreach_to: "xreach s \<Longrightarrow> xstep s s' \<Longrightarrow> s' = t \<Longrightarrow> xreach t"
  by (auto intro: xreach.step)

lemma one_released_reach: "xreach one_released"
proof -
  let ?p = "round_state CStart PIdle 0 0 0 [] []" and ?q = "round_state CStart PStored 0 0 7 [7] []"
    and ?r = "round_state CStart PWaiting 1 0 7 [7] []"
  have pq: "pstep ?p ?q" using pstep.store [of ?p 7] by (simp add: round_state_def)
  have "pstep ?q (?q\<lparr>parent_pc := PWaiting, start_tokens := start_tokens ?q + 1\<rparr>)"
    by (rule pstep.release) (simp_all add: round_state_def passes_produce)
  moreover have "?q\<lparr>parent_pc := PWaiting, start_tokens := start_tokens ?q + 1\<rparr> = ?r"
    by (simp add: round_state_def)
  ultimately have qr: "pstep ?q ?r" by metis
  have "xreach two_created"
    unfolding two_created_def by (rule xreach.fresh) (simp add: created_round)
  then have "xreach \<lparr>xprocs = [?p, ?p], xpos = Starting 0, xflag = True, xruns = [7]\<rparr>"
    by (rule xreach_to [OF _ xstep.run_begins [where n = 7]]) (simp_all add: two_created_def numeral_2_eq_2)
  then have "xreach \<lparr>xprocs = [?q, ?p], xpos = Starting 0, xflag = True, xruns = [7]\<rparr>"
    by (rule xreach_to [OF _ xstep.stores [where i = 0 and p = ?q]])
      (simp_all add: pq, simp_all add: round_state_def set_proc_def)
  then show ?thesis
    unfolding one_released_def
    by (rule xreach_to [OF _ xstep.releases [where i = 0 and p = ?r]])
      (simp_all add: qr [unfolded One_nat_def], simp_all add: round_state_def set_proc_def)
qed

theorem context_runs_deliver_witness:
  "xflag one_released \<and> prefix (received (xprocs one_released ! 0)) [7]"
  using context_runs_deliver [OF one_released_reach] by (auto simp: one_released_def)



end
