(* ===== verification/Objects.thy ===== *)
theory Objects
  imports Ctx
begin

text \<open>
  The shared objects of a context as a program builds it: created, given processes and other
  objects, started, waited for, while the children change what their objects hold. Every
  object keeps its place and its type, and no two overlap: the assumption under which \<open>Ctx\<close>
  describes \<open>Context::run\<close>.
\<close>

section \<open>Types of objects\<close>

datatype obj_type = SemT | ItersT | FlagT

text \<open>The semaphores of a process have the maximum one for ever.\<close>

fun has_type :: "shared_value \<Rightarrow> obj_type \<Rightarrow> bool" where
  "has_type (SemV s) SemT \<longleftrightarrow> smax s = 1"
| "has_type (ItersV n) ItersT \<longleftrightarrow> True"
| "has_type (FlagV b) FlagT \<longleftrightarrow> True"
| "has_type _ _ \<longleftrightarrow> False"

definition typed_at :: "shared_value heap \<Rightarrow> usize \<Rightarrow> obj_type \<Rightarrow> bool" where
  "typed_at h a T \<longleftrightarrow> (\<exists>v. h a = Some v \<and> has_type v T)"

definition process_typed :: "shared_value heap \<Rightarrow> process \<Rightarrow> bool" where
  "process_typed h p \<longleftrightarrow> typed_at h (pstart p) SemT \<and> typed_at h (pready p) SemT \<and> typed_at h (piters p) ItersT"

definition ctx_typed :: "ctx \<Rightarrow> shared_value heap \<Rightarrow> bool" where
  "ctx_typed c h \<longleftrightarrow> typed_at h (crunning c) FlagT \<and> (\<forall>p\<in>set (cprocesses c). process_typed h p)"

text \<open>The flag and, of every process, its two semaphores and its cell.\<close>

definition process_objects :: "process \<Rightarrow> usize list" where
  "process_objects p = [pstart p, pready p, piters p]"

definition ctx_objects :: "ctx \<Rightarrow> usize list" where
  "ctx_objects c = crunning c # concat (map process_objects (cprocesses c))"

section \<open>Where objects lie\<close>

text \<open>
  The mapping lies in the lower half of the address space, and every object below the
  position of the allocator.
\<close>

definition heap_ok :: "bump \<times> 'v heap \<Rightarrow> bool" where
  "heap_ok st \<longleftrightarrow> (case st of (b, h) \<Rightarrow>
     unat (data (bmem b)) + unat (fsize (bmem b)) < 2 ^ 63 \<and> next_off b \<le> fsize (bmem b)
     \<and> (\<forall>a\<in>dom h. unat a < unat (data (bmem b)) + unat (next_off b)))"

definition object_layout :: "layout \<Rightarrow> bool" where
  "object_layout l \<longleftrightarrow> layout_ok l \<and> lsize l \<noteq> 0"

lemma heap_ok_bump: "heap_ok (b, h) \<Longrightarrow> bump_ok b"
  by (simp add: heap_ok_def bump_ok_def)

lemma box_new_fresh:
  assumes "SharedBox_new oc l v (b, h) = Inr (r, b', h')" and "heap_ok (b, h)" and "object_layout l"
  shows "heap_ok (b', h')
    \<and> (case r of Inl e \<Rightarrow> h' = h | Inr a \<Rightarrow> a \<notin> dom h \<and> h' = h(a \<mapsto> v))"
proof -
  have lay: "layout_ok l" "0 < unat (lsize l)" using assms(3) by (auto simp: object_layout_def unat_gt_0)
  obtain q b1 where q: "alloc oc l b = Inr (q, b1)"
    and rest: "(case q of None \<Rightarrow> (Inl (Anyhow ''Failed to allocate memory''), b1, h)
      | Some p \<Rightarrow> (Inr p, b1, h(p \<mapsto> v))) = (r, b', h')"
    using assms(1) by (auto simp: SharedBox_new_def bind_sum_Inr_iff split: option.splits)
  from q show ?thesis
  proof (cases rule: alloc_Inr_cases)
    case no_room
    with rest show ?thesis using assms(2) by auto
  next
    case (granted aligned e)
    have room: "unat (data (bmem b)) + unat (fsize (bmem b)) < 2 ^ 63" "next_off b \<le> fsize (bmem b)"
      and below: "\<And>a. a \<in> dom h \<Longrightarrow> unat a < unat (data (bmem b)) + unat (next_off b)"
      using assms(2) by (auto simp: heap_ok_def)
    then have size: "unat (fsize (bmem b)) < 2 ^ 63" by simp
    note adv = alloc_target_advances [OF lay(1) size room(2) granted(3)]
    have e: "unat e \<le> unat (fsize (bmem b))" using adv(5) by (simp add: word_le_nat_alt)
    have at: "unat (data (bmem b) + aligned) = unat (data (bmem b)) + unat aligned"
      using adv(3) e room(1) by (intro unat_add_no_overflow) simp
    have "data (bmem b) + aligned \<notin> dom h"
      using below [of "data (bmem b) + aligned"] adv(1) at by auto
    moreover have "r = Inr (data (bmem b) + aligned)" "b' = b\<lparr>next_off := e\<rparr>"
      "h' = h(data (bmem b) + aligned \<mapsto> v)"
      using granted(1,2) rest by auto
    moreover have "unat a < unat (data (bmem b)) + unat e"
      if "a \<in> insert (data (bmem b) + aligned) (dom h)" for a
      using that below [of a] adv(1,3) at lay(2) by (cases "a \<in> dom h") simp_all
    ultimately show ?thesis using room adv(5) by (auto simp: heap_ok_def)
  qed
qed

section \<open>What a program does with a context\<close>

text \<open>
  The changes that children and the parent's workload make: an object stays what it is, and a
  semaphore keeps its maximum.
\<close>

definition extends :: "shared_value heap \<Rightarrow> shared_value heap \<Rightarrow> bool" where
  "extends h h' \<longleftrightarrow> (\<forall>a T. typed_at h a T \<longrightarrow> typed_at h' a T)"

definition keeps_types :: "shared_value heap \<Rightarrow> shared_value heap \<Rightarrow> bool" where
  "keeps_types h h' \<longleftrightarrow> dom h' = dom h \<and> extends h h'"

text \<open>
  \<open>built c h\<close>: a program gets to the context \<open>c\<close> and the objects \<open>h\<close>. The layouts are those of
  types with a size; \<open>Context::create\<close> maps its memory in the lower half of the address space.
\<close>

inductive built :: "ctx \<Rightarrow> shared_value heap \<Rightarrow> bool" where
  b_create: "Context_create oc env l (k, Map.empty) = (Inr (Inr c), k', h) \<Longrightarrow> object_layout l \<Longrightarrow>
    unat (data (bmem (callocator c))) + unat (fsize (bmem (callocator c))) < 2 ^ 63 \<Longrightarrow> built c h"
| b_process: "built c h \<Longrightarrow> object_layout ls \<Longrightarrow> object_layout li \<Longrightarrow>
    Process_create oc cg ls li (Semaphore_new 1 [] 0) run rdy (callocator c, h) = Inr (Inr p, b', h') \<Longrightarrow>
    built (snd (Context_add p (c\<lparr>callocator := b'\<rparr>))) h'"
| b_no_process: "built c h \<Longrightarrow> object_layout ls \<Longrightarrow> object_layout li \<Longrightarrow>
    Process_create oc cg ls li (Semaphore_new 1 [] 0) run rdy (callocator c, h) = Inr (Inl e, b', h') \<Longrightarrow>
    built (c\<lparr>callocator := b'\<rparr>) h'"
| b_allocate: "built c h \<Longrightarrow> object_layout l \<Longrightarrow>
    Context_allocate oc l v (callocator c, h) = Inr (r, b', h') \<Longrightarrow> built (c\<lparr>callocator := b'\<rparr>) h'"
| b_start: "built c h \<Longrightarrow> Context_start oc iters c h = Some h' \<Longrightarrow> built c h'"
| b_wait: "built c h \<Longrightarrow> built c (snd (Context_wait c waits h))"
| b_others: "built c h \<Longrightarrow> keeps_types h h' \<Longrightarrow> built c h'"

definition ctx_ok :: "ctx \<Rightarrow> shared_value heap \<Rightarrow> bool" where
  "ctx_ok c h \<longleftrightarrow> heap_ok (callocator c, h) \<and> ctx_typed c h \<and> distinct (ctx_objects c)"

lemma typed_in_dom: "typed_at h a T \<Longrightarrow> a \<in> dom h"
  by (auto simp: typed_at_def)

lemma ctx_typed_dom: "ctx_typed c h \<Longrightarrow> set (ctx_objects c) \<subseteq> dom h"
  by (auto simp: ctx_typed_def process_typed_def ctx_objects_def process_objects_def dest: typed_in_dom)

text \<open>New objects do not touch the types of the old ones; nor does a write of the same type.\<close>

lemma extends_refl [simp]: "extends h h"
  by (simp add: extends_def)

lemma extends_trans: "extends h h1 \<Longrightarrow> extends h1 h2 \<Longrightarrow> extends h h2"
  by (simp add: extends_def)

lemma extends_fresh: "a \<notin> dom h \<Longrightarrow> extends h (h(a \<mapsto> v))"
  by (auto simp: extends_def typed_at_def)

lemma has_type_unique: "has_type v T \<Longrightarrow> has_type v U \<Longrightarrow> T = U"
  by (cases v; cases T; cases U) auto

lemma extends_write:
  assumes "typed_at h a T" and "has_type v T"
  shows "extends h (h(a \<mapsto> v))" and "dom (h(a \<mapsto> v)) = dom h"
  using assms has_type_unique by (auto simp: extends_def typed_at_def) metis

lemma ctx_typed_extends: "ctx_typed c h \<Longrightarrow> extends h h' \<Longrightarrow> ctx_typed c h'"
  by (auto simp: ctx_typed_def process_typed_def extends_def)

lemma box_new_mem: "SharedBox_new oc l v (b, h) = Inr (r, b', h') \<Longrightarrow> bmem b' = bmem b"
  by (auto simp: SharedBox_new_def bind_sum_Inr_iff split: option.splits elim!: alloc_Inr_cases)

lemma box_new_extends:
  assumes "SharedBox_new oc l v (b, h) = Inr (r, b', h')" and "heap_ok (b, h)" and "object_layout l"
  shows "heap_ok (b', h')" and "extends h h'" and "dom h \<subseteq> dom h'"
    and "r = Inr a \<Longrightarrow> a \<notin> dom h \<and> h' a = Some v"
  using box_new_fresh [OF assms] extends_fresh by (auto split: sum.splits)

lemma create_ok:
  assumes "Context_create oc env l (k, Map.empty) = (Inr (Inr c), k', h)" and "object_layout l"
    and "unat (data (bmem (callocator c))) + unat (fsize (bmem (callocator c))) < 2 ^ 63"
  shows "ctx_ok c h"
proof -
  obtain m a b' where box: "SharedBox_new oc l (FlagV False) (\<lparr>bmem = m, next_off = 0\<rparr>, Map.empty) = Inr (Inr a, b', h)"
    and c: "c = \<lparr>callocator = b', crunning = a, cprocesses = []\<rparr>"
    using assms(1)
    by (auto simp: Context_create_def BumpAllocator_new_def split: prod.splits sum.splits)
  have "heap_ok (\<lparr>bmem = m, next_off = 0\<rparr>, Map.empty :: shared_value heap)"
    using assms(3) box_new_mem [OF box] by (simp add: heap_ok_def c)
  from box_new_extends [OF box this assms(2)] show ?thesis
    by (auto simp: ctx_ok_def ctx_typed_def ctx_objects_def typed_at_def c)
qed

text \<open>Creating a process gives three new objects, or an error and perhaps some that nobody uses.\<close>

lemma typed_new: "h a = Some v \<Longrightarrow> has_type v T \<Longrightarrow> extends h h' \<Longrightarrow> typed_at h' a T"
  by (auto simp: extends_def typed_at_def)

lemma process_create_ok:
  assumes "Process_create oc cg ls li (Semaphore_new 1 [] 0) run rdy (b, h) = Inr (r, b', h')"
    and "heap_ok (b, h)" and "object_layout ls" and "object_layout li"
  shows "heap_ok (b', h') \<and> extends h h' \<and> (\<forall>p. r = Inr p \<longrightarrow>
    process_typed h' p \<and> distinct (process_objects p) \<and> set (process_objects p) \<inter> dom h = {})"
proof (cases cg)
  case (Inl e)
  then show ?thesis using assms(1,2) by (auto simp: Process_create_def)
next
  case (Inr path)
  let ?sem = "SemV (Semaphore_new 1 [] 0)"
  have sem: "has_type ?sem SemT" by (simp add: Semaphore_new_def WAITER_def)
  obtain r1 b1 h1 where box1: "SharedBox_new oc ls ?sem (b, h) = Inr (r1, b1, h1)"
    using assms(1) Inr by (auto simp: Process_create_def bind_sum_Inr_iff)
  note new1 = box_new_extends [OF box1 assms(2,3)]
  show ?thesis
  proof (cases r1)
    case (Inl e)
    then show ?thesis using assms(1) \<open>cg = Inr path\<close> box1 new1(1,2) by (auto simp: Process_create_def)
  next
    case a1: (Inr a1)
    obtain r2 b2 h2 where box2: "SharedBox_new oc ls ?sem (b1, h1) = Inr (r2, b2, h2)"
      using assms(1) Inr box1 a1 by (auto simp: Process_create_def bind_sum_Inr_iff)
    note new2 = box_new_extends [OF box2 new1(1) assms(3)]
    have ext2: "extends h h2" using new1(2) new2(2) by (rule extends_trans)
    show ?thesis
    proof (cases r2)
      case (Inl e)
      then show ?thesis using assms(1) \<open>cg = Inr path\<close> box1 box2 a1 new2(1) ext2 by (auto simp: Process_create_def)
    next
      case a2: (Inr a2)
      obtain r3 b3 h3 where box3: "SharedBox_new oc li (ItersV 0) (b2, h2) = Inr (r3, b3, h3)"
        using assms(1) Inr box1 box2 a1 a2 by (auto simp: Process_create_def bind_sum_Inr_iff)
      note new3 = box_new_extends [OF box3 new2(1) assms(4)]
      have ext3: "extends h h3" "extends h1 h3" using ext2 new2(2) new3(2) extends_trans by blast+
      have out: "b' = b3" "h' = h3" "r = Inr p \<Longrightarrow> \<exists>a3. r3 = Inr a3 \<and> process_objects p = [a1, a2, a3]
          \<and> pstart p = a1 \<and> pready p = a2 \<and> piters p = a3" for p
        using assms(1) Inr box1 box2 box3 a1 a2
        by (auto simp: Process_create_def process_objects_def split: sum.splits)
      have "process_typed h' p \<and> distinct (process_objects p) \<and> set (process_objects p) \<inter> dom h = {}"
        if rp: "r = Inr p" for p
      proof -
        obtain a3 where p: "r3 = Inr a3" "process_objects p = [a1, a2, a3]" "pstart p = a1" "pready p = a2" "piters p = a3"
          using out(3) [OF rp] by blast
        have fresh: "a1 \<notin> dom h" "a1 \<in> dom h1" "a2 \<notin> dom h1" "a2 \<in> dom h2" "a3 \<notin> dom h2"
          using new1(4) [OF a1] new2(4) [OF a2] new3(4) [OF p(1)] by auto
        have "process_typed h3 p"
          unfolding process_typed_def p(3-5)
          using typed_new [OF _ sem ext3(2)] typed_new [OF _ sem new3(2)] typed_new [of h3 a3 "ItersV 0" ItersT h3]
            new1(4) [OF a1] new2(4) [OF a2] new3(4) [OF p(1)] by simp
        then show ?thesis using fresh new1(3) new2(3) out(2) p(2) by auto
      qed
      then show ?thesis using new3(1) ext3(1) out(1,2) by blast
    qed
  qed
qed

text \<open>Starting and waiting write values of the type that was there.\<close>

lemma keeps_types_write: "typed_at h a T \<Longrightarrow> has_type v T \<Longrightarrow> keeps_types h (h(a \<mapsto> v))"
  using extends_write [of h a T v] by (simp add: keeps_types_def)

lemma keeps_types_refl [simp]: "keeps_types h h"
  by (simp add: keeps_types_def)

lemma keeps_types_trans: "keeps_types h h1 \<Longrightarrow> keeps_types h1 h2 \<Longrightarrow> keeps_types h h2"
  using extends_trans by (auto simp: keeps_types_def)

lemma keeps_typed: "keeps_types h h' \<Longrightarrow> typed_at h a T \<Longrightarrow> typed_at h' a T"
  "keeps_types h h' \<Longrightarrow> process_typed h p \<Longrightarrow> process_typed h' p"
  by (simp_all add: keeps_types_def extends_def process_typed_def)

lemma start_keeps:
  assumes "Process_start oc iters p h = Some h'" and "process_typed h p"
  shows "keeps_types h h'"
proof -
  let ?h = "h(piters p \<mapsto> ItersV iters)"
  have "typed_at h (piters p) ItersT" using assms(2) by (simp add: process_typed_def)
  then have h1: "keeps_types h ?h" by (rule keeps_types_write) simp
  have start: "typed_at ?h (pstart p) SemT"
    using keeps_typed(1) [OF h1] assms(2) by (simp add: process_typed_def)
  obtain s new w where s: "?h (pstart p) = Some (SemV s)" "h' = ?h(pstart p \<mapsto> SemV (s\<lparr>count := new\<rparr>))"
    using assms(1) by (auto simp: Process_start_def Let_def split: option.splits shared_value.splits decision.splits
      simp del: fun_upd_apply)
  have "smax s = 1" using start s(1) by (simp add: typed_at_def)
  then have "keeps_types ?h h'" unfolding s(2) by (intro keeps_types_write [OF start]) simp
  with h1 show ?thesis by (rule keeps_types_trans)
qed

lemma start_all_keeps:
  "start_all oc iters ps h = Some h' \<Longrightarrow> \<forall>p\<in>set ps. process_typed h p \<Longrightarrow> keeps_types h h'"
proof (induction ps arbitrary: h)
  case (Cons p ps)
  then obtain h1 where h1: "Process_start oc iters p h = Some h1" "start_all oc iters ps h1 = Some h'"
    by (auto split: option.splits)
  have k: "keeps_types h h1" using start_keeps [OF h1(1)] Cons.prems(2) by simp
  have "keeps_types h1 h'" using Cons.IH [OF h1(2)] Cons.prems(2) keeps_typed(2) [OF k] by simp
  with k show ?case by (rule keeps_types_trans)
qed simp

lemma running_keeps:
  assumes "typed_at h r FlagT"
  shows "keeps_types h (Running_start r h)" and "keeps_types h (Running_stop r h)"
  using keeps_types_write [OF assms] by (simp_all add: Running_start_def Running_stop_def box_write_def)

lemma wait_all_keeps: "typed_at h r FlagT \<Longrightarrow> keeps_types h (snd (wait_all r ws h))"
proof (induction r ws h rule: wait_all.induct)
  case (1 r h)
  then show ?case by (simp add: running_keeps(2))
next
  case (3 r u ws h)
  note stop = running_keeps(2) [OF 3(2)]
  from 3(1) [OF keeps_typed(1) [OF stop 3(2)]] stop show ?case by (auto intro: keeps_types_trans)
qed simp

lemma ctx_ok_keeps:
  assumes "ctx_ok c h" and "keeps_types h h'"
  shows "ctx_ok c h'"
  using assms ctx_typed_extends by (auto simp: ctx_ok_def keeps_types_def heap_ok_def)

lemma ctx_ok_allocator:
  assumes "ctx_ok c h" and "heap_ok (b', h')" and "extends h h'"
  shows "ctx_ok (c\<lparr>callocator := b'\<rparr>) h'"
  using assms ctx_typed_extends [of "c\<lparr>callocator := b'\<rparr>" h h']
  by (simp add: ctx_ok_def ctx_typed_def ctx_objects_def)

lemma add_ok:
  assumes "ctx_ok c h" and "process_typed h p" and "distinct (process_objects p)"
    and "set (process_objects p) \<inter> set (ctx_objects c) = {}"
  shows "ctx_ok (snd (Context_add p c)) h"
  using assms by (auto simp: ctx_ok_def Context_add_def ctx_typed_def ctx_objects_def Let_def)

lemma built_ok: "built c h \<Longrightarrow> ctx_ok c h"
proof (induction rule: built.induct)
  case (b_create oc env l k c k' h)
  then show ?case by (rule create_ok)
next
  case (b_process c h ls li oc cg run rdy p b' h')
  have ok: "heap_ok (callocator c, h)" using b_process.IH by (simp add: ctx_ok_def)
  note new = process_create_ok [OF b_process.hyps(4) ok b_process.hyps(2,3)]
  have "ctx_ok (c\<lparr>callocator := b'\<rparr>) h'" using ctx_ok_allocator [OF b_process.IH] new by simp
  moreover have "set (ctx_objects c) \<subseteq> dom h" using b_process.IH ctx_typed_dom by (simp add: ctx_ok_def)
  then have "set (process_objects p) \<inter> set (ctx_objects (c\<lparr>callocator := b'\<rparr>)) = {}"
    using new by (auto simp: ctx_objects_def)
  ultimately show ?case using new by (intro add_ok) simp_all
next
  case (b_no_process c h ls li oc cg run rdy e b' h')
  have ok: "heap_ok (callocator c, h)" using b_no_process.IH by (simp add: ctx_ok_def)
  from process_create_ok [OF b_no_process.hyps(4) ok b_no_process.hyps(2,3)] show ?case
    using ctx_ok_allocator [OF b_no_process.IH] by simp
next
  case (b_allocate c h l oc v r b' h')
  have ok: "heap_ok (callocator c, h)" using b_allocate.IH by (simp add: ctx_ok_def)
  from box_new_extends [OF _ ok b_allocate.hyps(2)] b_allocate.hyps(3) show ?case
    using ctx_ok_allocator [OF b_allocate.IH] by (simp add: Context_allocate_def)
next
  case (b_start c h oc iters h')
  have typed: "ctx_typed c h" using b_start.IH by (simp add: ctx_ok_def)
  then have k: "keeps_types h (Running_start (crunning c) h)"
    by (intro running_keeps) (simp add: ctx_typed_def)
  moreover have "keeps_types (Running_start (crunning c) h) h'"
    using b_start.hyps(2) typed keeps_typed(2) [OF k]
    by (intro start_all_keeps [of oc iters "cprocesses c"]) (auto simp: Context_start_def ctx_typed_def)
  ultimately show ?case using ctx_ok_keeps [OF b_start.IH] keeps_types_trans by blast
next
  case (b_wait c h waits)
  then have "typed_at h (crunning c) FlagT" by (simp add: ctx_ok_def ctx_typed_def)
  from ctx_ok_keeps [OF b_wait.IH wait_all_keeps [OF this]] show ?case by (simp add: Context_wait_def)
next
  case (b_others c h h')
  show ?case by (rule ctx_ok_keeps [OF b_others.IH b_others.hyps(2)])
qed

section \<open>When start goes through\<close>

definition no_token :: "shared_value heap \<Rightarrow> usize \<Rightarrow> bool" where
  "no_token h a \<longleftrightarrow> (\<exists>s. h a = Some (SemV s) \<and> amount_of (count s) = 0)"

lemma produce_goes_through:
  "(\<exists>new w. decide oc 1 (one_call Produce) cur = Exchange new w) \<longleftrightarrow> amount_of cur = 0"
proof -
  have small: "unat (amt (one_call Produce)) < 2 ^ 31" by (simp add: one_call_def)
  have "enabled 1 (one_call Produce) (amount_of cur) \<longleftrightarrow> amount_of cur = 0"
    by (simp add: enabled_def one_call_def unat_eq_0)
  then show ?thesis
    by (cases rule: decide_cases [OF small, where oc = oc and m = 1 and cur = cur]) auto
qed

lemma Process_start_iff:
  assumes "process_typed h p" and "pstart p \<noteq> piters p"
  shows "Process_start oc iters p h \<noteq> None \<longleftrightarrow> no_token h (pstart p)"
proof -
  obtain s where s: "h (pstart p) = Some (SemV s)" "smax s = 1"
    using assms(1) by (auto simp: process_typed_def typed_at_def elim!: has_type.elims)
  have "Process_start oc iters p h \<noteq> None
      \<longleftrightarrow> (\<exists>new w. decide oc 1 (one_call Produce) (count s) = Exchange new w)"
    using s assms(2) by (auto simp: Process_start_def Let_def split: decision.splits)
  then show ?thesis using s(1) produce_goes_through by (simp add: no_token_def)
qed

lemma Process_start_touches:
  "Process_start oc iters p h = Some h' \<Longrightarrow> a \<notin> {pstart p, piters p} \<Longrightarrow> h' a = h a"
  by (auto simp: Process_start_def Let_def split: option.splits shared_value.splits decision.splits
      if_splits)

lemma start_all_iff:
  assumes "\<forall>p\<in>set ps. process_typed h p" and "distinct (concat (map process_objects ps))"
  shows "start_all oc iters ps h \<noteq> None \<longleftrightarrow> (\<forall>p\<in>set ps. no_token h (pstart p))"
  using assms
proof (induction ps arbitrary: h)
  case (Cons p ps)
  have p: "process_typed h p" "pstart p \<noteq> piters p" using Cons.prems by (auto simp: process_objects_def)
  show ?case
  proof (cases "Process_start oc iters p h")
    case None
    then show ?thesis using Process_start_iff [OF p, of oc iters] by simp
  next
    case (Some h1)
    have typed: "\<forall>q\<in>set ps. process_typed h1 q"
      using Cons.prems(1) keeps_typed(2) [OF start_keeps [OF Some p(1)]] by simp
    have same: "h1 (pstart q) = h (pstart q)" if "q \<in> set ps" for q
      using Cons.prems(2) that by (intro Process_start_touches [OF Some]) (auto simp: process_objects_def)
    have "start_all oc iters ps h1 \<noteq> None \<longleftrightarrow> (\<forall>q\<in>set ps. no_token h1 (pstart q))"
      using Cons.IH [OF typed] Cons.prems(2) by simp
    moreover have "no_token h (pstart p)" using Some Process_start_iff [OF p, of oc iters] by simp
    ultimately show ?thesis using Some same by (simp add: no_token_def)
  qed
qed simp

section \<open>Properties\<close>


text \<open>A context with one process, as the calls make it.\<close>

definition one_process :: "ctx \<times> shared_value heap" where
  "one_process =
     (\<lparr>callocator = \<lparr>bmem = \<lparr>fd = 3, data = 0x70000000, fsize = 0x40000000\<rparr>, next_off = 256\<rparr>,
       crunning = 0x70000000,
       cprocesses = [\<lparr>pcgroup = ''/x'', pchild = demo_child, pstart = 0x70000040, pready = 0x70000080,
         piters = 0x700000C0\<rparr>]\<rparr>,
      [0x70000000 \<mapsto> FlagV False, 0x70000040 \<mapsto> SemV (Semaphore_new 1 [] 0),
       0x70000080 \<mapsto> SemV (Semaphore_new 1 [] 0), 0x700000C0 \<mapsto> ItersV 0])"

lemma object_layout_b: "object_layout layout_b"
  using layouts_ok(2) by (simp add: object_layout_def layout_b_def)

lemma one_process_built: "built (fst one_process) (snd one_process)"
proof -
  let ?m = "\<lparr>fd = 3, data = 0x70000000, fsize = 0x40000000\<rparr> :: memfd"
  let ?b = "\<lambda>n. \<lparr>bmem = ?m, next_off = n\<rparr>" and ?h0 = "[0x70000000 \<mapsto> FlagV False]"
  let ?c = "\<lparr>callocator = ?b 64, crunning = 0x70000000, cprocesses = []\<rparr>"
  have "MemFd_create True env_ok ''context'' TOTAL_SIZE kernel_stdio
      = (Inr (Inr ?m), \<lparr>open_fds = {0, 1, 2, 3}, mappings = {(0x70000000, 0x40000000)}\<rparr>)"
    by (simp add: memfd_defs env_ok_def kernel_stdio_def round_up_def add_ck_def sub_ck_def
        TOTAL_SIZE_def insert_commute)
  moreover have box: "alloc True layout_b (?b 0) = Inr (Some 0x70000000, ?b 64)"
      "alloc True layout_b (?b 64) = Inr (Some 0x70000040, ?b 128)"
      "alloc True layout_b (?b 128) = Inr (Some 0x70000080, ?b 192)"
      "alloc True layout_b (?b 192) = Inr (Some 0x700000C0, ?b 256)"
    by (simp_all add: alloc_def alloc_target_def round_up_def add_ck_def sub_ck_def layout_b_def)
  ultimately have "\<exists>k. Context_create True env_ok layout_b (kernel_stdio, Map.empty) = (Inr (Inr ?c), k, ?h0)"
    by (simp add: Context_create_def BumpAllocator_new_def SharedBox_new_def)
  then have c: "built ?c ?h0" using object_layout_b by (auto intro!: b_create)
  have "Process_create True (Inr ''/x'') layout_b layout_b (Semaphore_new 1 [] 0) (Inr demo_child) (Inr ())
      (callocator ?c, ?h0) = Inr (Inr (hd (cprocesses (fst one_process))), ?b 256, snd one_process)"
    by (simp add: Process_create_def SharedBox_new_def box one_process_def)
  from b_process [OF c object_layout_b object_layout_b this] show ?thesis
    by (simp add: Context_add_def one_process_def)
qed


end
