(* ===== verification/Teardown.thy ===== *)
theory Teardown
  imports Ctx
begin

text \<open>
  What happens when a process (\<open>workloads/process.rs\<close>) and a context (\<open>workloads/context.rs\<close>) are
  dropped: Rust runs a value's own \<open>drop\<close> and then drops its fields in the order they are
  declared. The effects are the signals sent and the operations on the file system, as a list
  of events, the answers of the kernel that are used, the descriptors closed, and the shared
  memory unmapped.
\<close>

section \<open>Dropping\<close>

datatype event = Signal int string | Fs fs_op

text \<open>
  What the environment answers while one process is dropped: the errors, if any, of the \<open>kill\<close>
  calls of \<open>join\<close> and of the child's own drop, and the cgroup's tasks.
\<close>

record drop_env =
  join_kill :: "string option"
  drop_kill :: "string option"
  drop_tasks :: "string result list option"
  drop_open :: "string \<Rightarrow> bool"

text \<open>\<open>join\<close>, whose result is ignored; then the cgroup, the child, and the three boxes.\<close>

definition Process_drop ::
    "(string \<Rightarrow> string) \<Rightarrow> drop_env \<Rightarrow> process \<Rightarrow> answers \<Rightarrow> fd_table
     \<Rightarrow> (event list \<times> answers \<times> fd_table) option outcome" where
  "Process_drop lossy env p w fds =
     bind_sum (Process_join lossy (join_kill env) (pchild p) w) (\<lambda>r.
       case r of
         None \<Rightarrow> Inr None
       | Some (_, sent1, c1, w1) \<Rightarrow>
           let ops = Cgroup_drop (drop_tasks env) (drop_open env) (pcgroup p) in
           bind_sum (Child_drop lossy (drop_kill env) c1 w1 fds) (\<lambda>r.
             case r of
               None \<Rightarrow> Inr None
             | Some (sent2, w2, fds2) \<Rightarrow>
                 bind_sum (SharedBox_drop False) (\<lambda>_.
                   Inr (Some (map (Signal (cpid c1)) sent1 @ map Fs ops @ map (Signal (cpid c1)) sent2,
                     w2, fds2)))))"

fun drop_all ::
    "(string \<Rightarrow> string) \<Rightarrow> (process \<times> drop_env) list \<Rightarrow> answers \<Rightarrow> fd_table
     \<Rightarrow> (event list \<times> answers \<times> fd_table) option outcome" where
  "drop_all lossy [] w fds = Inr (Some ([], w, fds))"
| "drop_all lossy ((p, env) # ps) w fds =
     bind_sum (Process_drop lossy env p w fds) (\<lambda>r.
       case r of
         None \<Rightarrow> Inr None
       | Some (es, w1, fds1) \<Rightarrow>
           bind_sum (drop_all lossy ps w1 fds1) (\<lambda>r.
             Inr (case r of None \<Rightarrow> None | Some (es2, w2, fds2) \<Rightarrow> Some (es @ es2, w2, fds2))))"

text \<open>
  A context drops its processes in the order they were added; the memory goes with the last
  handle on the allocator, which is the context's unless boxes outlive it (\<open>shared\<close>).
\<close>

definition Context_drop ::
    "(string \<Rightarrow> string) \<Rightarrow> drop_env list \<Rightarrow> bool \<Rightarrow> ctx \<Rightarrow> answers \<Rightarrow> fd_table \<times> kernel
     \<Rightarrow> (event list \<times> answers \<times> fd_table \<times> kernel) option outcome" where
  "Context_drop lossy envs shared c w st =
     bind_sum (drop_all lossy (zip (cprocesses c) envs) w (fst st)) (\<lambda>r.
       Inr (case r of
         None \<Rightarrow> None
       | Some (es, w1, fds) \<Rightarrow>
           Some (es, w1, fds, if shared then snd st else MemFd_drop (bmem (callocator c)) (snd st))))"

text \<open>
  What \<open>create\<close> undoes when it fails: nothing before there is a cgroup; the cgroup alone when an
  object cannot be allocated or the child cannot be started; the whole process when the child
  ends before it is ready.
\<close>

definition create_undo ::
    "(string \<Rightarrow> string) \<Rightarrow> drop_env \<Rightarrow> bool \<Rightarrow> string result \<Rightarrow> layout \<Rightarrow> layout \<Rightarrow> sem \<Rightarrow> string + child
     \<Rightarrow> unit result \<Rightarrow> bump \<times> shared_value heap \<Rightarrow> answers \<Rightarrow> fd_table
     \<Rightarrow> (event list \<times> answers \<times> fd_table) option outcome" where
  "create_undo lossy env oc cgroup sem_layout u32_layout m run ready st w fds =
     (case cgroup of
        Inl e \<Rightarrow> Inr (Some ([], w, fds))
      | Inr path \<Rightarrow>
          bind_sum (Process_create oc cgroup sem_layout u32_layout m run (Inr ()) st) (\<lambda>(r, _).
          case r of
            Inl e \<Rightarrow> Inr (Some (map Fs (Cgroup_drop (drop_tasks env) (drop_open env) path), w, fds))
          | Inr p \<Rightarrow>
              (case ready of
                 Inl e \<Rightarrow> Process_drop lossy env p w fds
               | Inr _ \<Rightarrow> Inr (Some ([], w, fds)))))"

section \<open>What becomes of a child\<close>

text \<open>
  The child's result may already be known; or the child has exited and \<open>alive\<close> finds out; or
  it lives, gets the signal, and its end is reported after answers that say nothing of it.
\<close>

datatype fate =
    Known
  | Exited wait_answer "read_answer list"
  | Alive "wait_answer list" wait_answer "read_answer list"

definition own_status :: "int \<Rightarrow> wait_answer \<Rightarrow> bool" where
  "own_status p a \<longleftrightarrow> (case wait_status a of None \<Rightarrow> False | Some (q, _) \<Rightarrow> q = p)"

fun fate_of :: "child \<Rightarrow> fate \<Rightarrow> bool" where
  "fate_of c Known \<longleftrightarrow> cresult c \<noteq> None"
| "fate_of c (Exited a chunks) \<longleftrightarrow> cresult c = None \<and> own_status (cpid c) a \<and> list_all is_chunk chunks"
| "fate_of c (Alive pre a chunks) \<longleftrightarrow> cresult c = None \<and> list_all (foreign (cpid c)) pre
     \<and> own_status (cpid c) a \<and> list_all is_chunk chunks"

fun fate_answers :: "fate \<Rightarrow> answers" where
  "fate_answers Known = ([], [])"
| "fate_answers (Exited a chunks) = ([a], chunks @ [RBytes []])"
| "fate_answers (Alive pre a chunks) = (WStillAlive # pre @ [a], chunks @ [RBytes []])"

fun fate_signals :: "fate \<Rightarrow> string list" where
  "fate_signals (Alive _ _ _) = [''SIGKILL'']"
| "fate_signals _ = []"

text \<open>The events of dropping one process, and the descriptor that its drop closes.\<close>

definition drop_events :: "process \<Rightarrow> drop_env \<Rightarrow> fate \<Rightarrow> event list" where
  "drop_events p env f = map (Signal (cpid (pchild p))) (fate_signals f)
     @ map Fs (Cgroup_drop (drop_tasks env) (drop_open env) (pcgroup p))"

definition pipe_of :: "process \<Rightarrow> int" where
  "pipe_of p = the (read_fd (notif (pchild p)))"

text \<open>The parent's side of a child that \<open>run\<close> made: its end of the pipe only.\<close>

definition parent_side :: "process \<Rightarrow> bool" where
  "parent_side p \<longleftrightarrow> read_fd (notif (pchild p)) \<noteq> None \<and> write_fd (notif (pchild p)) = None"

lemma wait_own:
  assumes "cresult c = None" and "read_fd (notif c) \<noteq> None" and "own_status (cpid c) a"
    and "list_all (foreign (cpid c)) pre" and "list_all is_chunk chunks"
  shows "\<exists>r. Child_wait lossy True c (pre @ a # ws, chunks @ RBytes [] # rs)
    = Inr (Some (Some r, c\<lparr>cresult := Some r\<rparr>, (ws, rs)))"
proof -
  obtain code sig where "wait_status a = Some (cpid c, code, sig)"
    using assms(3) by (auto simp: own_status_def split: option.splits)
  from Child_wait_own [OF assms(1,2,4,5) this] show ?thesis by blast
qed

lemma alive_exited:
  assumes "cresult c = None" and "read_fd (notif c) \<noteq> None" and "own_status (cpid c) a"
    and "list_all is_chunk chunks"
  shows "\<exists>r. Child_alive lossy c (a # ws, chunks @ RBytes [] # rs)
    = Inr (Some (False, c\<lparr>cresult := Some r\<rparr>, (ws, rs)))"
proof -
  obtain code sig where "wait_status a = Some (cpid c, code, sig)"
    using assms(3) by (auto simp: own_status_def split: option.splits)
  then show ?thesis
    using assms by (auto simp: Child_alive_def Child_wait_def collect_def read_loop_chunks Let_def)
qed

lemma alive_lives:
  assumes "cresult c = None"
  shows "Child_alive lossy c (WStillAlive # ws, rs) = Inr (Some (True, c, (ws, rs)))"
  using assms by (simp add: Child_alive_def Child_wait_def)

text \<open>\<open>join\<close> ends with a known result and exactly the signals of the child's fate.\<close>

lemma join_fate:
  assumes "fate_of c f" and "read_fd (notif c) \<noteq> None"
  shows "\<exists>c'. Process_join lossy None c (fst (fate_answers f) @ ws, snd (fate_answers f) @ rs)
      = Inr (Some (Inr (), fate_signals f, c', (ws, rs)))
    \<and> cresult c' \<noteq> None \<and> cpid c' = cpid c \<and> notif c' = notif c"
proof (cases f)
  case Known
  then show ?thesis using assms by (auto simp: Process_join_def Child_kill_def kept_result)
next
  case (Exited a chunks)
  then obtain r where "Child_alive lossy c (a # ws, chunks @ RBytes [] # rs)
      = Inr (Some (False, c\<lparr>cresult := Some r\<rparr>, (ws, rs)))"
    using alive_exited [of c a chunks lossy ws rs] assms by auto
  then show ?thesis using Exited
    by (simp add: Process_join_def Child_kill_def kept_result(1) [of "c\<lparr>cresult := Some r\<rparr>" r])
next
  case (Alive pre a chunks)
  then obtain r where "Child_wait lossy True c (pre @ a # ws, chunks @ RBytes [] # rs)
      = Inr (Some (Some r, c\<lparr>cresult := Some r\<rparr>, (ws, rs)))"
    using wait_own [of c a pre chunks lossy ws rs] assms by auto
  then show ?thesis using Alive assms by (simp add: Process_join_def Child_kill_def alive_lives)
qed

text \<open>A child whose result is known is dropped without a signal or a system call.\<close>

lemma drop_known:
  assumes "cresult c \<noteq> None"
  shows "Child_drop lossy answer c w fds = Inr (Some ([], w, NotificationFd_drop (notif c) fds))"
  using assms by (auto simp: Child_drop_def Child_kill_def kept_result)

lemma process_drop_fate:
  assumes "fate_of (pchild p) f" and "parent_side p" and "join_kill env = None"
  shows "Process_drop lossy env p (fst (fate_answers f) @ ws, snd (fate_answers f) @ rs) fds
    = Inr (Some (drop_events p env f, (ws, rs), fds - {pipe_of p}))"
proof -
  have side: "read_fd (notif (pchild p)) \<noteq> None" "write_fd (notif (pchild p)) = None"
    using assms(2) by (simp_all add: parent_side_def)
  from join_fate [OF assms(1) side(1)] obtain c' where
    join: "Process_join lossy None (pchild p) (fst (fate_answers f) @ ws, snd (fate_answers f) @ rs)
      = Inr (Some (Inr (), fate_signals f, c', (ws, rs)))"
    and c': "cresult c' \<noteq> None" "cpid c' = cpid (pchild p)" "notif c' = notif (pchild p)" by blast
  have "NotificationFd_drop (notif c') fds = fds - {pipe_of p}"
    using side c'(3) by (auto simp: NotificationFd_drop_def close_write_def close_read_def pipe_of_def)
  then show ?thesis
    using join c' assms(3)
    by (simp add: Process_drop_def drop_known SharedBox_drop_def drop_events_def Let_def)
qed

text \<open>The answers of several children, one child after the other.\<close>

definition all_answers :: "fate list \<Rightarrow> answers" where
  "all_answers fs = (concat (map (fst \<circ> fate_answers) fs), concat (map (snd \<circ> fate_answers) fs))"

lemma drop_all_fates:
  assumes "list_all2 (\<lambda>(p, env) f. fate_of (pchild p) f \<and> parent_side p \<and> join_kill env = None) ps fs"
  shows "drop_all lossy ps (fst (all_answers fs) @ ws, snd (all_answers fs) @ rs) fds
    = Inr (Some (concat (map2 (\<lambda>(p, env) f. drop_events p env f) ps fs), (ws, rs),
        fds - pipe_of ` fst ` set ps))"
  using assms
proof (induction ps fs arbitrary: fds rule: list_all2_induct)
  case Nil
  show ?case by (simp add: all_answers_def)
next
  case (Cons x ps f fs)
  obtain p env where x: "x = (p, env)" by fastforce
  then have "fate_of (pchild p) f" "parent_side p" "join_kill env = None" using Cons.hyps(1) by simp_all
  note first = process_drop_fate [OF this]
  have "fds - {pipe_of p} - pipe_of ` fst ` set ps = fds - pipe_of ` fst ` set (x # ps)" using x by auto
  then show ?case using Cons.IH [of "fds - {pipe_of p}"]
    by (simp add: x first all_answers_def)
qed

text \<open>A creation that fails has failed before the child was waited for, or in that wait.\<close>

lemma create_fails:
  assumes "Process_create oc (Inr path) ls li m run ready st = Inr (Inl e, st')"
  obtains (early) "Process_create oc (Inr path) ls li m run (Inr ()) st = Inr (Inl e, st')"
    | (late) p where "Process_create oc (Inr path) ls li m run (Inr ()) st = Inr (Inr p, st')" "ready = Inl e"
        "run = Inr (pchild p)" "pcgroup p = path"
proof -
  have "Process_create oc (Inr path) ls li m run (Inr ()) st = Inr (Inl e, st')
      \<or> (\<exists>p. Process_create oc (Inr path) ls li m run (Inr ()) st = Inr (Inr p, st') \<and> ready = Inl e
        \<and> run = Inr (pchild p) \<and> pcgroup p = path)"
    using assms unfolding Process_create_def bind_sum_def
    by (auto split: sum.split_asm prod.split_asm)
  then show thesis using that by blast
qed

lemma cgroup_gone: "path \<noteq> [] \<Longrightarrow> last (Cgroup_drop tasks open_ok path) = RemoveAll path
    \<and> Cgroup_drop tasks open_ok path \<noteq> []"
  by (simp add: Cgroup_drop_def Let_def)

section \<open>Properties\<close>


text \<open>Two processes: the first lives and is killed, the second has exited on its own.\<close>

definition two_process_ctx :: ctx where
  "two_process_ctx = \<lparr>callocator = \<lparr>bmem = \<lparr>fd = 9, data = 4096, fsize = 4096\<rparr>, next_off = 64\<rparr>,
     crunning = 1, cprocesses =
       [\<lparr>pcgroup = [], pchild = Child_new 7 \<lparr>read_fd = Some 3, write_fd = None\<rparr>, pstart = 0, pready = 0, piters = 0\<rparr>,
        \<lparr>pcgroup = [], pchild = Child_new 8 \<lparr>read_fd = Some 5, write_fd = None\<rparr>, pstart = 0, pready = 0, piters = 0\<rparr>]\<rparr>"

definition quiet_env :: drop_env where
  "quiet_env = \<lparr>join_kill = None, drop_kill = None, drop_tasks = None, drop_open = (\<lambda>_. True)\<rparr>"


text \<open>
  When the kernel refuses the signal, \<open>join\<close> gives up at once, and the drop goes on: the cgroup
  is removed although the child still runs, and the drop of the child tries the signal again
  and then waits, without an end as long as the child's exit is not reported, and until then.
\<close>

theorem refused_kill_blocks_drop:
  assumes "cresult (pchild p) = None" and "parent_side p"
    and "join_kill env = Some e" and "drop_kill env = Some e'"
    and "list_all (foreign (cpid (pchild p))) pre" and "own_status (cpid (pchild p)) a"
    and "list_all is_chunk chunks"
  shows "Process_drop lossy env p (WStillAlive # WStillAlive # pre, rs) fds = Inr None
    \<and> Process_drop lossy env p (WStillAlive # WStillAlive # pre @ a # ws, chunks @ RBytes [] # rs) fds
      = Inr (Some (Signal (cpid (pchild p)) ''SIGKILL''
          # map Fs (Cgroup_drop (drop_tasks env) (drop_open env) (pcgroup p))
          @ [Signal (cpid (pchild p)) ''SIGKILL''], (ws, rs), fds - {pipe_of p}))"
proof -
  let ?c = "pchild p"
  have join: "Process_join lossy (join_kill env) ?c (WStillAlive # ws', rs')
      = Inr (Some (Inl ''Failed to kill child process'', [''SIGKILL''], ?c, (ws', rs')))" for ws' rs'
    using assms(1,3) by (simp add: Process_join_def Child_kill_def alive_lives)
  have kill: "Child_kill lossy (drop_kill env) ''SIGKILL'' ?c (WStillAlive # ws', rs')
      = Inr (Some (Inl ''Failed to kill child process'', [''SIGKILL''], ?c, (ws', rs')))" for ws' rs'
    using assms(1,4) by (simp add: Child_kill_def alive_lives)
  have "Child_wait lossy True ?c (pre, rs) = Inr None"
    using assms(1) wait_loop_skip [OF assms(5), of lossy "[]" rs] by (simp add: Child_wait_def)
  then have "Process_drop lossy env p (WStillAlive # WStillAlive # pre, rs) fds = Inr None"
    by (simp add: Process_drop_def join Child_drop_def kill Let_def)
  moreover obtain r where "Child_wait lossy True ?c (pre @ a # ws, chunks @ RBytes [] # rs)
      = Inr (Some (Some r, ?c\<lparr>cresult := Some r\<rparr>, (ws, rs)))"
    using wait_own [OF assms(1) _ assms(6,5,7), of lossy ws rs] assms(2) by (auto simp: parent_side_def)
  moreover have "NotificationFd_drop (notif ?c) fds = fds - {pipe_of p}"
    using assms(2)
    by (auto simp: NotificationFd_drop_def close_write_def close_read_def pipe_of_def parent_side_def)
  ultimately show ?thesis
    by (simp add: Process_drop_def join Child_drop_def kill SharedBox_drop_def Let_def)
qed

theorem refused_kill_blocks_drop_witness:
  "Process_drop id (quiet_env\<lparr>join_kill := Some ''EPERM'', drop_kill := Some ''EPERM''\<rparr>)
     (hd (cprocesses two_process_ctx)) ([WStillAlive, WStillAlive, WOther, WOther], []) {0, 3} = Inr None"
proof -
  let ?p = "hd (cprocesses two_process_ctx)"
  have p: "cresult (pchild ?p) = None" "parent_side ?p" "cpid (pchild ?p) = 7"
    by (simp_all add: two_process_ctx_def parent_side_def Child_new_def)
  show ?thesis
    using refused_kill_blocks_drop [where p = ?p and env = "quiet_env\<lparr>join_kill := Some ''EPERM'', drop_kill := Some ''EPERM''\<rparr>"
        and pre = "[WOther, WOther]" and a = "WExited 7 0" and chunks = "[]"] p
    by (simp add: own_status_def foreign_def)
qed



end
