(* ===== verification/Sampling.thy ===== *)
theory Sampling
  imports Reservoir
begin

text \<open>
  The reservoir of \<open>util/stats.rs\<close> with several threads at once: \<open>sample\<close> is not one step but two,
  the \<open>fetch_add\<close> that claims an index and the write of a slot. Any number of threads take them
  in any order. \<open>offered\<close> is a ghost: the items in the order of their claims.
\<close>

section \<open>Steps\<close>

datatype 'a rpc = RIdle | RClaimed nat 'a

record 'a rsys =
  rres :: "'a reservoir"
  rpcs :: "nat \<Rightarrow> 'a rpc"
  offered :: "'a list"

definition write_slot :: "nat \<Rightarrow> nat \<Rightarrow> 'a \<Rightarrow> 'a rsys \<Rightarrow> 'a rsys" where
  "write_slot t k x s = s\<lparr>rres := (rres s)\<lparr>samples := (samples (rres s))[k := Some x]\<rparr>,
     rpcs := (rpcs s)(t := RIdle)\<rparr>"

text \<open>
  A sampler of no slots takes no step. A claimed index below the size is the slot that is
  written; a larger one makes the thread draw a slot.
\<close>

inductive r_step :: "'a rsys \<Rightarrow> 'a rsys \<Rightarrow> bool" where
  claim: "rpcs s t = RIdle \<Longrightarrow> samples (rres s) \<noteq> [] \<Longrightarrow>
    r_step s (s\<lparr>rres := (rres s)\<lparr>rcount := rcount (rres s) + 1\<rparr>,
      rpcs := (rpcs s)(t := RClaimed (unat (rcount (rres s))) x), offered := offered s @ [x]\<rparr>)"
| write_own: "rpcs s t = RClaimed i x \<Longrightarrow> i < length (samples (rres s)) \<Longrightarrow> r_step s (write_slot t i x s)"
| write_random: "rpcs s t = RClaimed i x \<Longrightarrow> length (samples (rres s)) \<le> i \<Longrightarrow>
    k < length (samples (rres s)) \<Longrightarrow> r_step s (write_slot t k x s)"

definition r_init :: "'a reservoir \<Rightarrow> 'a rsys" where
  "r_init r = \<lparr>rres = reservoir_reset r, rpcs = (\<lambda>_. RIdle), offered = []\<rparr>"

inductive r_reach :: "'a reservoir \<Rightarrow> 'a rsys \<Rightarrow> bool" for r where
  start: "r_reach r (r_init r)"
| step: "r_reach r s \<Longrightarrow> r_step s s' \<Longrightarrow> r_reach r s'"

text \<open>The two steps of one thread, nothing in between, are the sequential \<open>sample\<close>.\<close>

lemma alone_is_sample:
  assumes "rpcs s t = RIdle" and "samples (rres s) \<noteq> []" and "k < length (samples (rres s))"
  shows "\<exists>s1 s2. r_step s s1 \<and> r_step s1 s2 \<and> rres s2 = sample k x (rres s) \<and> rpcs s2 t = RIdle
    \<and> offered s2 = offered s @ [x]"
proof -
  let ?i = "unat (rcount (rres s))"
  let ?s1 = "s\<lparr>rres := (rres s)\<lparr>rcount := rcount (rres s) + 1\<rparr>,
      rpcs := (rpcs s)(t := RClaimed ?i x), offered := offered s @ [x]\<rparr>"
  let ?j = "if ?i < length (samples (rres s)) then ?i else k"
  have "r_step ?s1 (write_slot t ?j x ?s1)"
    using r_step.write_own [of ?s1 t ?i x] r_step.write_random [of ?s1 t ?i x k] assms(3) by simp
  moreover have "r_step s ?s1" using assms(1,2) by (rule r_step.claim)
  moreover have "rres (write_slot t ?j x ?s1) = sample k x (rres s)"
    using assms(2) by (simp add: write_slot_def sample_def Let_def)
  ultimately show ?thesis by (intro exI conjI) (auto simp: write_slot_def)
qed

section \<open>The invariant\<close>

text \<open>
  Claims are of different indices, each for its item; a slot in use that no thread is about to
  write holds an offered item, and the item of its index as long as there is room.
\<close>

definition claims_ok :: "'a rsys \<Rightarrow> bool" where
  "claims_ok s \<longleftrightarrow> (\<forall>t i x. rpcs s t = RClaimed i x \<longrightarrow> i < length (offered s) \<and> offered s ! i = x)
     \<and> (\<forall>t u i x y. rpcs s t = RClaimed i x \<and> rpcs s u = RClaimed i y \<longrightarrow> t = u)"

definition slots_ok :: "'a rsys \<Rightarrow> bool" where
  "slots_ok s \<longleftrightarrow> (\<forall>i < min (length (offered s)) (length (samples (rres s))).
     (\<forall>t x. rpcs s t \<noteq> RClaimed i x) \<longrightarrow>
       samples (rres s) ! i \<in> Some ` set (offered s)
       \<and> (length (offered s) \<le> length (samples (rres s)) \<longrightarrow> samples (rres s) ! i = Some (offered s ! i)))"

definition sampling_inv :: "'a reservoir \<Rightarrow> 'a rsys \<Rightarrow> bool" where
  "sampling_inv r s \<longleftrightarrow> length (samples (rres s)) = length (samples r)
     \<and> (length (offered s) < 2 ^ 64 \<longrightarrow>
          unat (rcount (rres s)) = length (offered s) \<and> claims_ok s \<and> slots_ok s)"

lemma sampling_inv_claim:
  assumes "sampling_inv r s" and "rpcs s t = RIdle"
    and s': "s' = s\<lparr>rres := (rres s)\<lparr>rcount := rcount (rres s) + 1\<rparr>,
      rpcs := (rpcs s)(t := RClaimed (unat (rcount (rres s))) x), offered := offered s @ [x]\<rparr>"
  shows "sampling_inv r s'"
proof -
  let ?n = "length (offered s)"
  have "unat (rcount (rres s')) = length (offered s') \<and> claims_ok s' \<and> slots_ok s'" if "length (offered s') < 2 ^ 64"
  proof (intro conjI)
    have small: "Suc ?n < 2 ^ 64" using that by (simp add: s')
    then have old: "unat (rcount (rres s)) = ?n" "claims_ok s" "slots_ok s"
      using assms(1) by (simp_all add: sampling_inv_def)
    show "unat (rcount (rres s')) = length (offered s')"
      using old(1) small by (simp add: s' unat_add_no_overflow)
    show "claims_ok s'"
      using old(1,2) by (auto simp: s' claims_ok_def nth_append less_Suc_eq)
    show "slots_ok s'"
      unfolding slots_ok_def
    proof (intro allI impI)
      fix i assume i: "i < min (length (offered s')) (length (samples (rres s')))"
        and free: "\<forall>u y. rpcs s' u \<noteq> RClaimed i y"
      have "rpcs s' t = RClaimed ?n x" by (simp add: s' old(1))
      then have "i \<noteq> ?n" using free by blast
      then have "i < ?n" using i by (simp add: s' less_Suc_eq)
      moreover have "\<forall>u y. rpcs s u \<noteq> RClaimed i y"
      proof (intro allI)
        fix u y
        have "rpcs s' u \<noteq> RClaimed i y" using free by blast
        then show "rpcs s u \<noteq> RClaimed i y" using assms(2) by (cases "u = t") (simp_all add: s')
      qed
      ultimately have "samples (rres s) ! i \<in> Some ` set (offered s)
        \<and> (?n \<le> length (samples (rres s)) \<longrightarrow> samples (rres s) ! i = Some (offered s ! i))"
        using old(3) i unfolding slots_ok_def by (simp add: s')
      then show "samples (rres s') ! i \<in> Some ` set (offered s')
        \<and> (length (offered s') \<le> length (samples (rres s')) \<longrightarrow> samples (rres s') ! i = Some (offered s' ! i))"
        using \<open>i < ?n\<close> by (auto simp: s' nth_append)
    qed
  qed
  moreover have "length (samples (rres s')) = length (samples r)" using assms(1) by (simp add: s' sampling_inv_def)
  ultimately show ?thesis by (simp add: sampling_inv_def)
qed

text \<open>A write to the claimed slot, or to any slot once an index is beyond the size.\<close>

lemma sampling_inv_write:
  assumes "sampling_inv r s" and pc: "rpcs s t = RClaimed i x"
    and k: "k < length (samples (rres s))" "k = i \<or> length (samples (rres s)) \<le> i"
  shows "sampling_inv r (write_slot t k x s)"
proof -
  let ?s' = "write_slot t k x s"
  have "unat (rcount (rres ?s')) = length (offered ?s') \<and> claims_ok ?s' \<and> slots_ok ?s'"
    if "length (offered ?s') < 2 ^ 64"
  proof (intro conjI)
    have old: "unat (rcount (rres s)) = length (offered s)" "claims_ok s" "slots_ok s"
      using assms(1) that by (simp_all add: sampling_inv_def write_slot_def)
    have i: "i < length (offered s)" "offered s ! i = x" using old(2) pc by (auto simp: claims_ok_def)
    show "unat (rcount (rres ?s')) = length (offered ?s')" using old(1) by (simp add: write_slot_def)
    show "claims_ok ?s'" using old(2) by (auto simp: claims_ok_def write_slot_def)
    show "slots_ok ?s'"
      unfolding slots_ok_def
    proof (intro allI impI)
      fix j assume j: "j < min (length (offered ?s')) (length (samples (rres ?s')))"
        and free: "\<forall>u y. rpcs ?s' u \<noteq> RClaimed j y"
      have mem: "Some x \<in> Some ` set (offered s)" using i by auto
      show "samples (rres ?s') ! j \<in> Some ` set (offered ?s')
        \<and> (length (offered ?s') \<le> length (samples (rres ?s')) \<longrightarrow> samples (rres ?s') ! j = Some (offered ?s' ! j))"
      proof (cases "j = k")
        case True
        then show ?thesis using mem i k j by (auto simp: write_slot_def)
      next
        case False
        have "\<forall>u y. rpcs s u \<noteq> RClaimed j y"
        proof (intro allI)
          fix u y
          have "rpcs ?s' u \<noteq> RClaimed j y" using free by blast
          then show "rpcs s u \<noteq> RClaimed j y"
            using False pc k(2) j by (cases "u = t") (auto simp: write_slot_def)
        qed
        then show ?thesis using old(3) j False by (simp add: slots_ok_def write_slot_def)
      qed
    qed
  qed
  moreover have "length (samples (rres ?s')) = length (samples r)"
    using assms(1) by (simp add: sampling_inv_def write_slot_def)
  ultimately show ?thesis by (simp add: sampling_inv_def)
qed

lemma r_reach_inv: "r_reach r s \<Longrightarrow> sampling_inv r s"
proof (induction rule: r_reach.induct)
  case start
  show ?case by (simp add: sampling_inv_def r_init_def reservoir_reset_def claims_ok_def slots_ok_def)
next
  case (step s s')
  from step.hyps(2) show ?case
  proof cases
    case (claim t x)
    show ?thesis by (rule sampling_inv_claim [OF step.IH claim(2,1)])
  next
    case (write_own t i x)
    then show ?thesis using sampling_inv_write [OF step.IH write_own(2), of i] by simp
  next
    case (write_random t i x k)
    then show ?thesis using sampling_inv_write [OF step.IH write_random(2), of k] by simp
  qed
qed

section \<open>Properties\<close>

text \<open>
  C21. Any number of threads may sample at once: whatever the interleaving of claims and writes on a
  reservoir that is new or was reset, when no thread is between the two, what is collected are
  the first \<open>min(n, N)\<close> slots and every one holds an item offered since; and while no more
  than \<open>N\<close> were offered no sample is lost or overwritten: they are all there, in the order of
  their claims.
\<close>

theorem concurrent_samples_kept:
  assumes "r_reach r s" and "samples r \<noteq> []" and "\<forall>t. rpcs s t = RIdle" and "length (offered s) < 2 ^ 64"
  shows "length (reservoir_read (rres s)) = min (length (offered s)) (length (samples r))
    \<and> set (reservoir_read (rres s)) \<subseteq> Some ` set (offered s)
    \<and> (length (offered s) \<le> length (samples r) \<longrightarrow> reservoir_read (rres s) = map Some (offered s))"
proof -
  have inv: "length (samples (rres s)) = length (samples r)" "unat (rcount (rres s)) = length (offered s)" "slots_ok s"
    using r_reach_inv [OF assms(1)] assms(4) by (simp_all add: sampling_inv_def)
  have slot: "samples (rres s) ! i \<in> Some ` set (offered s)
      \<and> (length (offered s) \<le> length (samples r) \<longrightarrow> samples (rres s) ! i = Some (offered s ! i))"
    if "i < min (length (offered s)) (length (samples r))" for i
    using inv(3) that assms(3) unfolding slots_ok_def inv(1) by simp
  have read: "reservoir_read (rres s) = map (\<lambda>i. samples (rres s) ! i) [0 ..< min (length (offered s)) (length (samples r))]"
    using assms(2) inv(1,2) by (auto simp: reservoir_read_def)
  show ?thesis unfolding read using slot by (auto simp: min_def intro!: nth_equalityI)
qed

text \<open>Two threads claim before either writes, and write in the other order.\<close>

lemma idle_again: "(\<lambda>_. RIdle)(0 := p, Suc 0 := RIdle) = (\<lambda>_. RIdle)(0 := p)"
  "(\<lambda>_. RIdle)(t := RIdle) = (\<lambda>_. RIdle)"
  by auto

definition crossed_writes :: "nat rsys" where
  "crossed_writes = \<lparr>rres = \<lparr>samples = [Some 5, Some 6, None], rcount = 2\<rparr>, rpcs = (\<lambda>_. RIdle), offered = [5, 6]\<rparr>"

lemma crossed_writes_reach: "r_reach (ReservoirSampler_new 3) crossed_writes"
proof -
  let ?r = "ReservoirSampler_new 3 :: nat reservoir"
  have r: "?r = \<lparr>samples = [None, None, None], rcount = 0\<rparr>"
    by (simp add: ReservoirSampler_new_def numeral_3_eq_3)
  have init: "r_init ?r = \<lparr>rres = ?r, rpcs = (\<lambda>_. RIdle), offered = []\<rparr>"
    by (simp add: r_init_def r reservoir_reset_def)
  note step = r_reach.step [where r = ?r]
  have "r_reach ?r (r_init ?r)" by (rule r_reach.start)
  from step [OF this [unfolded init] r_step.claim [where t = 0 and x = 5]]
  have one: "r_reach ?r \<lparr>rres = \<lparr>samples = [None, None, None], rcount = 1\<rparr>,
      rpcs = (\<lambda>_. RIdle)(0 := RClaimed 0 5), offered = [5]\<rparr>" by (simp add: r)
  from step [OF this r_step.claim [where t = 1 and x = 6]]
  have "r_reach ?r \<lparr>rres = \<lparr>samples = [None, None, None], rcount = 2\<rparr>,
      rpcs = (\<lambda>_. RIdle)(0 := RClaimed 0 5, 1 := RClaimed 1 6), offered = [5, 6]\<rparr>" by simp
  from step [OF this r_step.write_own [where t = 1 and i = 1 and x = 6]]
  have "r_reach ?r \<lparr>rres = \<lparr>samples = [None, Some 6, None], rcount = 2\<rparr>,
      rpcs = (\<lambda>_. RIdle)(0 := RClaimed 0 5), offered = [5, 6]\<rparr>" by (simp add: write_slot_def idle_again)
  from step [OF this r_step.write_own [where t = 0 and i = 0 and x = 5]]
  show ?thesis by (simp add: write_slot_def crossed_writes_def idle_again)
qed

theorem concurrent_samples_kept_witness: "reservoir_read (rres crossed_writes) = [Some 5, Some 6]"
  using concurrent_samples_kept [OF crossed_writes_reach]
  by (simp add: crossed_writes_def ReservoirSampler_new_def)

text \<open>
  Collecting is only safe when nobody samples: between the claim and the write of any thread the
  slot is counted and not written, and a collection that comes in between reads it, uninitialised
  in a new reservoir and stale in one that was reset.
\<close>

theorem collect_reads_claimed_slot:
  assumes "samples r \<noteq> []"
  shows "\<exists>s. r_reach r s \<and> offered s = [x] \<and> reservoir_read (rres s) = [hd (samples r)]"
proof -
  let ?s = "(r_init r)\<lparr>rres := (rres (r_init r))\<lparr>rcount := rcount (rres (r_init r)) + 1\<rparr>,
      rpcs := (rpcs (r_init r))(0 := RClaimed (unat (rcount (rres (r_init r)))) x), offered := offered (r_init r) @ [x]\<rparr>"
  have "r_step (r_init r) ?s"
    using assms by (intro r_step.claim) (simp_all add: r_init_def reservoir_reset_def)
  then have "r_reach r ?s" by (rule r_reach.step [OF r_reach.start])
  moreover have "reservoir_read (rres ?s) = [hd (samples r)]"
    using assms by (cases "samples r") (simp_all add: r_init_def reservoir_reset_def reservoir_read_take)
  ultimately show ?thesis by (intro exI [of _ ?s]) (simp add: r_init_def)
qed

theorem collect_reads_claimed_slot_witness:
  "\<exists>s. r_reach (ReservoirSampler_new 2) s \<and> offered s = [7 :: nat] \<and> reservoir_read (rres s) = [None]"
proof -
  have "samples (ReservoirSampler_new 2 :: nat reservoir) \<noteq> []" "hd (samples (ReservoirSampler_new 2 :: nat reservoir)) = None"
    by (simp_all add: ReservoirSampler_new_def)
  then show ?thesis using collect_reads_claimed_slot [of "ReservoirSampler_new 2" "7 :: nat"] by simp
qed

end
