(* ===== verification/Stats.thy ===== *)
theory Stats
  imports Reservoir Text Float_Bounds
begin

text \<open>
  The distributions of \<open>util/stats.rs\<close>: conversion of values to and from doubles, estimates and
  their percentiles, and the similarity of two estimates. A duration is its number of
  nanoseconds. The t-digest that summarises the samples is a third-party type: its operations
  are a parameter.
\<close>

section \<open>Values of a distribution\<close>

definition as_secs_f64 :: "nat \<Rightarrow> f64" where
  "as_secs_f64 n =
     f_add (f_of_nat (n div 10 ^ 9)) (f_div (f_of_nat (n mod 10 ^ 9)) (f_of_nat (10 ^ 9)))"

text \<open>\<open>(v * 1_000_000_000.0) as u64\<close>, as nanoseconds.\<close>

definition nanos_of_secs :: "f64 \<Rightarrow> nat" where
  "nanos_of_secs v = f_to_uint 64 (f_mul v (Fin (10 ^ 9)))"

definition Duration_to_u64 :: "nat \<Rightarrow> u64" where
  "Duration_to_u64 n = word_of_nat n"

definition Duration_from_u64 :: "u64 \<Rightarrow> nat" where
  "Duration_from_u64 v = unat v"

text \<open>
  What the generic code does with the type of its values: \<open>to_f64\<close> and the conversion back.
  For \<open>f64\<close> both go through the bits of the double and change nothing.
\<close>

record 'v dist_value =
  to_f64 :: "'v \<Rightarrow> f64"
  of_f64 :: "f64 \<Rightarrow> 'v"

definition duration_value :: "nat dist_value" where
  "duration_value =
     \<lparr>to_f64 = as_secs_f64, of_f64 = \<lambda>v. Duration_from_u64 (word_of_nat (nanos_of_secs v))\<rparr>"

definition f64_value :: "f64 dist_value" where
  "f64_value = \<lparr>to_f64 = id, of_f64 = id\<rparr>"

section \<open>Estimates\<close>

record 'v estimates =
  est_count :: nat
  quantiles :: "(f64 \<times> 'v) list"

definition EPSILON :: f64 where
  "EPSILON = Fin (1 / 2 ^ 52)"

definition near :: "f64 \<Rightarrow> f64 \<Rightarrow> f64 \<Rightarrow> bool" where
  "near eps a b = f_lt (f_abs (f_sub a b)) eps"

text \<open>The first two neighbours that have a percentile between them.\<close>

fun bracket :: "(f64 \<times> 'v) list \<Rightarrow> f64 \<Rightarrow> ((f64 \<times> 'v) \<times> f64 \<times> 'v) option" where
  "bracket (a # b # qs) p =
     (if f_le (fst a) p \<and> f_le p (fst b) then Some (a, b) else bracket (b # qs) p)"
| "bracket _ p = None"

definition lerp :: "'v dist_value \<Rightarrow> (f64 \<times> 'v) \<times> f64 \<times> 'v \<Rightarrow> f64 \<Rightarrow> 'v" where
  "lerp V ab p =
     (case ab of ((p1, v1), (p2, v2)) \<Rightarrow>
       let factor = f_div (f_sub p p1) (f_sub p2 p1)
       in of_f64 V (f_add (to_f64 V v1) (f_mul (f_sub (to_f64 V v2) (to_f64 V v1)) factor)))"

definition Estimates_percentile :: "'v dist_value \<Rightarrow> 'v estimates \<Rightarrow> f64 \<Rightarrow> 'v option" where
  "Estimates_percentile V e p =
     (case find (\<lambda>q. near EPSILON (fst q) p) (quantiles e) of
        Some q \<Rightarrow> Some (snd q)
      | None \<Rightarrow>
          if quantiles e = [] then None
          else if f_le p (fst (hd (quantiles e))) then Some (snd (hd (quantiles e)))
          else if f_le (fst (last (quantiles e))) p then Some (snd (last (quantiles e)))
          else map_option (\<lambda>ab. lerp V ab p) (bracket (quantiles e) p))"

text \<open>
  \<open>Display\<close>: the loop runs to \<open>len - 1\<close>. Without quantiles the subtraction overflows, or, when it
  wraps, the first index is out of bounds.
\<close>

definition show_estimates ::
    "(f64 \<Rightarrow> string) \<Rightarrow> ('v \<Rightarrow> string) \<Rightarrow> bool \<Rightarrow> 'v estimates \<Rightarrow> string outcome" where
  "show_estimates show_f show_v oc e =
     (if quantiles e = [] then Inl (if oc then ArithOverflow else IndexOutOfBounds)
      else Inr (''count: '' @ show_nat (est_count e)
        @ concat (map (\<lambda>(p, v). '', p'' @ show_f (f_mul p (Fin 100)) @ '': '' @ show_v v)
            (butlast (quantiles e)))))"

section \<open>Similarity\<close>

type_synonym curve = "(f64 \<times> f64) list"

definition width :: "curve \<Rightarrow> nat \<Rightarrow> f64" where
  "width qs i =
     f_add
       (if i = 0 then fst (qs ! 0) else f_div (f_sub (fst (qs ! i)) (fst (qs ! (i - 1)))) (Fin 2))
       (if i = length qs - 1 then f_sub (Fin 1) (fst (qs ! i))
        else f_div (f_sub (fst (qs ! (i + 1))) (fst (qs ! i))) (Fin 2))"

definition interpolate_value :: "curve \<Rightarrow> f64 \<Rightarrow> f64" where
  "interpolate_value qs p =
     (if qs = [] then Fin 0
      else if f_le p (fst (hd qs)) then snd (hd qs)
      else if f_le (fst (last qs)) p then snd (last qs)
      else (case bracket qs p of
          None \<Rightarrow> Fin 0
        | Some ((p1, v1), (p2, v2)) \<Rightarrow>
            f_add v1 (f_div (f_mul (f_sub v2 v1) (f_sub p p1)) (f_sub p2 p1))))"

definition push_new :: "f64 list \<Rightarrow> f64 \<Rightarrow> f64 list" where
  "push_new ps p = (if list_ex (\<lambda>q. f_eq q p) ps then ps else ps @ [p])"

text \<open>The sort is of percentiles that are numbers: with a NaN among them its order is unspecified.\<close>

definition merge_quantiles :: "curve \<Rightarrow> curve \<Rightarrow> curve" where
  "merge_quantiles a b =
     map (\<lambda>p. (p, f_div (f_add (interpolate_value a p) (interpolate_value b p)) (Fin 2)))
       (sort (foldl push_new (foldl push_new [] (map fst a)) (map fst b)))"

definition first_value :: "curve \<Rightarrow> f64" where
  "first_value qs = (case qs of [] \<Rightarrow> Fin 0 | q # _ \<Rightarrow> snd q)"

definition last_value :: "curve \<Rightarrow> f64" where
  "last_value qs = (if qs = [] then Fin 0 else snd (last qs))"

definition distance :: "curve \<Rightarrow> curve \<Rightarrow> f64" where
  "distance a b =
     (if a = [] \<or> b = [] then Fin 1
      else
        let qs = merge_quantiles a b;
            total_min = f_min (first_value a) (first_value b);
            total_max = f_max (last_value a) (last_value b) in
        if f_lt (f_abs (f_sub total_max total_min)) EPSILON then Fin 0
        else f_div
          (foldl (\<lambda>d (i, p).
              f_add d (f_mul (width qs i) (f_abs (f_sub (interpolate_value a p) (interpolate_value b p)))))
            (Fin 0) (enumerate 0 (map fst qs)))
          (f_sub total_max total_min))"

definition curve_of :: "'v dist_value \<Rightarrow> 'v estimates \<Rightarrow> curve" where
  "curve_of V e = map (\<lambda>(p, v). (p, to_f64 V v)) (quantiles e)"

definition similarity :: "'v dist_value \<Rightarrow> 'v estimates \<Rightarrow> 'v estimates \<Rightarrow> f64" where
  "similarity V a b = f_sub (Fin 1) (distance (curve_of V a) (curve_of V b))"

section \<open>Distributions\<close>

record 'd digest_ops =
  new_with_size :: "nat \<Rightarrow> 'd"
  merge_unsorted :: "'d \<Rightarrow> f64 list \<Rightarrow> 'd"
  estimate_quantile :: "'d \<Rightarrow> f64 \<Rightarrow> f64"
  digest_count :: "'d \<Rightarrow> f64"

definition Distribution_new :: "'d digest_ops \<Rightarrow> 'd" where
  "Distribution_new D = new_with_size D 100"

definition Distribution_add :: "'d digest_ops \<Rightarrow> 'v dist_value \<Rightarrow> 'v \<Rightarrow> 'd \<Rightarrow> 'd" where
  "Distribution_add D V v d = merge_unsorted D d [to_f64 V v]"

text \<open>\<open>None\<close> is the read of a slot that was never written.\<close>

definition Distribution_add_all ::
    "'d digest_ops \<Rightarrow> 'v dist_value \<Rightarrow> 'v reservoir \<Rightarrow> 'd \<Rightarrow> 'd option" where
  "Distribution_add_all D V r d =
     (if samples r = [] then Some d
      else map_option (\<lambda>vs. merge_unsorted D d (map (to_f64 V) vs)) (those (reservoir_read r)))"

definition standard_percentiles :: "f64 list" where
  "standard_percentiles = map rnd [1 / 1000, 1 / 100, 1 / 10, 1 / 2, 9 / 10, 99 / 100, 999 / 1000]"

definition Distribution_estimates :: "'d digest_ops \<Rightarrow> 'v dist_value \<Rightarrow> 'd \<Rightarrow> 'v estimates" where
  "Distribution_estimates D V d =
     \<lparr>est_count = f_to_uint 64 (digest_count D d),
      quantiles = map (\<lambda>p. (p, of_f64 V (estimate_quantile D d p))) standard_percentiles\<rparr>"

section \<open>Brackets\<close>

text \<open>Between a first percentile not above and a last not below there is always a bracket.\<close>

lemma bracket_found:
  assumes "qs \<noteq> []" and "\<forall>q\<in>set qs. fst q \<noteq> NaN" and "p \<noteq> NaN"
    and "\<not> f_le p (fst (hd qs))" and "\<not> f_le (fst (last qs)) p"
  shows "\<exists>i. Suc i < length qs \<and> bracket qs p = Some (qs ! i, qs ! Suc i)
    \<and> f_le (fst (qs ! i)) p \<and> f_le p (fst (qs ! Suc i))"
  using assms
proof (induction qs p rule: bracket.induct [case_names two none one])
  case (two a b qs p)
  have le: "f_le (fst a) p" using two(3,4,5) f_le_total [of "fst a" p] by auto
  show ?case
  proof (cases "f_le p (fst b)")
    case True
    then show ?thesis using le by (intro exI [of _ 0]) simp
  next
    case False
    then have "\<exists>i. Suc i < length (b # qs) \<and> bracket (b # qs) p = Some ((b # qs) ! i, (b # qs) ! Suc i)
      \<and> f_le (fst ((b # qs) ! i)) p \<and> f_le p (fst ((b # qs) ! Suc i))"
      using two le by simp
    then obtain i where "Suc i < length (b # qs)" "bracket (b # qs) p = Some ((b # qs) ! i, (b # qs) ! Suc i)"
      "f_le (fst ((b # qs) ! i)) p" "f_le p (fst ((b # qs) ! Suc i))" by (elim exE conjE)
    then show ?thesis using False by (intro exI [of _ "Suc i"]) simp
  qed
next
  case (one q p)
  then show ?case using f_le_total [of "fst q" p] by auto
qed simp

section \<open>The standard percentiles\<close>

lemma rnd_1_1000: "rnd (1 / 1000) = Fin (1152921504606847 / 1152921504606846976)"
  by (rule rnd_eqI [where k = 10 and m = 4611686018427388, THEN trans]) simp_all

lemma rnd_1_100: "rnd (1 / 100) = Fin (5764607523034235 / 576460752303423488)"
  by (rule rnd_eqI [where k = 7 and m = 5764607523034235, THEN trans]) simp_all

lemma rnd_1_10: "rnd (1 / 10) = Fin (3602879701896397 / 36028797018963968)"
  by (rule rnd_eqI [where k = 4 and m = 7205759403792794, THEN trans]) simp_all

lemma rnd_1_2: "rnd (1 / 2) = Fin (1 / 2)"
  by (rule rnd_eqI [where k = 1 and m = 4503599627370496, THEN trans]) simp_all

lemma rnd_9_10: "rnd (9 / 10) = Fin (8106479329266893 / 9007199254740992)"
  by (rule rnd_eqI [where k = 1 and m = 8106479329266893, THEN trans]) simp_all

lemma rnd_99_100: "rnd (99 / 100) = Fin (4458563631096791 / 4503599627370496)"
  by (rule rnd_eqI [where k = 1 and m = 8917127262193582, THEN trans]) simp_all

lemma rnd_999_1000: "rnd (999 / 1000) = Fin (8998192055486251 / 9007199254740992)"
  by (rule rnd_eqI [where k = 1 and m = 8998192055486251, THEN trans]) simp_all

lemmas rnd_percentiles = rnd_1_1000 rnd_1_100 rnd_1_10 rnd_1_2 rnd_9_10 rnd_99_100 rnd_999_1000

lemma standard_values:
  "standard_percentiles = [Fin (1152921504606847 / 1152921504606846976), Fin (5764607523034235 / 576460752303423488), Fin (3602879701896397 / 36028797018963968), Fin (1 / 2), Fin (8106479329266893 / 9007199254740992), Fin (4458563631096791 / 4503599627370496), Fin (8998192055486251 / 9007199254740992)]"
  by (simp add: standard_percentiles_def rnd_percentiles)

lemma standard_length: "length standard_percentiles = 7" "standard_percentiles \<noteq> []"
  by (simp_all add: standard_percentiles_def)

fun f_val :: "f64 \<Rightarrow> rat" where
  "f_val (Fin x) = x"
| "f_val a = 0"

text \<open>A percentile, and two percentiles that are at least \<open>2 ^ (- 20)\<close> apart.\<close>

definition unit_point :: "f64 \<Rightarrow> bool" where
  "unit_point p \<longleftrightarrow> p = Fin (f_val p) \<and> 0 \<le> f_val p \<and> f_val p \<le> 1"

definition apart :: "f64 \<Rightarrow> f64 \<Rightarrow> bool" where
  "apart p q \<longleftrightarrow> f_val p + 1 / 2 ^ 20 \<le> f_val q"

lemma standard_points: "\<forall>p\<in>set standard_percentiles. unit_point p" "sorted_wrt apart standard_percentiles"
  by (simp_all add: standard_values unit_point_def apart_def)

lemma unit_point_mag: "unit_point p \<Longrightarrow> mag 0 p"
  by (cases p) (auto simp: unit_point_def mag_def)

lemma unit_point_not_NaN: "unit_point p \<Longrightarrow> p \<noteq> NaN"
  using mag_not_NaN unit_point_mag by blast

lemma rnd_inverse_power: "k \<le> 1000 \<Longrightarrow> rnd (1 / 2 ^ k) = Fin (1 / 2 ^ k)"
  by (rule rnd_eqI [where k = k and m = "2 ^ 52", THEN trans]) (auto simp: power_add intro: divide_strict_right_mono)

lemma sub_gap:
  assumes "unit_point p" and "unit_point q" and "f_val p + 1 / 2 ^ k \<le> f_val q" and "k \<le> 1000"
  shows "\<exists>y. f_sub q p = Fin y \<and> 1 / 2 ^ k \<le> y"
proof -
  have "f_le (rnd (1 / 2 ^ k)) (rnd (f_val q - f_val p))" using assms(3) by (intro rnd_mono) simp
  moreover have "f_sub q p = rnd (f_val q - f_val p)"
    using assms by (cases p; cases q) (auto simp: unit_point_def f_sub_def)
  moreover have "mag 1 (f_sub q p)"
    using mag_sub [of 0 q p] unit_point_mag assms(1,2) by simp
  ultimately show ?thesis by (auto simp: mag_def rnd_inverse_power [OF assms(4)])
qed

lemma sub_apart:
  "unit_point p \<Longrightarrow> unit_point q \<Longrightarrow> apart p q \<Longrightarrow> \<exists>y. f_sub q p = Fin y \<and> 1 / 2 ^ 20 \<le> y"
  by (rule sub_gap) (simp_all add: apart_def)

lemma near_self: "unit_point p \<Longrightarrow> near (Fin e) p p \<longleftrightarrow> 0 < e"
  by (auto simp: near_def f_sub_self [OF unit_point_mag] f_abs_def f_lt_def)

lemma not_near_gap:
  assumes "unit_point p" and "unit_point q" and "f_val p + 1 / 2 ^ k \<le> f_val q" and "k \<le> 1000"
    and "e \<le> 1 / 2 ^ k"
  shows "\<not> near (Fin e) p q" and "\<not> near (Fin e) q p"
proof -
  obtain y where y: "f_sub q p = Fin y" "1 / 2 ^ k \<le> y" using sub_gap [OF assms(1-4)] by blast
  have "0 \<le> y" using y(2) by (rule order_trans [rotated]) simp
  then have "f_abs (f_sub q p) = Fin y" by (auto simp: y(1) f_abs_def f_lt_def)
  then show "\<not> near (Fin e) q p" using y(2) assms(5) by (simp add: near_def f_lt_def)
  then show "\<not> near (Fin e) p q" by (simp add: near_def f_abs_sub_commute [of p])
qed

text \<open>So a stored percentile is found as itself.\<close>

lemma find_own:
  assumes "\<forall>q\<in>set qs. unit_point (fst q)" and "sorted_wrt apart (map fst qs)" and "k < length qs"
  shows "find (\<lambda>q. near EPSILON (fst q) (fst (qs ! k))) qs = Some (qs ! k)"
proof -
  have u: "unit_point (fst (qs ! i))" if "i < length qs" for i using assms(1) that by simp
  have "\<not> near EPSILON (fst (qs ! j)) (fst (qs ! k))" if "j < k" for j
  proof -
    have "apart (fst (qs ! j)) (fst (qs ! k))"
      using sorted_wrt_nth_less [OF assms(2), of j k] that assms(3) by simp
    then show ?thesis unfolding EPSILON_def
      using that assms(3) u by (intro not_near_gap(1) [where k = 20]) (simp_all add: apart_def)
  qed
  then show ?thesis using assms(3) near_self [OF u [OF assms(3)], of "1 / 2 ^ 52"]
    by (auto simp: find_Some_iff EPSILON_def intro!: exI [of _ k])
qed

lemma digest_curve:
  "map fst (quantiles (Distribution_estimates D V d)) = standard_percentiles"
  by (simp add: Distribution_estimates_def comp_def)

text \<open>A digest whose every quantile is its percentile.\<close>

definition demo_digest :: "unit digest_ops" where
  "demo_digest = \<lparr>new_with_size = \<lambda>_. (), merge_unsorted = \<lambda>d _. d, estimate_quantile = \<lambda>_ p. p,
     digest_count = \<lambda>_. Fin 3\<rparr>"

end
