(* ===== verification/StatsProps.thy ===== *)
theory StatsProps
  imports Stats
begin

text \<open>
  What the distributions guarantee: percentiles of estimates, merging of percentiles, the laws
  of the similarity, and what a duration loses on its way through seconds.
\<close>

section \<open>Merging\<close>

lemma push_new_set: "p \<noteq> NaN \<Longrightarrow> set (push_new ps p) = insert p (set ps)"
  by (auto simp: push_new_def list_ex_iff f_eq_def)

lemma push_new_distinct: "distinct ps \<Longrightarrow> p \<noteq> NaN \<Longrightarrow> distinct (push_new ps p)"
  by (auto simp: push_new_def list_ex_iff f_eq_def)

lemma fold_push_new:
  assumes "NaN \<notin> set xs"
  shows "set (foldl push_new ps xs) = set ps \<union> set xs \<and> (distinct ps \<longrightarrow> distinct (foldl push_new ps xs))"
  using assms
proof (induction xs arbitrary: ps)
  case (Cons x xs)
  then show ?case using Cons.IH [of "push_new ps x"] push_new_set [of x ps] push_new_distinct [of ps x] by auto
qed simp

lemma merged_percentiles:
  assumes "NaN \<notin> fst ` set a" and "NaN \<notin> fst ` set b"
  shows "map fst (merge_quantiles a b) = sorted_list_of_set (fst ` set a \<union> fst ` set b)"
proof -
  let ?ps = "foldl push_new (foldl push_new [] (map fst a)) (map fst b)"
  have "set ?ps = fst ` set a \<union> fst ` set b" "distinct ?ps"
    using fold_push_new [of "map fst b" "foldl push_new [] (map fst a)"]
      fold_push_new [of "map fst a" "[]"] assms by auto
  then have "sort ?ps = sorted_list_of_set (fst ` set a \<union> fst ` set b)"
    by (metis sorted_list_of_set_sort_remdups distinct_remdups_id)
  then show ?thesis by (simp add: merge_quantiles_def comp_def)
qed

section \<open>Well-formed curves\<close>

text \<open>
  A quantile function as estimates give it: at most 256 points, percentiles in the unit
  interval at least \<open>2 ^ (- 20)\<close> apart in increasing order, values of at most \<open>2 ^ 64\<close> that do
  not decrease.
\<close>

definition proper_curve :: "curve \<Rightarrow> bool" where
  "proper_curve qs \<longleftrightarrow> qs \<noteq> [] \<and> length qs \<le> 256
     \<and> (\<forall>q\<in>set qs. unit_point (fst q) \<and> mag 64 (snd q))
     \<and> sorted_wrt apart (map fst qs)
     \<and> sorted (map snd qs)"

lemma unit_point_le: "unit_point p \<Longrightarrow> unit_point q \<Longrightarrow> f_le p q \<longleftrightarrow> f_val p \<le> f_val q"
  by (cases p; cases q) (auto simp: unit_point_def)

lemma interpolate_mag:
  assumes "proper_curve qs" and "unit_point p"
  shows "mag 88 (interpolate_value qs p)"
proof -
  have pt: "unit_point (fst q)" "mag 64 (snd q)" if "q \<in> set qs" for q
    using assms(1) that by (auto simp: proper_curve_def)
  have ne: "qs \<noteq> []" using assms(1) by (simp add: proper_curve_def)
  have v: "mag 88 (snd q)" if "q \<in> set qs" for q using pt(2) [OF that] by (rule mag_mono) simp
  show ?thesis
  proof (cases "f_le p (fst (hd qs)) \<or> f_le (fst (last qs)) p")
    case True
    then show ?thesis using v ne by (auto simp: interpolate_value_def)
  next
    case False
    obtain i where i: "Suc i < length qs" "bracket qs p = Some (qs ! i, qs ! Suc i)"
      using bracket_found [of qs p] False ne pt(1) unit_point_not_NaN assms(2) by blast
    obtain p1 v1 p2 v2 where q: "qs ! i = (p1, v1)" "qs ! Suc i = (p2, v2)" by fastforce
    have m: "(p1, v1) \<in> set qs" "(p2, v2) \<in> set qs" using i(1) nth_mem [of i qs] nth_mem [of "Suc i" qs] q by auto
    note p1 = pt(1) [OF m(1)] and p2 = pt(1) [OF m(2)]
    have "apart p1 p2"
      using assms(1) i(1) sorted_wrt_nth_less [of apart "map fst qs" i "Suc i"] q by (simp add: proper_curve_def)
    then obtain y where y: "f_sub p2 p1 = Fin y" "1 / 2 ^ 20 \<le> y" using sub_apart p1 p2 by fastforce
    have "mag 65 (f_sub v2 v1)" using mag_sub [of 64 v2 v1] pt(2) m by fastforce
    moreover have "mag 1 (f_sub p p1)"
      using mag_sub [of 0 p p1] unit_point_mag [OF p1] unit_point_mag [OF assms(2)] by simp
    ultimately have "mag 66 (f_mul (f_sub v2 v1) (f_sub p p1))" using mag_mul [of 65 _ 1] by simp
    then have "mag 86 (f_div (f_mul (f_sub v2 v1) (f_sub p p1)) (f_sub p2 p1))"
      using mag_div [of 66 _ 20 y] y by simp
    moreover have "mag 86 v1" using pt(2) [OF m(1)] by (simp add: mag_mono)
    ultimately have "mag 88 (f_add v1 (f_div (f_mul (f_sub v2 v1) (f_sub p p1)) (f_sub p2 p1)))"
      using mag_add [of 86] mag_mono [of 87 _ 88] by fastforce
    then show ?thesis using False ne i(2) by (simp add: interpolate_value_def q)
  qed
qed

section \<open>Bounds of the distance\<close>

lemma proper_merge:
  assumes "proper_curve a" and "proper_curve b"
  shows "map fst (merge_quantiles a b) = sorted_list_of_set (fst ` set a \<union> fst ` set b)"
  using assms unit_point_not_NaN by (intro merged_percentiles) (fastforce simp: proper_curve_def)+

lemma proper_merge_points:
  assumes "proper_curve a" and "proper_curve b"
  shows "\<forall>q\<in>set (merge_quantiles a b). unit_point (fst q)"
    and "sorted (map fst (merge_quantiles a b))"
    and "length (merge_quantiles a b) \<le> 512"
proof -
  note m = proper_merge [OF assms]
  show "sorted (map fst (merge_quantiles a b))" by (simp add: m)
  have "set (map fst (merge_quantiles a b)) = fst ` set a \<union> fst ` set b" by (simp add: m)
  then have s: "fst ` set (merge_quantiles a b) = fst ` set a \<union> fst ` set b" by simp
  show "\<forall>q\<in>set (merge_quantiles a b). unit_point (fst q)"
  proof
    fix q assume "q \<in> set (merge_quantiles a b)"
    then have "fst q \<in> fst ` set a \<union> fst ` set b" using s by blast
    then show "unit_point (fst q)" using assms by (auto simp: proper_curve_def)
  qed
  have "length (merge_quantiles a b) = card (fst ` set a \<union> fst ` set b)"
    using arg_cong [OF m, of length] by simp
  also have "\<dots> \<le> card (fst ` set a) + card (fst ` set b)" by (rule card_Un_le)
  also have "\<dots> \<le> length a + length b"
    by (intro add_mono order_trans [OF card_image_le card_length]) simp_all
  also have "\<dots> \<le> 512" using assms by (simp add: proper_curve_def)
  finally show "length (merge_quantiles a b) \<le> 512" .
qed

lemma half_gap:
  assumes "unit_point p" and "unit_point q" and "p \<le> q"
  shows "mag 1 (f_div (f_sub q p) (Fin 2)) \<and> f_nonneg (f_div (f_sub q p) (Fin 2))"
proof -
  have le: "f_val p \<le> f_val q" using assms by (cases p; cases q) (auto simp: unit_point_def)
  have m: "mag 1 (f_sub q p)" using mag_sub [of 0 q p] unit_point_mag assms(1,2) by simp
  have n: "f_nonneg (f_sub q p)"
    using assms(1,2) nonneg_sub_Fin [OF le] by (simp add: unit_point_def)
  show ?thesis using mag_div [OF m, of 0 2] nonneg_div [OF n m, of 2] by simp
qed

lemma width_ok:
  assumes "\<forall>q\<in>set qs. unit_point (fst q)" and "sorted (map fst qs)" and "i < length qs"
  shows "mag 2 (width qs i) \<and> f_nonneg (width qs i)"
proof -
  have u: "unit_point (fst (qs ! j))" if "j < length qs" for j using assms(1) that by simp
  have le: "fst (qs ! j) \<le> fst (qs ! k)" if "j \<le> k" "k < length qs" for j k
    using sorted_nth_mono [OF assms(2), of j k] that by simp
  have own: "mag 1 (fst (qs ! i)) \<and> f_nonneg (fst (qs ! i))"
    using u [OF assms(3)] mag_mono [OF unit_point_mag] by (cases "fst (qs ! i)") (auto simp: unit_point_def f_nonneg_def)
  have rest: "mag 1 (f_sub (Fin 1) (fst (qs ! i))) \<and> f_nonneg (f_sub (Fin 1) (fst (qs ! i)))"
  proof -
    obtain x where x: "fst (qs ! i) = Fin x" "x \<le> 1"
      using u [OF assms(3)] by (cases "fst (qs ! i)") (auto simp: unit_point_def)
    have "mag 1 (f_sub (Fin 1) (Fin x))"
      using mag_sub [OF _ unit_point_mag [OF u [OF assms(3)]], of "Fin 1"] by (simp add: magI x)
    then show ?thesis using nonneg_sub_Fin [OF x(2)] by (simp add: x(1))
  qed
  let ?before = "if i = 0 then fst (qs ! 0) else f_div (f_sub (fst (qs ! i)) (fst (qs ! (i - 1)))) (Fin 2)"
  let ?after = "if i = length qs - 1 then f_sub (Fin 1) (fst (qs ! i))
        else f_div (f_sub (fst (qs ! (i + 1))) (fst (qs ! i))) (Fin 2)"
  have "mag 1 ?before \<and> f_nonneg ?before"
    using own half_gap [OF u u le, of "i - 1" i] assms(3) by (cases "i = 0") simp_all
  moreover have "mag 1 ?after \<and> f_nonneg ?after"
    using rest half_gap [OF u u le, of i "i + 1"] assms(3) by (cases "i = length qs - 1") simp_all
  ultimately show ?thesis unfolding width_def using mag_add [of 1 ?before ?after] nonneg_add by (simp add: numeral_2_eq_2)
qed

lemma fold_terms:
  assumes "\<forall>x\<in>set xs. mag k (f x) \<and> f_nonneg (f x)" and "mag j d" and "f_nonneg d"
    and "k \<le> j" and "j + length xs \<le> 1023"
  shows "mag (j + length xs) (foldl (\<lambda>d x. f_add d (f x)) d xs)
    \<and> f_nonneg (foldl (\<lambda>d x. f_add d (f x)) d xs)"
  using assms
proof (induction xs arbitrary: d j)
  case (Cons x xs)
  have "mag j (f x)" using Cons.prems(1,4) by (auto intro: mag_mono)
  then have "mag (Suc j) (f_add d (f x))" using Cons.prems(2,5) by (intro mag_add) simp_all
  moreover have "f_nonneg (f_add d (f x))" using Cons.prems(1,3) by (auto intro: nonneg_add)
  ultimately show ?case using Cons.IH [of "Suc j" "f_add d (f x)"] Cons.prems by simp
qed simp

definition distance_sum :: "curve \<Rightarrow> curve \<Rightarrow> f64" where
  "distance_sum a b =
     foldl (\<lambda>d (i, p). f_add d
         (f_mul (width (merge_quantiles a b) i) (f_abs (f_sub (interpolate_value a p) (interpolate_value b p)))))
       (Fin 0) (enumerate 0 (map fst (merge_quantiles a b)))"

lemma enumerate_point:
  "x \<in> set (enumerate 0 (map fst qs)) \<Longrightarrow> \<exists>i. x = (i, fst (qs ! i)) \<and> i < length qs"
  by (auto simp: in_set_enumerate_eq prod_eq_iff)

lemma distance_sum_ok:
  assumes "proper_curve a" and "proper_curve b"
  shows "mag 620 (distance_sum a b) \<and> f_nonneg (distance_sum a b)"
proof -
  let ?qs = "merge_quantiles a b"
  note mp = proper_merge_points [OF assms]
  let ?f = "\<lambda>(i, p). f_mul (width ?qs i) (f_abs (f_sub (interpolate_value a p) (interpolate_value b p)))"
  have "mag 91 (?f x) \<and> f_nonneg (?f x)" if x: "x \<in> set (enumerate 0 (map fst ?qs))" for x
  proof -
    obtain i where i: "x = (i, fst (?qs ! i))" "i < length ?qs"
      using enumerate_point [OF x] by blast
    then have u: "unit_point (fst (?qs ! i))" using mp(1) by simp
    have d: "mag 89 (f_sub (interpolate_value a (fst (?qs ! i))) (interpolate_value b (fst (?qs ! i))))"
      using mag_sub [OF interpolate_mag [OF assms(1) u] interpolate_mag [OF assms(2) u]] by simp
    have w: "mag 2 (width ?qs i)" "f_nonneg (width ?qs i)" using width_ok [OF mp(1,2) i(2)] by auto
    show ?thesis
      using mag_mul [OF w(1) mag_abs [OF d]] nonneg_mul [OF w(2,1) nonneg_abs [OF mag_not_NaN [OF d]] mag_abs [OF d]]
      by (simp add: i(1))
  qed
  then have "mag (91 + length ?qs) (foldl (\<lambda>d x. f_add d (?f x)) (Fin 0) (enumerate 0 (map fst ?qs)))
    \<and> f_nonneg (foldl (\<lambda>d x. f_add d (?f x)) (Fin 0) (enumerate 0 (map fst ?qs)))"
    using fold_terms [of "enumerate 0 (map fst ?qs)" 91 ?f 91 "Fin 0"] mp(3)
    by (simp add: magI f_nonneg_def)
  moreover have "(\<lambda>d x. f_add d (?f x)) = (\<lambda>d (i, p). f_add d
      (f_mul (width ?qs i) (f_abs (f_sub (interpolate_value a p) (interpolate_value b p)))))"
    by (intro ext) (simp split: prod.split)
  ultimately have "mag (91 + length ?qs) (distance_sum a b) \<and> f_nonneg (distance_sum a b)"
    by (simp only: distance_sum_def)
  then show ?thesis using mp(3) mag_mono by auto
qed

lemma merge_commute:
  assumes "proper_curve a" and "proper_curve b"
  shows "merge_quantiles a b = merge_quantiles b a"
proof -
  have "map fst (merge_quantiles a b) = map fst (merge_quantiles b a)"
    by (simp add: proper_merge assms Un_commute)
  then show ?thesis by (simp add: merge_quantiles_def comp_def f_add_commute)
qed

lemma distance_eq:
  assumes "a \<noteq> []" and "b \<noteq> []"
  shows "distance a b =
    (let r = f_sub (f_max (last_value a) (last_value b)) (f_min (first_value a) (first_value b)) in
     if f_lt (f_abs r) EPSILON then Fin 0 else f_div (distance_sum a b) r)"
  using assms by (simp add: distance_def distance_sum_def Let_def)

lemma distance_commute:
  assumes "proper_curve a" and "proper_curve b"
  shows "distance a b = distance b a"
proof -
  have "distance_sum a b = distance_sum b a"
    unfolding distance_sum_def merge_commute [OF assms]
    by (subst f_abs_sub_commute) (rule refl)
  then show ?thesis
    using assms by (simp add: proper_curve_def distance_eq f_min_commute f_max_commute Let_def)
qed

text \<open>The range of the values is a number, at least the resolution unless it counts as zero.\<close>

lemma range_ok:
  assumes "proper_curve a" and "proper_curve b"
  defines "r \<equiv> f_sub (f_max (last_value a) (last_value b)) (f_min (first_value a) (first_value b))"
  shows "\<exists>y. r = Fin y \<and> 0 \<le> y \<and> (\<not> f_lt (f_abs r) EPSILON \<longrightarrow> 1 / 2 ^ 52 \<le> y)"
proof -
  have ends: "\<exists>x y. first_value qs = Fin x \<and> last_value qs = Fin y \<and> x \<le> y
      \<and> mag 64 (Fin x) \<and> mag 64 (Fin y)" if "proper_curve qs" for qs
  proof -
    have ne: "qs \<noteq> []" and s: "sorted (map snd qs)" and m: "\<forall>q\<in>set qs. mag 64 (snd q)"
      using that by (auto simp: proper_curve_def)
    have "first_value qs = snd (hd qs)" using ne by (cases qs) (auto simp: first_value_def)
    moreover have "last_value qs = snd (last qs)" using ne by (simp add: last_value_def)
    moreover have "snd (hd qs) \<le> snd (last qs)"
      using sorted_nth_mono [OF s, of 0 "length qs - 1"] ne by (simp add: hd_conv_nth last_conv_nth)
    moreover have "mag 64 (snd (hd qs))" "mag 64 (snd (last qs))" using m ne by auto
    ultimately show ?thesis unfolding mag_def by auto
  qed
  obtain x1 y1 x2 y2 where v: "first_value a = Fin x1" "last_value a = Fin y1" "x1 \<le> y1"
    "first_value b = Fin x2" "last_value b = Fin y2" "x2 \<le> y2"
    "mag 64 (Fin x1)" "mag 64 (Fin y1)" "mag 64 (Fin x2)" "mag 64 (Fin y2)"
    using ends [OF assms(1)] ends [OF assms(2)] by auto
  let ?x = "min x1 x2" and ?y = "max y1 y2"
  have r: "r = f_sub (Fin ?y) (Fin ?x)"
    unfolding r_def v by (simp add: f_max_def f_min_def max_def min_def)
  have "mag 64 (Fin ?x)" "mag 64 (Fin ?y)" using v(7-10) by (auto simp: min_def max_def)
  then have "mag 65 r" unfolding r using mag_sub [of 64] by simp
  moreover have "f_nonneg r" unfolding r using v(3,6) by (intro nonneg_sub_Fin) linarith
  ultimately obtain y where y: "r = Fin y" "0 \<le> y" by (auto simp: mag_def f_nonneg_def)
  then show ?thesis by (auto simp: f_abs_def f_lt_def EPSILON_def)
qed

lemma distance_self:
  assumes "proper_curve a"
  shows "distance a a = Fin 0"
proof -
  let ?r = "f_sub (f_max (last_value a) (last_value a)) (f_min (first_value a) (first_value a))"
  let ?qs = "merge_quantiles a a"
  note mp = proper_merge_points [OF assms assms]
  have "foldl (\<lambda>d (i, p). f_add d
      (f_mul (width ?qs i) (f_abs (f_sub (interpolate_value a p) (interpolate_value a p))))) (Fin 0) xs = Fin 0"
    if "set xs \<subseteq> set (enumerate 0 (map fst ?qs))" for xs
    using that
  proof (induction xs)
    case (Cons x xs)
    obtain i where i: "x = (i, fst (?qs ! i))" "i < length ?qs"
      using enumerate_point [of x ?qs] Cons.prems by auto
    then have u: "unit_point (fst (?qs ! i))" using mp(1) by simp
    obtain w where "width ?qs i = Fin w" using width_ok [OF mp(1,2) i(2)] by (auto simp: mag_def)
    then show ?case
      using Cons i(1) f_sub_self [OF interpolate_mag [OF assms u]] by (simp add: f_abs_def f_lt_def)
  qed simp
  then have "distance_sum a a = Fin 0" unfolding distance_sum_def by blast
  moreover obtain y where "?r = Fin y" "\<not> f_lt (f_abs ?r) EPSILON \<longrightarrow> 1 / 2 ^ 52 \<le> y"
    using range_ok [OF assms assms] by blast
  ultimately show ?thesis using assms by (auto simp: proper_curve_def distance_eq Let_def)
qed

lemma distance_nonneg:
  assumes "proper_curve a" and "proper_curve b"
  shows "\<exists>y. distance a b = Fin y \<and> 0 \<le> y"
proof -
  let ?r = "f_sub (f_max (last_value a) (last_value b)) (f_min (first_value a) (first_value b))"
  obtain y where y: "?r = Fin y" "\<not> f_lt (f_abs ?r) EPSILON \<longrightarrow> 1 / 2 ^ 52 \<le> y"
    using range_ok [OF assms] by blast
  note s = distance_sum_ok [OF assms]
  have "mag 672 (f_div (distance_sum a b) (Fin y)) \<and> f_nonneg (f_div (distance_sum a b) (Fin y))"
    if "1 / 2 ^ 52 \<le> y"
  proof -
    have "0 < y" using that by (rule order_less_le_trans [rotated]) simp
    then show ?thesis using s mag_div [of 620 _ 52 y] that nonneg_div by auto
  qed
  then show ?thesis using assms y
    by (auto simp: proper_curve_def distance_eq Let_def mag_def f_nonneg_def)
qed

section \<open>Durations through seconds\<close>

lemma billion: "(10 :: nat) ^ 9 \<le> 2 ^ 53" "0 < (10 :: nat) ^ 9" "of_nat (10 ^ 9) = (10 ^ 9 :: rat)"
  by simp_all

lemma tiny_powers:
  "2 powi (-1022) \<le> 1 / (10 ^ 9 :: rat)"
  "2 powi (-1022) \<le> 1 / 10 ^ 9 - 1 / 10 ^ 9 / (2 ^ 53 :: rat)"
proof -
  have p: "(2 :: rat) powi (-31) = 1 / 2 ^ 31" by (simp add: power_int_minus inverse_eq_divide)
  have "(2 :: rat) powi (-1022) \<le> 2 powi (-31)" by (rule powi_mono) simp
  then have "(2 :: rat) powi (-1022) \<le> 1 / 2 ^ 31" unfolding p .
  moreover have "1 / 2 ^ 31 \<le> 1 / (10 ^ 9 :: rat)" "1 / 2 ^ 31 \<le> 1 / 10 ^ 9 - 1 / 10 ^ 9 / (2 ^ 53 :: rat)"
    by simp_all
  ultimately show "2 powi (-1022) \<le> 1 / (10 ^ 9 :: rat)"
    "2 powi (-1022) \<le> 1 / 10 ^ 9 - 1 / 10 ^ 9 / (2 ^ 53 :: rat)" by (blast intro: order_trans)+
qed

text \<open>The division of the subsecond part, then the sum.\<close>

lemma subsec_error:
  assumes "r = 0 \<or> 2 powi (-1022) \<le> r" and "r \<le> 1"
  shows "\<exists>q. rnd r = Fin q \<and> \<bar>q - r\<bar> \<le> r / 2 ^ 53 \<and> 0 \<le> q"
  using assms(1)
proof
  assume "2 powi (-1022) \<le> r"
  then obtain q where q: "rnd r = Fin q" "\<bar>q - r\<bar> \<le> r / 2 ^ 53" using rnd_error [of r 0] assms(2) by auto
  have "0 \<le> r" using \<open>2 powi (-1022) \<le> r\<close> by (rule order_trans [rotated]) simp
  then have "0 \<le> q" using rnd_nonneg [of r] q(1) by (simp add: f_nonneg_def)
  then show ?thesis using q by blast
qed simp

lemma sum_error:
  fixes s r q :: rat
  assumes "0 \<le> s" and "0 \<le> r" and "\<bar>q - r\<bar> \<le> r / 2 ^ 53" and "1 / 10 ^ 9 \<le> s + r" and "s \<le> 2 ^ 50" and "r \<le> 1"
  shows "\<exists>t. rnd (s + q) = Fin t \<and> \<bar>t - (s + r)\<bar> \<le> 3 * (s + r) / 2 ^ 53"
proof -
  define T where "T = s + r"
  have T: "1 / 10 ^ 9 \<le> T" "T \<le> 2 ^ 51" using assms(4-6) by (simp_all add: T_def)
  have "r / 2 ^ 53 \<le> T / 2 ^ 53" using assms(1) by (intro divide_right_mono) (simp_all add: T_def)
  then have sq: "\<bar>(s + q) - T\<bar> \<le> T / 2 ^ 53" using assms(3) by (simp add: T_def)
  have "1 / 10 ^ 9 - 1 / 10 ^ 9 / 2 ^ 53 \<le> T - T / 2 ^ 53" using T(1) by simp
  also have "\<dots> \<le> s + q" using sq by (simp only: abs_le_iff) linarith
  finally have lo: "2 powi (-1022) \<le> s + q" using tiny_powers(2) by (rule order_trans [rotated])
  have "T / 2 ^ 53 \<le> 1" using T(2) by simp
  with sq have "\<bar>(s + q) - T\<bar> \<le> 1" by (rule order_trans)
  then have near_T: "s + q \<le> T + 1" "T - 1 \<le> s + q" unfolding abs_le_iff by linarith+
  then have hi: "s + q \<le> 2 ^ 60" using T(2) by simp
  obtain t where t: "rnd (s + q) = Fin t" "\<bar>t - (s + q)\<bar> \<le> (s + q) / 2 ^ 53"
    using rnd_error [OF lo hi] by auto
  have "T / 2 ^ 53 \<le> T" using T(1) by simp
  with sq have "\<bar>(s + q) - T\<bar> \<le> T" by (rule order_trans)
  then have "s + q \<le> 2 * T" unfolding abs_le_iff by linarith
  then have "(s + q) / 2 ^ 53 \<le> 2 * T / 2 ^ 53" by (intro divide_right_mono) simp_all
  then have "\<bar>t - (s + q)\<bar> \<le> 2 * T / 2 ^ 53" using t(2) by (rule order_trans [rotated])
  then have "\<bar>t - T\<bar> \<le> 2 * T / 2 ^ 53 + T / 2 ^ 53" using sq unfolding abs_le_iff by linarith
  also have "\<dots> = 3 * T / 2 ^ 53" by simp
  finally have "\<bar>t - T\<bar> \<le> 3 * T / 2 ^ 53" .
  then show ?thesis using t(1) by (auto simp: T_def)
qed

lemma as_secs_error:
  assumes "0 < n" and "n < 2 ^ 50"
  shows "\<exists>t. as_secs_f64 n = Fin t \<and> \<bar>t - of_nat n / 10 ^ 9\<bar> \<le> 3 * (of_nat n / 10 ^ 9) / 2 ^ 53"
proof -
  define N :: nat where "N = 10 ^ 9"
  define B :: rat where "B = 10 ^ 9"
  have N: "0 < N" "N \<le> 2 ^ 53" "of_nat N = B" unfolding N_def B_def using billion by blast+
  have B: "0 < B" by (simp add: B_def)
  let ?s = "of_nat (n div N) :: rat" and ?r = "of_nat (n mod N) / B"
  have less: "n mod N < N" using N(1) by simp
  have fl: "f_of_nat (n div N) = Fin ?s" "f_of_nat (n mod N) = Fin (of_nat (n mod N))" "f_of_nat N = Fin B"
  proof -
    have "n div N \<le> n" by (rule div_le_dividend)
    then have "n div N < 2 ^ 50" using assms(2) by (rule le_less_trans)
    then have "n div N \<le> 2 ^ 53" by simp
    then show "f_of_nat (n div N) = Fin ?s" by (rule rnd_nat)
    have "n mod N \<le> 2 ^ 53" using less N(2) by linarith
    then show "f_of_nat (n mod N) = Fin (of_nat (n mod N))" by (rule rnd_nat)
    show "f_of_nat N = Fin B" using rnd_nat [OF N(2)] N(3) by simp
  qed
  have "of_nat n = (of_nat (n div N * N + n mod N) :: rat)" by (simp only: div_mult_mod_eq)
  also have "\<dots> = ?s * B + of_nat (n mod N)" by (simp only: of_nat_add of_nat_mult N(3))
  finally have T: "of_nat n / B = ?s + ?r" using B by (simp add: add_divide_distrib)
  have "(of_nat (n mod N) :: rat) \<le> of_nat N" using less by (simp only: of_nat_le_iff)
  then have r1: "?r \<le> 1" using B by (simp add: N(3) divide_le_eq)
  have "1 / B \<le> ?r \<or> ?r = 0"
    using B by (cases "n mod N") (simp_all add: divide_right_mono)
  then have "?r = 0 \<or> 2 powi (-1022) \<le> ?r"
    using tiny_powers(1) unfolding B_def by (blast intro: order_trans)
  then obtain q where q: "rnd ?r = Fin q" "\<bar>q - ?r\<bar> \<le> ?r / 2 ^ 53"
    using subsec_error [OF _ r1] by blast
  have "1 / B \<le> of_nat n / B" using assms(1) B by (intro divide_right_mono) simp_all
  then have low: "1 / 10 ^ 9 \<le> ?s + ?r" unfolding T by (simp only: B_def)
  have "n div N \<le> 2 ^ 50"
    using le_less_trans [OF div_le_dividend assms(2)] by (rule less_imp_le)
  then have "?s \<le> of_nat (2 ^ 50)" by (simp only: of_nat_le_iff)
  then have s50: "?s \<le> 2 ^ 50" by simp
  have nn: "0 \<le> ?s" "0 \<le> ?r" using B by simp_all
  obtain t where t: "rnd (?s + q) = Fin t" "\<bar>t - (?s + ?r)\<bar> \<le> 3 * (?s + ?r) / 2 ^ 53"
    using sum_error [OF nn q(2) low s50 r1] by blast
  have "as_secs_f64 n = f_add (f_of_nat (n div N)) (f_div (f_of_nat (n mod N)) (f_of_nat N))"
    by (simp only: as_secs_f64_def N_def)
  also have "\<dots> = Fin t" using B q(1) t(1) by (simp add: fl)
  finally show ?thesis using t(2) [folded T] unfolding B_def by blast
qed

text \<open>The way back multiplies, rounds and truncates.\<close>

lemma back_error:
  fixes n :: nat and t :: rat
  assumes "0 < n" and "n < 2 ^ 49" and "\<bar>t - of_nat n / 10 ^ 9\<bar> \<le> 3 * (of_nat n / 10 ^ 9) / 2 ^ 53"
  shows "\<exists>u. rnd (t * 10 ^ 9) = Fin u \<and> \<bar>u - of_nat n\<bar> < 1 / 2"
proof -
  define x :: rat where "x = of_nat n"
  have "(of_nat n :: rat) < of_nat (2 ^ 49)" using assms(2) by (simp only: of_nat_less_iff)
  then have x: "1 \<le> x" "x < 2 ^ 49" using assms(1) by (simp_all add: x_def)
  define B :: rat where "B = 10 ^ 9"
  have B: "0 < B" by (simp add: B_def)
  have "\<bar>t - x / B\<bar> * B \<le> 3 * (x / B) / 2 ^ 53 * B"
    using assms(3) B unfolding x_def B_def by (intro mult_right_mono) simp_all
  moreover have "\<bar>t - x / B\<bar> * B = \<bar>t * B - x\<bar>"
  proof -
    have "\<bar>t - x / B\<bar> * B = \<bar>(t - x / B) * B\<bar>" using B by (simp only: abs_mult abs_of_pos)
    also have "(t - x / B) * B = t * B - x" using B by (simp add: left_diff_distrib)
    finally show ?thesis .
  qed
  moreover have "3 * (x / B) / 2 ^ 53 * B = 3 * x / 2 ^ 53" using B by simp
  ultimately have e: "\<bar>t * B - x\<bar> \<le> 3 * x / 2 ^ 53" by simp
  have "3 * x / 2 ^ 53 \<le> 3 / 16" using x(2) by simp
  with e have "\<bar>t * B - x\<bar> \<le> 3 / 16" by (rule order_trans)
  then have tx: "t * B \<le> x + 3 / 16" "x - 3 / 16 \<le> t * B" unfolding abs_le_iff by linarith+
  have m: "1 / 2 \<le> t * B" "t * B \<le> 2 * x" using tx x(1) by linarith+
  have "2 * x \<le> 2 ^ 51" using x(2) by simp
  with m(2) have m51: "t * B \<le> 2 ^ 51" by (rule order_trans)
  have "(2 :: rat) powi (-1022) \<le> 2 powi (-1)" by (rule powi_mono) simp
  also have "\<dots> = 1 / 2" by (simp add: power_int_minus)
  finally have "2 powi (-1022) \<le> t * B" using m(1) by (rule order_trans)
  then obtain u where u: "rnd (t * B) = Fin u" "\<bar>u - t * B\<bar> \<le> t * B / 2 ^ 53"
    using rnd_error [OF _ m51] by auto
  have "t * B / 2 ^ 53 \<le> 2 ^ 51 / 2 ^ 53" using m51 by (intro divide_right_mono) simp_all
  then have "t * B / 2 ^ 53 \<le> 1 / 4" by simp
  with u(2) have "\<bar>u - t * B\<bar> \<le> 1 / 4" by (rule order_trans)
  then have "\<bar>u - x\<bar> < 1 / 2" using \<open>\<bar>t * B - x\<bar> \<le> 3 / 16\<close> by linarith
  then show ?thesis using u(1) unfolding x_def B_def by blast
qed

lemma nanos_roundtrip:
  assumes "n < 2 ^ 49"
  shows "nanos_of_secs (as_secs_f64 n) = n \<or> Suc (nanos_of_secs (as_secs_f64 n)) = n"
proof (cases "n = 0")
  case True
  have "f_of_nat (10 ^ 9) = Fin (10 ^ 9)" using rnd_nat [OF billion(1)] billion(3) by simp
  then have "as_secs_f64 0 = Fin 0" unfolding as_secs_f64_def by (simp add: f_of_nat_def)
  then show ?thesis using True by (simp add: nanos_of_secs_def f_to_uint_def)
next
  case False
  then have "0 < n" by simp
  moreover have "n < 2 ^ 50" using assms by simp
  ultimately obtain t where t: "as_secs_f64 n = Fin t"
    "\<bar>t - of_nat n / 10 ^ 9\<bar> \<le> 3 * (of_nat n / 10 ^ 9) / 2 ^ 53"
    using as_secs_error by blast
  obtain u where u: "rnd (t * 10 ^ 9) = Fin u" "\<bar>u - of_nat n\<bar> < 1 / 2"
    using back_error [OF \<open>0 < n\<close> assms t(2)] by blast
  have "of_int (int n - 1) \<le> u" "u < of_int (int n + 1)" using u(2) unfolding abs_less_iff by simp_all
  then have fl: "int n - 1 \<le> floor u" "floor u \<le> int n" by (simp_all only: le_floor_iff floor_less_iff) linarith
  have "n < 2 ^ 64 - 1" using assms by simp
  then have "nanos_of_secs (as_secs_f64 n) = nat (floor u)"
    using fl u(1) by (simp add: nanos_of_secs_def t(1) f_to_uint_def)
  then show ?thesis using fl False by linarith
qed

section \<open>Properties\<close>

lemma percentile_total:
  assumes "quantiles e \<noteq> []" and "\<forall>q\<in>set (quantiles e). unit_point (fst q)" and p: "p \<noteq> NaN"
  shows "\<exists>v. Estimates_percentile V e p = Some v \<and> (v \<in> snd ` set (quantiles e)
      \<or> (\<exists>i. Suc i < length (quantiles e) \<and> f_le (fst (quantiles e ! i)) p
          \<and> f_le p (fst (quantiles e ! Suc i))
          \<and> v = lerp V (quantiles e ! i, quantiles e ! Suc i) p))"
proof (cases "find (\<lambda>q. near EPSILON (fst q) p) (quantiles e)")
  case (Some q)
  then have "q \<in> set (quantiles e)" by (auto simp: find_Some_iff)
  then show ?thesis using Some by (auto simp: Estimates_percentile_def)
next
  case None
  let ?qs = "quantiles e"
  show ?thesis
  proof (cases "f_le p (fst (hd ?qs)) \<or> f_le (fst (last ?qs)) p")
    case True
    then show ?thesis using None assms(1) by (auto simp: Estimates_percentile_def)
  next
    case False
    have "\<forall>q\<in>set ?qs. fst q \<noteq> NaN" using assms(2) unit_point_not_NaN by blast
    with bracket_found [of ?qs p] False p assms(1) obtain i where
      i: "Suc i < length ?qs" "bracket ?qs p = Some (?qs ! i, ?qs ! Suc i)"
      "f_le (fst (?qs ! i)) p" "f_le p (fst (?qs ! Suc i))" by (auto simp del: not_None_eq)
    then have "Estimates_percentile V e p = Some (lerp V (?qs ! i, ?qs ! Suc i) p)"
      using None False assms(1) by (simp add: Estimates_percentile_def)
    then show ?thesis using i(1,3,4) by blast
  qed
qed

text \<open>
  C33. Percentiles of estimates whose percentiles increase by at least \<open>2 ^ (- 20)\<close>: a stored
  percentile gives its stored value, and any number gives a value, which is stored or the
  interpolation between two neighbours around it; the error of a missing percentile cannot
  arise.
\<close>

theorem percentile_of_estimates:
  assumes "quantiles e \<noteq> []" and "\<forall>q\<in>set (quantiles e). unit_point (fst q)"
    and "sorted_wrt apart (map fst (quantiles e))"
  shows "(\<forall>k < length (quantiles e).
      Estimates_percentile V e (fst (quantiles e ! k)) = Some (snd (quantiles e ! k)))
    \<and> (\<forall>p. p \<noteq> NaN \<longrightarrow> (\<exists>v. Estimates_percentile V e p = Some v
        \<and> (v \<in> snd ` set (quantiles e)
           \<or> (\<exists>i. Suc i < length (quantiles e) \<and> f_le (fst (quantiles e ! i)) p
               \<and> f_le p (fst (quantiles e ! Suc i))
               \<and> v = lerp V (quantiles e ! i, quantiles e ! Suc i) p))))"
  using find_own [OF assms(2,3)] percentile_total [OF assms(1,2), of _ V]
  by (simp add: Estimates_percentile_def)

lemma demo_estimates:
  "quantiles (Distribution_estimates demo_digest f64_value ()) = map (\<lambda>p. (p, p)) standard_percentiles"
  by (simp add: Distribution_estimates_def demo_digest_def f64_value_def)

lemma standard_curve:
  "map fst (map (\<lambda>p. (p, f p)) standard_percentiles) = standard_percentiles"
  "\<forall>q\<in>set (map (\<lambda>p. (p, f p)) standard_percentiles). unit_point (fst q)"
  using standard_points(1) by (simp_all add: comp_def)

theorem percentile_of_estimates_witness:
  "Estimates_percentile f64_value (Distribution_estimates demo_digest f64_value ()) (rnd (9 / 10))
     = Some (rnd (9 / 10))"
proof -
  let ?e = "Distribution_estimates demo_digest f64_value ()"
  have pre: "quantiles ?e \<noteq> []" "\<forall>q\<in>set (quantiles ?e). unit_point (fst q)"
    "sorted_wrt apart (map fst (quantiles ?e))" "length (quantiles ?e) = 7"
    "quantiles ?e ! 4 = (rnd (9 / 10), rnd (9 / 10))"
    using standard_points standard_curve [of "\<lambda>p. p"]
    by (simp_all only: demo_estimates) (simp_all add: standard_percentiles_def)
  note own = conjunct1 [OF percentile_of_estimates [OF pre(1-3), where V = f64_value]]
  show ?thesis using own [rule_format, of 4] pre(4,5) by simp
qed

text \<open>
  C34. The percentiles of merged quantiles are the sorted set of the percentiles of both, each
  once; the loops with \<open>contains\<close> and the sort compute that set.
\<close>

theorem merge_percentiles_reference:
  assumes "\<forall>q\<in>set a \<union> set b. fst q \<noteq> NaN"
  shows "map fst (merge_quantiles a b) = sorted_list_of_set (fst ` set a \<union> fst ` set b)"
proof (rule merged_percentiles)
  show "NaN \<notin> fst ` set a" "NaN \<notin> fst ` set b" using assms by (metis UnCI imageE)+
qed

theorem merge_percentiles_reference_witness:
  "map fst (merge_quantiles [(Fin (1 / 2), Fin 3)] [(Fin (1 / 4), Fin 5), (Fin (1 / 2), Fin 7)])
     = [Fin (1 / 4), Fin (1 / 2)]"
  using merge_percentiles_reference [of "[(Fin (1 / 2), Fin 3)]" "[(Fin (1 / 4), Fin 5), (Fin (1 / 2), Fin 7)]"]
  by simp



text \<open>
  A duration of less than \<open>2 ^ 49\<close> nanoseconds (six days) that goes through seconds as a double
  and back comes out the same or one nanosecond shorter; it is never longer. The last happens,
  because the way back truncates: 15 nanoseconds become 14.
\<close>

theorem duration_through_seconds:
  assumes "n < 2 ^ 49"
  shows "of_f64 duration_value (to_f64 duration_value n) = n
    \<or> Suc (of_f64 duration_value (to_f64 duration_value n)) = n"
proof -
  have "nanos_of_secs (as_secs_f64 n) < 2 ^ 64" using nanos_roundtrip [OF assms] assms by auto
  then have "of_f64 duration_value (to_f64 duration_value n) = nanos_of_secs (as_secs_f64 n)"
    by (simp add: duration_value_def Duration_from_u64_def take_bit_nat_eq_self unsigned_of_nat)
  then show ?thesis using nanos_roundtrip [OF assms] by simp
qed

theorem duration_through_seconds_witness:
  "of_f64 duration_value (to_f64 duration_value 15) = 14"
proof -
  have r1: "rnd (15 / 10 ^ 9) = Fin (4533471823554859 / 302231454903657293676544)"
    by (rule rnd_eqI [where k = 26 and m = 4533471823554859, THEN trans]) simp_all
  have r2: "rnd (4533471823554859 / 302231454903657293676544 * 10 ^ 9) = Fin (8444249301319679 / 562949953421312)"
    by (rule rnd_eqI_big [where k = 3 and m = 8444249301319679, THEN trans]) simp_all
  have fl: "f_of_nat (10 ^ 9) = Fin (10 ^ 9)" "f_of_nat 15 = Fin 15"
    using rnd_nat [OF billion(1)] billion(3) rnd_nat [of 15] by simp_all
  have z: "(15 :: nat) div 10 ^ 9 = 0" "(15 :: nat) mod 10 ^ 9 = 15" by simp_all
  have "as_secs_f64 15 = f_add (Fin 0) (rnd (15 / 10 ^ 9))"
    unfolding as_secs_f64_def z fl by (simp add: f_of_nat_def)
  also have "\<dots> = rnd (4533471823554859 / 302231454903657293676544)" unfolding r1 by simp
  also have "\<dots> = Fin (4533471823554859 / 302231454903657293676544)"
    by (rule rnd_eqI [where k = 26 and m = 4533471823554859, THEN trans]) simp_all
  finally have "as_secs_f64 15 = Fin (4533471823554859 / 302231454903657293676544)" .
  moreover have "floor (8444249301319679 / 562949953421312 :: rat) = 14" by (rule floor_unique) simp_all
  ultimately have "nanos_of_secs (as_secs_f64 15) = 14" using r2 by (simp add: nanos_of_secs_def f_to_uint_def)
  then have "of_f64 duration_value (to_f64 duration_value 15) \<noteq> 15"
    by (simp add: duration_value_def Duration_from_u64_def)
  then show ?thesis using duration_through_seconds [of 15] by simp
qed

end
