(* ===== verification/Visualize.thy ===== *)
theory Visualize
  imports Stats
begin

text \<open>
  \<open>Estimates::visualize\<close> of \<open>util/stats.rs\<close>: one line of text with a bar for each column between
  the extreme labels. The debug format of a value, as bytes, and the width of the terminal are
  parameters; a bar is its index among the eight block characters.
\<close>

section \<open>Labels and widths\<close>

datatype glyph = Bar nat | Letter char

definition one_millionth :: f64 where
  "one_millionth = rnd (1 / 10 ^ 6)"

definition label_at :: "('v \<Rightarrow> string) \<Rightarrow> 'v estimates \<Rightarrow> f64 \<Rightarrow> string option" where
  "label_at debug e p =
     map_option (\<lambda>q. debug (snd q)) (find (\<lambda>q. near one_millionth (fst q) p) (quantiles e))"

definition label_or :: "string \<Rightarrow> string option \<Rightarrow> string" where
  "label_or d l = (case l of None \<Rightarrow> d | Some s \<Rightarrow> s)"

definition bar_width :: "nat option \<Rightarrow> nat option \<Rightarrow> string \<Rightarrow> string option \<Rightarrow> string \<Rightarrow> nat" where
  "bar_width wd terminal min_label p50_label max_label =
     (let p50_len = (case p50_label of None \<Rightarrow> 0 | Some s \<Rightarrow> length s + 2);
          space = max (case wd of Some w \<Rightarrow> w | None \<Rightarrow> (case terminal of Some w \<Rightarrow> w | None \<Rightarrow> 64)) 16 in
      max (space - (length min_label + 1) - (p50_len + 2) - (length max_label + 1)) 8)"

section \<open>The points of the curve\<close>

definition drawn :: "f64 \<Rightarrow> bool" where
  "drawn p = list_ex (near one_millionth p) standard_percentiles"

text \<open>The values at the drawn percentiles in order; comparing a NaN panics.\<close>

definition quantile_points :: "'v dist_value \<Rightarrow> 'v estimates \<Rightarrow> f64 list outcome" where
  "quantile_points V e =
     (let vs = map (\<lambda>q. to_f64 V (snd q)) (filter (\<lambda>q. drawn (fst q)) (quantiles e)) in
      if 2 \<le> length vs \<and> list_ex (\<lambda>v. v = NaN) vs then Inl UnwrapNone else Inr (sort vs))"

definition bar_index :: "nat \<Rightarrow> nat \<Rightarrow> nat" where
  "bar_index n i = (if i \<le> n div 2 then i else n - 1 - i)"

definition range_of :: "f64 \<Rightarrow> f64 \<Rightarrow> f64" where
  "range_of lo hi = (if f_lt (f_abs (f_sub hi lo)) EPSILON then Fin 1 else f_sub hi lo)"

text \<open>The value at column \<open>x\<close> of \<open>w\<close>.\<close>

definition column_value :: "f64 \<Rightarrow> f64 \<Rightarrow> nat \<Rightarrow> nat \<Rightarrow> f64" where
  "column_value lo extent w x =
     f_add lo (f_mul (f_div (f_of_nat x) (f_of_nat (w - 1))) extent)"

text \<open>The segment loop: advance while the next point exists and lies below the value.\<close>

fun find_segment :: "f64 list \<Rightarrow> f64 \<Rightarrow> nat" where
  "find_segment (a # b # ps) v = (if f_lt b v then Suc (find_segment (b # ps) v) else 0)"
| "find_segment _ v = 0"

definition f_clamp01 :: "f64 \<Rightarrow> f64" where
  "f_clamp01 a = (if f_lt a (Fin 0) then Fin 0 else if f_lt (Fin 1) a then Fin 1 else a)"

fun f_round :: "f64 \<Rightarrow> f64" where
  "f_round (Fin x) = Fin (if 0 \<le> x then of_int (floor (x + 1 / 2)) else - of_int (floor (- x + 1 / 2)))"
| "f_round a = a"

definition column_bar :: "f64 list \<Rightarrow> f64 \<Rightarrow> nat" where
  "column_bar pts v =
     (let n = length pts; seg = find_segment pts v;
          next_seg = (if seg + 1 < n then seg + 1 else seg);
          v1 = pts ! seg; v2 = pts ! next_seg; b1 = bar_index n seg; b2 = bar_index n next_seg;
          t = (if f_lt (f_abs (f_sub v2 v1)) EPSILON then Fin 0
               else f_clamp01 (f_div (f_sub v v1) (f_sub v2 v1)));
          bar_f = f_add (f_of_nat b1) (f_mul (f_sub (f_of_nat b2) (f_of_nat b1)) t);
          i = f_to_uint 64 (f_round (f_mul (f_div bar_f (f_of_nat (max (n div 2) 1))) (Fin 7))) in
      min i 7)"

text \<open>The first column nearest to the median; comparing a NaN panics.\<close>

fun nearest :: "nat \<Rightarrow> f64 \<Rightarrow> (nat \<times> f64) list \<Rightarrow> nat" where
  "nearest i d [] = i"
| "nearest i d ((j, c) # rest) = (if f_lt c d then nearest j c rest else nearest i d rest)"

definition median_column :: "f64 \<Rightarrow> f64 \<Rightarrow> nat \<Rightarrow> f64 \<Rightarrow> nat outcome" where
  "median_column lo extent w p50 =
     (let ds = map (\<lambda>x. (x, f_abs (f_sub (column_value lo extent w x) p50))) [0 ..< w] in
      if 2 \<le> w \<and> list_ex (\<lambda>d. snd d = NaN) ds then Inl UnwrapNone
      else (case ds of [] \<Rightarrow> Inr (w div 2) | d # rest \<Rightarrow> Inr (nearest (fst d) (snd d) rest)))"

section \<open>The line\<close>

definition letters :: "string \<Rightarrow> glyph list" where
  "letters s = map Letter s"

definition compose_line :: "string \<Rightarrow> string option \<Rightarrow> string \<Rightarrow> nat list \<Rightarrow> nat \<Rightarrow> glyph list" where
  "compose_line min_label p50_label max_label bars pos =
     letters (min_label @ '' |'') @ map Bar (take pos bars)
       @ (case p50_label of None \<Rightarrow> [] | Some s \<Rightarrow> letters ('' '' @ s @ '' ''))
       @ map Bar (drop pos bars) @ letters (''| '' @ max_label)"

definition visualize ::
    "'v dist_value \<Rightarrow> ('v \<Rightarrow> string) \<Rightarrow> nat option \<Rightarrow> nat option \<Rightarrow> 'v estimates \<Rightarrow> glyph list outcome" where
  "visualize V debug wd terminal e =
     (let min_label = label_or ''min'' (label_at debug e (rnd (1 / 1000)));
          max_label = label_or ''max'' (label_at debug e (rnd (999 / 1000)));
          p50_label = label_at debug e (rnd (1 / 2));
          w = bar_width wd terminal min_label p50_label max_label in
      bind_sum (quantile_points V e) (\<lambda>pts.
      if pts = [] then Inl IndexOutOfBounds
      else
        let lo = hd pts; extent = range_of lo (last pts);
            bars = map (\<lambda>x. column_bar pts (column_value lo extent w x)) [0 ..< w] in
        bind_sum
          (case find (\<lambda>q. near one_millionth (fst q) (rnd (1 / 2))) (quantiles e) of
             None \<Rightarrow> Inr (w div 2)
           | Some q \<Rightarrow> median_column lo extent w (to_f64 V (snd q)))
          (\<lambda>pos. Inr (compose_line min_label p50_label max_label bars pos))))"

section \<open>Lemmas\<close>

definition is_bar :: "glyph \<Rightarrow> bool" where
  "is_bar g = (case g of Bar _ \<Rightarrow> True | Letter _ \<Rightarrow> False)"

lemma bars_of_letters [simp]: "filter is_bar (letters s) = []"
  by (auto simp: letters_def is_bar_def filter_empty_conv)

lemma bars_of_bars [simp]: "filter is_bar (map Bar bs) = map Bar bs"
  by (auto simp: is_bar_def filter_id_conv)

lemma compose_line_bars: "filter is_bar (compose_line a m b bars pos) = map Bar bars"
  by (simp add: compose_line_def map_append [symmetric] split: option.split)

lemma bar_width_ge: "8 \<le> bar_width wd terminal a m b"
  by (simp add: bar_width_def Let_def)

lemma one_millionth_eq: "one_millionth = Fin (4722366482869645 / 4722366482869645213696)"
  unfolding one_millionth_def by (rule rnd_eqI [where k = 20 and m = 4722366482869645, THEN trans]) simp_all

lemma near_standard:
  assumes "i < 7" and "j < 7"
  shows "near one_millionth (standard_percentiles ! i) (standard_percentiles ! j) \<longleftrightarrow> i = j"
proof -
  have u: "unit_point (standard_percentiles ! k)" if "k < 7" for k
    using standard_points(1) nth_mem [of k standard_percentiles] that by (simp add: standard_length)
  have gap: "sorted_wrt (\<lambda>p q. f_val p + 1 / 2 ^ 8 \<le> f_val q) standard_percentiles"
    by (simp add: standard_values)
  have far: "f_val (standard_percentiles ! k) + 1 / 2 ^ 8 \<le> f_val (standard_percentiles ! l)"
    if "k < l" "l < 7" for k l
    using sorted_wrt_nth_less [OF gap that(1)] that(2) by (simp add: standard_length)
  consider "i = j" | "i < j" | "j < i" by linarith
  then show ?thesis
  proof cases
    case 1
    then show ?thesis using near_self [OF u [OF assms(2)]] by (simp add: one_millionth_eq)
  next
    case 2
    then show ?thesis using not_near_gap(1) [OF u [OF assms(1)] u [OF assms(2)] far [OF 2 assms(2)]]
      by (simp add: one_millionth_eq)
  next
    case 3
    then show ?thesis using not_near_gap(2) [OF u [OF assms(2)] u [OF assms(1)] far [OF 3 assms(1)]]
      by (simp add: one_millionth_eq)
  qed
qed

lemma find_standard:
  assumes "map fst qs = standard_percentiles" and "k < 7"
  shows "find (\<lambda>q. near one_millionth (fst q) (standard_percentiles ! k)) qs = Some (qs ! k)"
proof -
  have len: "length qs = 7" using arg_cong [OF assms(1), of length] by (simp add: standard_percentiles_def)
  have "near one_millionth (fst (qs ! j)) (standard_percentiles ! k) \<longleftrightarrow> j = k" if "j < 7" for j
    using near_standard [OF that assms(2)] arg_cong [OF assms(1), of "\<lambda>l. l ! j"] that len by simp
  then show ?thesis using assms(2) len by (auto simp: find_Some_iff intro!: exI [of _ k])
qed

lemma f_of_nat_mag: "n \<le> 2 ^ k \<Longrightarrow> k \<le> 1023 \<Longrightarrow> mag k (f_of_nat n)"
proof -
  assume n: "n \<le> 2 ^ k" and k: "k \<le> 1023"
  from n have "(of_nat n :: rat) \<le> of_nat (2 ^ k)" by (simp only: of_nat_le_iff)
  then show "mag k (f_of_nat n)" unfolding f_of_nat_def using k by (intro rnd_mag) simp_all
qed

text \<open>A column's value is a number.\<close>

lemma column_value_mag:
  assumes "mag 66 lo" and "mag 66 extent" and "2 \<le> w" and "w \<le> 2 ^ 53" and "x < w"
  shows "mag 121 (column_value lo extent w x)"
proof -
  have "mag 53 (f_of_nat x)" using assms(4,5) by (intro f_of_nat_mag) simp_all
  moreover have w1: "f_of_nat (w - 1) = Fin (of_nat (w - 1))" using assms(4) by (intro rnd_nat) simp
  moreover have "1 \<le> (of_nat (w - 1) :: rat)" using assms(3) by simp
  ultimately have "mag 53 (f_div (f_of_nat x) (f_of_nat (w - 1)))"
    using mag_div [of 53 _ 0] by simp
  then have "mag 119 (f_mul (f_div (f_of_nat x) (f_of_nat (w - 1))) extent)"
    using mag_mul [of 53 _ 66] assms(2) by simp
  moreover have "mag 119 lo" using assms(1) by (simp add: mag_mono)
  ultimately have "mag 120 (column_value lo extent w x)"
    unfolding column_value_def using mag_add [of 119] by simp
  then show ?thesis by (rule mag_mono) simp
qed

lemma extent_mag:
  assumes "mag 64 lo" and "mag 64 hi"
  shows "mag 66 (range_of lo hi)"
  using mag_mono [OF mag_sub [OF assms(2,1)], of 66] by (auto simp: range_of_def mag_def)

lemma column_bar_le: "column_bar pts v \<le> 7"
  by (simp add: column_bar_def Let_def)

lemma visualize_ok:
  assumes "map fst (quantiles e) = standard_percentiles"
    and "\<forall>q\<in>set (quantiles e). mag 64 (to_f64 V (snd q))"
    and "w = bar_width wd terminal (debug (snd (quantiles e ! 0))) (Some (debug (snd (quantiles e ! 3))))
           (debug (snd (quantiles e ! 6)))"
    and "w \<le> 2 ^ 53"
  shows "\<exists>pos bars. length bars = w \<and> 8 \<le> w \<and> (\<forall>b\<in>set bars. b \<le> 7)
    \<and> visualize V debug wd terminal e
        = Inr (compose_line (debug (snd (quantiles e ! 0))) (Some (debug (snd (quantiles e ! 3))))
            (debug (snd (quantiles e ! 6))) bars pos)"
proof -
  let ?qs = "quantiles e"
  let ?vs = "map (\<lambda>q. to_f64 V (snd q)) ?qs"
  have len: "length ?qs = 7" using arg_cong [OF assms(1), of length] by (simp add: standard_percentiles_def)
  have labels: "find (\<lambda>q. near one_millionth (fst q) (rnd (1 / 1000))) ?qs = Some (?qs ! 0)"
    "find (\<lambda>q. near one_millionth (fst q) (rnd (1 / 2))) ?qs = Some (?qs ! 3)"
    "find (\<lambda>q. near one_millionth (fst q) (rnd (999 / 1000))) ?qs = Some (?qs ! 6)"
    using find_standard [OF assms(1), of 0] find_standard [OF assms(1), of 3] find_standard [OF assms(1), of 6]
    by (simp_all add: standard_percentiles_def)
  have "drawn p" if p: "p \<in> set standard_percentiles" for p
  proof -
    obtain k where "k < 7" "p = standard_percentiles ! k"
      using p by (auto simp: in_set_conv_nth standard_length)
    then show ?thesis using near_standard [of k k] p by (auto simp: drawn_def list_ex_iff)
  qed
  moreover have "fst q \<in> set standard_percentiles" if "q \<in> set ?qs" for q
    using that unfolding assms(1) [symmetric] by simp
  ultimately have all: "filter (\<lambda>q. drawn (fst q)) ?qs = ?qs" by (simp add: filter_id_conv)
  have mags: "\<forall>v\<in>set ?vs. mag 64 v" using assms(2) by simp
  then have pts: "quantile_points V e = Inr (sort ?vs)"
  proof -
    have "\<not> list_ex (\<lambda>v. v = NaN) ?vs" using mags mag_not_NaN unfolding list_ex_iff by blast
    then show ?thesis by (simp add: quantile_points_def all Let_def)
  qed
  have ne: "sort ?vs \<noteq> []" using len by (metis length_0_conv length_map length_sort zero_neq_numeral)
  define lo where "lo = hd (sort ?vs)"
  define ext where "ext = range_of lo (last (sort ?vs))"
  have "lo \<in> set ?vs" "last (sort ?vs) \<in> set ?vs"
    using hd_in_set [OF ne] last_in_set [OF ne] by (simp_all add: lo_def)
  then have lo: "mag 64 lo" and ext: "mag 66 ext"
    using mags extent_mag unfolding ext_def by blast+
  have w8: "8 \<le> w" unfolding assms(3) by (rule bar_width_ge)
  have col: "f_abs (f_sub (column_value lo ext w x) (to_f64 V (snd (?qs ! 3)))) \<noteq> NaN" if "x < w" for x
  proof -
    have "mag 121 (column_value lo ext w x)"
      using column_value_mag [OF mag_mono [OF lo] ext _ assms(4) that] w8 by simp
    moreover have "mag 121 (to_f64 V (snd (?qs ! 3)))" using assms(2) len mag_mono [of 64 _ 121] by simp
    ultimately show ?thesis using mag_not_NaN [OF mag_abs [OF mag_sub [of 121]]] by simp
  qed
  then have "\<not> list_ex (\<lambda>d. snd d = NaN)
      (map (\<lambda>x. (x, f_abs (f_sub (column_value lo ext w x) (to_f64 V (snd (?qs ! 3)))))) [0 ..< w])"
    by (auto simp: list_ex_iff)
  then have "\<exists>pos. median_column lo ext w (to_f64 V (snd (?qs ! 3))) = Inr pos"
    unfolding median_column_def Let_def by (auto split: list.split simp del: list_ex_iff list.map)
  then obtain pos where pos: "median_column lo ext w (to_f64 V (snd (?qs ! 3))) = Inr pos" by blast
  define bars where "bars = map (\<lambda>x. column_bar (sort ?vs) (column_value lo ext w x)) [0 ..< w]"
  have lab: "label_or ''min'' (label_at debug e (rnd (1 / 1000))) = debug (snd (?qs ! 0))"
    "label_or ''max'' (label_at debug e (rnd (999 / 1000))) = debug (snd (?qs ! 6))"
    "label_at debug e (rnd (1 / 2)) = Some (debug (snd (?qs ! 3)))"
    by (simp_all add: label_at_def label_or_def labels)
  have "visualize V debug wd terminal e
      = Inr (compose_line (debug (snd (?qs ! 0))) (Some (debug (snd (?qs ! 3)))) (debug (snd (?qs ! 6))) bars pos)"
    unfolding visualize_def lab pts assms(3) [symmetric] labels(2) Let_def
    by (simp add: ne pos bars_def lo_def [symmetric] ext_def [symmetric])
  moreover have "length bars = w" "\<forall>b\<in>set bars. b \<le> 7"
    using column_bar_le by (auto simp: bars_def)
  ultimately show ?thesis using w8 by blast
qed

section \<open>Properties\<close>

text \<open>
  C36. The picture of estimates at the standard percentiles with finite values never panics: it
  is one bar of the eight heights for each column, at least eight columns, between the labels
  of the first and the last value.
\<close>

theorem visualize_draws_every_column:
  assumes "map fst (quantiles e) = standard_percentiles"
    and "\<forall>q\<in>set (quantiles e). mag 64 (to_f64 V (snd q))"
    and "w = bar_width wd terminal (debug (snd (quantiles e ! 0))) (Some (debug (snd (quantiles e ! 3))))
           (debug (snd (quantiles e ! 6)))"
    and "w \<le> 2 ^ 53"
  shows "\<exists>pos bars. length bars = w \<and> 8 \<le> w \<and> (\<forall>b\<in>set bars. b \<le> 7)
    \<and> visualize V debug wd terminal e
        = Inr (compose_line (debug (snd (quantiles e ! 0))) (Some (debug (snd (quantiles e ! 3))))
            (debug (snd (quantiles e ! 6))) bars pos)"
  using visualize_ok [OF assms] .

theorem visualize_draws_every_column_witness:
  "\<exists>pos bars. length bars = 61
    \<and> visualize f64_value (\<lambda>_. ''v'') (Some 70) None (Distribution_estimates demo_digest f64_value ())
        = Inr (compose_line ''v'' (Some ''v'') ''v'' bars pos)"
proof -
  let ?e = "Distribution_estimates demo_digest f64_value ()"
  have "\<forall>q\<in>set (quantiles ?e). mag 64 (to_f64 f64_value (snd q))"
    using standard_points(1) mag_mono [OF unit_point_mag, of _ 64]
    by (auto simp: Distribution_estimates_def demo_digest_def f64_value_def)
  moreover have "61 = bar_width (Some 70) None ''v'' (Some ''v'') ''v''" by (simp add: bar_width_def)
  ultimately show ?thesis
    using visualize_draws_every_column [OF digest_curve, where D1 = demo_digest and V1 = f64_value and d1 = "()"
        and V = f64_value and w = 61 and wd = "Some 70" and terminal = None and debug = "\<lambda>_. ''v''"] by auto
qed

end
