(* ===== verification/Measure.thy ===== *)
theory Measure
  imports Bench StatsProps Visualize Sched
begin

text \<open>
  \<open>measure\<close> of \<open>workloads/benchmark.rs\<close> with the closures it hands to Criterion, and the metric and
  verdict of \<open>cases/fairness.rs\<close>. Criterion decides how often a closure is called and with which
  counts: the calls are a list, each with what the workload returned and how long it took.
\<close>

section \<open>Samples\<close>

datatype 'd bench_result = Latency 'd | Count u64

record bench_args =
  bench_name :: string
  sample_size :: nat
  significance_level :: f64
  bench_percentile :: f64

text \<open>\<open>measure!\<close>: start, wait for all processes, and only then ask the workload.\<close>

definition measure_macro :: "(u32 \<Rightarrow> unit result) \<Rightarrow> (u32 \<Rightarrow> 'd bench_result result) \<Rightarrow> u32 \<Rightarrow> 'd bench_result result" where
  "measure_macro waited func iters = bind_sum (waited iters) (\<lambda>_. func iters)"

text \<open>
  A call of the latency closure: the picture is drawn, and the percentile, zero if there is
  none, is multiplied by the count.
\<close>

definition latency_sample ::
    "'d digest_ops \<Rightarrow> bench_args \<Rightarrow> (nat \<Rightarrow> string) \<Rightarrow> nat option \<Rightarrow> 'd bench_result result \<Rightarrow> u64
     \<Rightarrow> nat outcome" where
  "latency_sample D args debug terminal r iters =
     (case r of
        Inl e \<Rightarrow> Inl (PanicMsg ''Benchmark failed'')
      | Inr (Latency d) \<Rightarrow>
          let est = Distribution_estimates D duration_value d in
          bind_sum (visualize duration_value debug None terminal est) (\<lambda>_.
            let latency = as_secs_f64
              (case Estimates_percentile duration_value est (bench_percentile args) of
                 None \<Rightarrow> 0 | Some v \<Rightarrow> v)
            in from_secs_f64 (f_mul latency (f_of_nat (unat iters))))
      | Inr (Count _) \<Rightarrow> Inr 0)"

text \<open>A call of the throughput closure: its time, and the last count is kept.\<close>

definition throughput_sample ::
    "'d bench_result result \<Rightarrow> nat \<Rightarrow> u64 option \<Rightarrow> (nat \<times> u64 option) outcome" where
  "throughput_sample r elapsed last_count =
     (case r of
        Inl e \<Rightarrow> Inl (PanicMsg ''Benchmark failed'')
      | Inr (Count v) \<Rightarrow> Inr (elapsed, Some v)
      | Inr (Latency _) \<Rightarrow> Inr (elapsed, last_count))"

fun latency_samples ::
    "'d digest_ops \<Rightarrow> bench_args \<Rightarrow> (nat \<Rightarrow> string) \<Rightarrow> nat option
     \<Rightarrow> ('d bench_result result \<times> u64 \<times> nat) list \<Rightarrow> nat list outcome" where
  "latency_samples D args debug terminal [] = Inr []"
| "latency_samples D args debug terminal ((r, iters, _) # calls) =
     bind_sum (latency_sample D args debug terminal r iters) (\<lambda>t.
     bind_sum (latency_samples D args debug terminal calls) (\<lambda>ts. Inr (t # ts)))"

fun throughput_samples ::
    "('d bench_result result \<times> u64 \<times> nat) list \<Rightarrow> u64 option \<Rightarrow> (nat list \<times> u64 option) outcome" where
  "throughput_samples [] last_count = Inr ([], last_count)"
| "throughput_samples ((r, _, elapsed) # calls) last_count =
     bind_sum (throughput_sample r elapsed last_count) (\<lambda>(t, c).
     bind_sum (throughput_samples calls c) (\<lambda>(ts, c'). Inr (t # ts, c')))"

text \<open>
  \<open>measure\<close>: the first call, with count zero, decides the kind of the benchmark. The result is
  what Criterion is told: the times of the samples, and the elements of a throughput group.
\<close>

definition run_measure ::
    "'d digest_ops \<Rightarrow> bench_args \<Rightarrow> (nat \<Rightarrow> string) \<Rightarrow> nat option \<Rightarrow> 'd bench_result result
     \<Rightarrow> ('d bench_result result \<times> u64 \<times> nat) list \<Rightarrow> (unit result \<times> nat list \<times> u64 option) outcome" where
  "run_measure D args debug terminal first calls =
     (case first of
        Inr (Latency _) \<Rightarrow>
          bind_sum (latency_samples D args debug terminal calls) (\<lambda>ts. Inr (Inr (), ts, None))
      | Inr (Count _) \<Rightarrow>
          bind_sum (throughput_samples calls None) (\<lambda>(ts, c).
            Inr (Inr (), ts, Some (case c of None \<Rightarrow> 1 | Some v \<Rightarrow> v)))
      | Inl e \<Rightarrow> Inl (PanicMsg ''Unsupported benchmark result type''))"

section \<open>Fairness\<close>

text \<open>The run times of the processes; a failed \<open>stats\<close> counts as zero in the mean alone.\<close>

definition run_times :: "nat result list \<Rightarrow> f64 list" where
  "run_times stats = map (\<lambda>s. case s of Inr t \<Rightarrow> as_secs_f64 t | Inl _ \<Rightarrow> Fin 0) stats"

definition fair_digest :: "'d digest_ops \<Rightarrow> nat result list \<Rightarrow> 'd" where
  "fair_digest D stats =
     fold (\<lambda>s d. case s of Inr t \<Rightarrow> Distribution_add D duration_value t d | Inl _ \<Rightarrow> d) stats
       (Distribution_new D)"

definition fairness_metric ::
    "'d digest_ops \<Rightarrow> (nat \<Rightarrow> string) \<Rightarrow> nat option \<Rightarrow> unit result \<Rightarrow> nat result list \<Rightarrow> f64 result outcome" where
  "fairness_metric D debug terminal waited stats =
     (case waited of
        Inl e \<Rightarrow> Inr (Inl e)
      | Inr _ \<Rightarrow>
          let times = run_times stats;
              mean = f_div (foldl f_add (Fin 0) times) (f_of_nat (length times));
              est = Distribution_estimates D duration_value (fair_digest D stats) in
          bind_sum (visualize duration_value debug None terminal est) (\<lambda>_.
            Inr (Inr (case Estimates_percentile duration_value est (rnd (1 / 10)) of
              Some p10 \<Rightarrow> f_div (as_secs_f64 p10) mean
            | None \<Rightarrow> Fin 0))))"

definition fairness_test :: "bool \<Rightarrow> measurement list \<Rightarrow> unit result option outcome" where
  "fairness_test oc ms =
     bind_sum (converge oc (Some (5 * 10 ^ 9)) (Some (10 * 10 ^ 9)) (Some (rnd (6 / 10))) ms) (\<lambda>r.
       Inr (map_option
         (\<lambda>v. bind_sum v (\<lambda>x. check_target x (rnd (6 / 10)) ''Failed to achieve target'')) r))"

section \<open>Lemmas\<close>

lemma as_secs_range:
  assumes "n < 2 ^ 64"
  shows "mag 36 (as_secs_f64 n) \<and> f_nonneg (as_secs_f64 n)"
proof -
  define N :: nat where "N = 10 ^ 9"
  have N: "0 < N" "2 ^ 29 \<le> N" "N \<le> 2 ^ 53" by (simp_all add: N_def)
  have "n div N \<le> n div 2 ^ 29" using N(2) by (intro div_le_mono2) simp_all
  also have "\<dots> < 2 ^ 35" using assms by (simp add: less_mult_imp_div_less)
  finally have s: "mag 35 (f_of_nat (n div N))" by (intro f_of_nat_mag) simp_all
  have r: "n mod N \<le> N" using N(1) by (simp add: order_less_imp_le)
  have fl: "f_of_nat (n mod N) = Fin (of_nat (n mod N))" "f_of_nat N = Fin (of_nat N)"
    using r N(3) by (auto intro: rnd_nat)
  have "(of_nat (n mod N) :: rat) \<le> of_nat N" using r by (simp only: of_nat_le_iff)
  then have "(of_nat (n mod N) :: rat) / of_nat N \<le> 1" using N(1) by (simp add: divide_le_eq)
  then have d: "mag 0 (rnd (of_nat (n mod N) / of_nat N))" "f_nonneg (rnd (of_nat (n mod N) / of_nat N))"
    by (auto intro: rnd_mag rnd_nonneg)
  have q: "f_div (f_of_nat (n mod N)) (f_of_nat N) = rnd (of_nat (n mod N) / of_nat N)"
    using N(1) by (simp add: fl)
  have e: "as_secs_f64 n = f_add (f_of_nat (n div N)) (rnd (of_nat (n mod N) / of_nat N))"
    by (simp only: as_secs_f64_def N_def [symmetric] q)
  have "f_nonneg (f_of_nat (n div N))" unfolding f_of_nat_def by (rule rnd_nonneg) simp
  then have "f_nonneg (as_secs_f64 n)" unfolding e using d(2) by (rule nonneg_add)
  moreover have "mag 36 (as_secs_f64 n)" unfolding e using mag_add [OF s mag_mono [OF d(1)]] by simp
  ultimately show ?thesis by blast
qed

lemma duration_value_small: "of_f64 duration_value v < 2 ^ 64"
  using unsigned_less [where 'a = nat and 'b = 64] by (simp add: duration_value_def Duration_from_u64_def)

text \<open>
  What the code relies on in a type of values: whatever a digest returns, the value made from
  it is a number as a double. Then every distribution of that type can be drawn, and every
  percentile is a value that was made so.
\<close>

locale finite_values =
  fixes V :: "'v dist_value"
  assumes made_finite: "mag 64 (to_f64 V (of_f64 V x))"
begin

lemma curve_mag: "\<forall>q\<in>set (quantiles (Distribution_estimates D V d)). mag 64 (to_f64 V (snd q))"
  using made_finite by (auto simp: Distribution_estimates_def)

lemma drawable:
  assumes "\<forall>t. terminal = Some t \<longrightarrow> t \<le> 2 ^ 53"
  shows "\<exists>line. visualize V debug None terminal (Distribution_estimates D V d) = Inr line"
proof -
  have w: "bar_width None terminal a m b \<le> 2 ^ 53" for a m b
    using assms by (cases terminal) (auto simp: bar_width_def Let_def intro!: le_trans [OF diff_le_self])
  show ?thesis
    using visualize_ok [OF digest_curve [of D V d] curve_mag refl w, of debug] by blast
qed

lemma percentile_made:
  assumes "p \<noteq> NaN"
  shows "\<exists>x. Estimates_percentile V (Distribution_estimates D V d) p = Some (of_f64 V x)"
proof -
  let ?e = "Distribution_estimates D V d"
  have pts: "\<forall>q\<in>set (quantiles ?e). unit_point (fst q)" "quantiles ?e \<noteq> []"
    using standard_points(1) standard_length by (simp_all add: Distribution_estimates_def)
  obtain v where v: "Estimates_percentile V ?e p = Some v"
    "v \<in> snd ` set (quantiles ?e) \<or> (\<exists>ab. v = lerp V ab p)"
    using percentile_total [OF pts(2,1) assms, of V] by metis
  then show ?thesis by (auto simp: Distribution_estimates_def lerp_def Let_def split: prod.splits)
qed

end

interpretation durations: finite_values duration_value
proof
  fix x
  have "mag 36 (as_secs_f64 (of_f64 duration_value x))" using as_secs_range [OF duration_value_small] by blast
  then show "mag 64 (to_f64 duration_value (of_f64 duration_value x))"
    by (simp add: duration_value_def mag_mono)
qed

lemma from_secs_ok:
  assumes "mag 63 a" and "f_nonneg a"
  shows "\<exists>n. from_secs_f64 a = Inr n"
proof -
  obtain x where x: "a = Fin x" "0 \<le> x" "x \<le> 2 ^ 63" using assms by (auto simp: mag_def f_nonneg_def)
  have "round_even (x * 10 ^ 9) \<le> round_even (of_int (2 ^ 63 * 10 ^ 9))"
    using x(3) by (intro round_even_mono) simp
  then have "nat (round_even (x * 10 ^ 9)) < 2 ^ 64 * 10 ^ 9" unfolding round_even_int by simp
  then show ?thesis using x(1,2) by (simp add: from_secs_f64_def duration_max_def Let_def)
qed

text \<open>\<open>fairness\<close> judges that the value reaches its target.\<close>

interpretation fair: converging_case fairness_test "5 * 10 ^ 9" "10 * 10 ^ 9" "rnd (6 / 10)"
  "\<lambda>x. check_target x (rnd (6 / 10)) ''Failed to achieve target''"
  by unfold_locales (simp add: fairness_test_def)

section \<open>Properties\<close>

text \<open>
  A latency sample cannot fail once the workload has answered: whatever the digest holds,
  the picture is drawn, the percentile exists, so the default of zero is never used, and the
  product with up to \<open>2 ^ 27\<close> iterations is a duration.
\<close>

theorem latency_sample_never_panics:
  assumes "bench_percentile args \<noteq> NaN" and "unat iters \<le> 2 ^ 27"
    and "\<forall>t. terminal = Some t \<longrightarrow> t \<le> 2 ^ 53"
  shows "\<exists>v n. Estimates_percentile duration_value (Distribution_estimates D duration_value d)
        (bench_percentile args) = Some v
    \<and> from_secs_f64 (f_mul (as_secs_f64 v) (f_of_nat (unat iters))) = Inr n
    \<and> latency_sample D args debug terminal (Inr (Latency d)) iters = Inr n"
proof -
  obtain line where line: "visualize duration_value debug None terminal (Distribution_estimates D duration_value d) = Inr line"
    using durations.drawable [OF assms(3), of debug D d] by blast
  obtain v where v: "Estimates_percentile duration_value (Distribution_estimates D duration_value d)
      (bench_percentile args) = Some v" "v < 2 ^ 64"
    using durations.percentile_made [OF assms(1), of D d] duration_value_small by metis
  have i: "mag 27 (f_of_nat (unat iters))" "f_nonneg (f_of_nat (unat iters))"
    using f_of_nat_mag [OF assms(2)] rnd_nonneg [of "of_nat (unat iters)"] by (simp_all only: f_of_nat_def)
  note s = as_secs_range [OF v(2)]
  obtain n where "from_secs_f64 (f_mul (as_secs_f64 v) (f_of_nat (unat iters))) = Inr n"
    using from_secs_ok mag_mul [OF conjunct1 [OF s] i(1)] nonneg_mul [OF conjunct2 [OF s] conjunct1 [OF s] i(2,1)]
    by fastforce
  then show ?thesis using v(1) line by (simp add: latency_sample_def Let_def)
qed

theorem latency_sample_never_panics_witness:
  "\<exists>n. latency_sample demo_digest \<lparr>bench_name = ''b'', sample_size = 10, significance_level = Fin 0, bench_percentile = Fin (1 / 2)\<rparr>
     (\<lambda>_. ''v'') (Some 80) (Inr (Latency ())) 1000 = Inr n"
  using latency_sample_never_panics [of "\<lparr>bench_name = ''b'', sample_size = 10, significance_level = Fin 0, bench_percentile = Fin (1 / 2)\<rparr>"
      1000 "Some 80" demo_digest "()" "\<lambda>_. ''v''"] by auto

text \<open>
  What \<open>measure\<close> does with errors of the workload: it never returns one. It succeeds only if the
  first call and every call of the closures answered; the first error is a panic, and that
  of the first call even names the wrong cause.
\<close>

theorem measure_never_returns_errors:
  "(run_measure D args debug terminal first calls = Inr (r, ts, c) \<longrightarrow>
     r = Inr () \<and> (\<exists>b. first = Inr b) \<and> (\<forall>x\<in>set calls. \<exists>b. fst x = Inr b) \<and> length ts = length calls)
   \<and> run_measure D args debug terminal (Inl e) calls = Inl (PanicMsg ''Unsupported benchmark result type'')"
proof -
  have lat: "(\<forall>x\<in>set calls. \<exists>b. fst x = Inr b) \<and> length ts = length calls"
    if "latency_samples D args debug terminal calls = Inr ts" for ts
    using that by (induction calls arbitrary: ts rule: latency_samples.induct)
      (auto simp: bind_sum_Inr_iff latency_sample_def split: sum.splits)
  have thr: "(\<forall>x\<in>set calls. \<exists>b. fst x = Inr b) \<and> length ts = length calls"
    if "throughput_samples calls l = Inr (ts, c)" for ts l c
    using that
  proof (induction calls l arbitrary: ts c rule: throughput_samples.induct)
    case (2 x iters elapsed calls l)
    obtain u l' ts' where s: "throughput_sample x elapsed l = Inr (u, l')"
        "throughput_samples calls l' = Inr (ts', c)" "ts = u # ts'"
      using 2(2) by (auto simp: bind_sum_Inr_iff)
    have "\<exists>b. x = Inr b" using s(1) by (cases x) (simp_all add: throughput_sample_def)
    then show ?case using 2(1) [OF s(2)] s(3) by simp
  qed simp
  have "r = Inr () \<and> (\<exists>b. first = Inr b) \<and> (\<forall>x\<in>set calls. \<exists>b. fst x = Inr b) \<and> length ts = length calls"
    if run: "run_measure D args debug terminal first calls = Inr (r, ts, c)"
    using run by (cases first; cases "projr first")
      (auto simp: run_measure_def bind_sum_Inr_iff dest: lat thr)
  then show ?thesis by (auto simp: run_measure_def)
qed

text \<open>
  The fairness test passes only by converging: its last measurement took at least five
  seconds and gave a tenth percentile of at least six tenths of the mean run time. Giving up
  after the maximum time is a failure here.
\<close>

theorem fairness_passes_by_converging:
  "\<exists>r. fairness_test oc ms = Inr r
    \<and> (r = Some (Inr ()) \<longrightarrow>
        (let cs = counts oc (5 * 10 ^ 9) (10 * 10 ^ 9) (rnd (6 / 10)) ms 1;
             m = ms ! (length cs - 1) in
         cs \<noteq> [] \<and> length cs \<le> length ms \<and> 5 * 10 ^ 9 \<le> snd (m (last cs))
         \<and> (\<exists>ratio. fst (m (last cs)) = Inr ratio \<and> f_le (rnd (6 / 10)) ratio)))"
proof -
  have "rnd (6 / 10) = Fin (5404319552844595 / 9007199254740992)"
    by (rule rnd_eqI [where k = 1 and m = 5404319552844595, THEN trans]) simp_all
  then have "check_target (Fin 0) (rnd (6 / 10)) msg \<noteq> Inr ()" for msg
    by (simp add: check_target_def f_lt_def)
  then show ?thesis
    using fair.no_panic [of oc ms] fair.pass_cases [of oc ms] unfolding Let_def by blast
qed

theorem fairness_passes_by_converging_witness:
  "fairness_test True [\<lambda>_. (Inr (Fin 1), 6 * 10 ^ 9)] = Inr (Some (Inr ())) \<and> f_le (rnd (6 / 10)) (Fin 1)"
proof -
  let ?ms = "[\<lambda>_. (Inr (Fin 1), 6 * 10 ^ 9)] :: measurement list"
  have le: "f_le (rnd (6 / 10)) (Fin 1)" using rnd_mono [of "6 / 10" 1] by simp
  then have run: "fairness_test True ?ms = Inr (Some (Inr ()))"
    by (simp add: fairness_test_def converge_def or_default_def converge_round_def check_target_def f_lt_def)
  then show ?thesis using fairness_passes_by_converging [of True ?ms] le by simp
qed

end
