(* ===== verification/Main_Program.thy ===== *)
theory Main_Program
  imports Child Measure
begin

text \<open>
  \<open>main.rs\<close> and the registry of \<open>cases/mod.rs\<close>: starting a scheduler binary and waiting until it
  is installed, turning the registered cases into trials, and the order of the program's
  steps. The case functions, the argument parser and the trial runner are parameters.
\<close>

section \<open>Running the scheduler binary\<close>

definition exit_error :: "text_result option \<Rightarrow> string" where
  "exit_error v =
     (case v of Some (Inl e) \<Rightarrow> e | _ \<Rightarrow> ''child exited without installing scheduler'')"

text \<open>
  One round per state of the framework's files: a dead child ends the loop with its error, an
  installed scheduler with success. \<open>None\<close> when the rounds or the answers are used up.
\<close>

fun poll_loop ::
    "(string \<Rightarrow> string) \<Rightarrow> child \<Rightarrow> answers \<Rightarrow> ext_sysfs list \<Rightarrow> (string + child) option outcome" where
  "poll_loop lossy c w [] = Inr None"
| "poll_loop lossy c w (fs # rest) =
     bind_sum (Child_alive lossy c w) (\<lambda>r.
       case r of
         None \<Rightarrow> Inr None
       | Some (False, c1, w1) \<Rightarrow>
           bind_sum (Child_wait lossy True c1 w1) (\<lambda>r.
             Inr (case r of None \<Rightarrow> None | Some (v, _) \<Rightarrow> Some (Inl (exit_error v))))
       | Some (True, c1, w1) \<Rightarrow>
           (case SchedExt_installed fs of
              Inl _ \<Rightarrow> Inr (Some (Inl ''unable to query scheduler''))
            | Inr (Some name) \<Rightarrow> Inr (Some (Inr c1))
            | Inr None \<Rightarrow> poll_loop lossy c1 w1 rest))"

definition main_run ::
    "(string \<Rightarrow> string) \<Rightarrow> ext_sysfs \<Rightarrow> (string + child) outcome \<Rightarrow> answers \<Rightarrow> ext_sysfs list
     \<Rightarrow> (string + child) option outcome" where
  "main_run lossy fs0 spawned w polls =
     (case SchedExt_installed fs0 of
        Inl _ \<Rightarrow> Inr (Some (Inl ''unable to query scheduler''))
      | Inr (Some name) \<Rightarrow> Inr (Some (Inl (''scheduler already installed: '' @ name)))
      | Inr None \<Rightarrow>
          bind_sum spawned (\<lambda>s.
            case s of
              Inl _ \<Rightarrow> Inr (Some (Inl ''unable to spawn child process''))
            | Inr c \<Rightarrow> poll_loop lossy c w polls))"

section \<open>Trials\<close>

text \<open>\<open>'f\<close> is what a case takes: nothing for a test, the arguments for a benchmark.\<close>

record 'f registered =
  reg_name :: string
  reg_fn :: 'f
  reg_constraints :: "text_result"

text \<open>\<open>test!\<close> and \<open>benchmark!\<close> with parameters: one entry per parameter, named after it.\<close>

definition expand_params ::
    "string \<Rightarrow> ('p \<Rightarrow> 'f) \<Rightarrow> ('p \<Rightarrow> text_result) \<Rightarrow> ('p \<Rightarrow> string) \<Rightarrow> 'p list \<Rightarrow> 'f registered list" where
  "expand_params name f constraints show_param params =
     map (\<lambda>p. \<lparr>reg_name = name @ ''/'' @ show_param p, reg_fn = f p, reg_constraints = constraints p\<rparr>)
       params"

text \<open>Without parameters: one entry, which is never ignored when it names no constraints.\<close>

definition expand_plain :: "string \<Rightarrow> 'f \<Rightarrow> text_result option \<Rightarrow> 'f registered list" where
  "expand_plain name f constraints =
     [\<lparr>reg_name = name, reg_fn = f,
       reg_constraints = (case constraints of None \<Rightarrow> Inr () | Some c \<Rightarrow> c)\<rparr>]"

record trial =
  trial_name :: string
  trial_fn :: "text_result"
  trial_ignored :: bool
  ignore_reason :: "string option"

definition make_trial :: "string \<Rightarrow> text_result \<Rightarrow> text_result \<Rightarrow> trial" where
  "make_trial name test_fn constraints =
     \<lparr>trial_name = name, trial_fn = test_fn, trial_ignored = isl constraints,
      ignore_reason = (case constraints of Inl e \<Rightarrow> Some e | Inr _ \<Rightarrow> None)\<rparr>"

text \<open>The name, for ever, and the set of the names handed out.\<close>

definition intern_string :: "string \<Rightarrow> string set \<Rightarrow> string \<times> string set" where
  "intern_string s names = (s, insert s names)"

text \<open>One trial after the other; \<open>f\<close> is how a case is called, given its name.\<close>

fun make_trials ::
    "(string \<Rightarrow> 'f \<Rightarrow> text_result) \<Rightarrow> 'f registered list \<Rightarrow> string set \<Rightarrow> trial list \<times> string set" where
  "make_trials f [] names = ([], names)"
| "make_trials f (t # ts) names =
     (case intern_string (reg_name t) names of (name, names1) \<Rightarrow>
       (case make_trials f ts names1 of (trials, names2) \<Rightarrow>
         (make_trial name (f name (reg_fn t)) (reg_constraints t) # trials, names2)))"

text \<open>The command line, and what the trial runner is told.\<close>

record main_args =
  arg_list :: bool
  arg_filter :: "string option"
  arg_benchmarks :: bool
  arg_binary :: "string list"
  arg_sample_size :: nat
  arg_significance_level :: f64
  arg_percentile :: f64

record libtest_args =
  include_ignored :: bool
  only_ignored :: bool
  lt_test :: bool
  lt_bench :: bool
  lt_list :: bool
  nocapture :: bool
  show_output :: bool
  lt_exact :: bool
  lt_quiet :: bool
  test_threads :: "nat option"
  lt_skip :: "string list"
  lt_filter :: "string option"

definition libtest_arguments :: "main_args \<Rightarrow> libtest_args" where
  "libtest_arguments args =
     \<lparr>include_ignored = False, only_ignored = False, lt_test = True, lt_bench = False,
      lt_list = arg_list args, nocapture = False, show_output = True, lt_exact = False,
      lt_quiet = False, test_threads = Some 1, lt_skip = [], lt_filter = arg_filter args\<rparr>"

definition run_tests ::
    "main_args \<Rightarrow> (bench_args \<Rightarrow> text_result) registered list \<Rightarrow> text_result registered list
     \<Rightarrow> libtest_args \<times> trial list" where
  "run_tests args bench_items test_items =
     (libtest_arguments args,
      if arg_benchmarks args
      then fst (make_trials (\<lambda>name test_fn. test_fn
        \<lparr>bench_name = name, sample_size = arg_sample_size args,
         significance_level = arg_significance_level args, bench_percentile = arg_percentile args\<rparr>)
        bench_items {})
      else fst (make_trials (\<lambda>_ test_fn. test_fn) test_items {}))"

section \<open>The program\<close>

text \<open>
  The steps in order: the root check, the scheduler binary if one is given, the tests, and
  the end of the scheduler. \<open>run\<close> is the outcome of running the binary and \<open>conclude\<close> that of the
  trial runner; the result says whether the tests ran and whether a child is dropped after.
\<close>

definition main_program ::
    "bool \<Rightarrow> main_args \<Rightarrow> (string list \<Rightarrow> string + child)
     \<Rightarrow> (bench_args \<Rightarrow> text_result) registered list \<Rightarrow> text_result registered list
     \<Rightarrow> string + (libtest_args \<times> trial list) \<times> child option" where
  "main_program is_root args run bench_items test_items =
     (if \<not> is_root then Inl ''must run as root''
      else bind_sum
        (if arg_binary args = [] then Inr None else map_sum id Some (run (arg_binary args)))
        (\<lambda>maybe_child. Inr (run_tests args bench_items test_items, maybe_child)))"

definition is_root :: "nat \<Rightarrow> bool" where
  "is_root euid = (euid = 0)"

section \<open>Lemmas\<close>

lemma make_trials_eq:
  "make_trials f ts names =
     (map (\<lambda>t. make_trial (reg_name t) (f (reg_name t) (reg_fn t)) (reg_constraints t)) ts,
      names \<union> reg_name ` set ts)"
  by (induction ts arbitrary: names) (auto simp: intern_string_def)

lemma wait_none_keeps:
  assumes "wait_loop lossy block c ws rs = Inr (Some (None, c', w))"
  shows "c' = c"
  using assms
proof (induction ws)
  case (Cons a ws)
  then show ?case
    by (cases "wait_status a")
      (auto simp: collect_def Let_def split: if_splits option.splits prod.splits)
qed simp

lemma Child_alive_true:
  assumes "Child_alive lossy c w = Inr (Some (True, c', w'))"
  shows "cresult c = None" and "c' = c"
proof -
  show none: "cresult c = None" using assms by (auto simp: Child_alive_def split: if_splits)
  have "Child_wait lossy False c w = Inr (Some (None, c', w'))"
    using assms none by (auto simp: Child_alive_def bind_sum_Inr_iff split: option.splits prod.splits)
  then show "c' = c" using none wait_none_keeps by (simp add: Child_wait_def)
qed

lemma poll_loop_installed:
  assumes "poll_loop lossy c w polls = Inr (Some (Inr c'))"
  shows "c' = c \<and> cresult c = None
    \<and> (\<exists>k name. k < length polls \<and> SchedExt_installed (polls ! k) = Inr (Some name)
        \<and> (\<forall>j<k. SchedExt_installed (polls ! j) = Inr None))"
  using assms
proof (induction polls arbitrary: w)
  case (Cons fs rest)
  obtain r where alive: "Child_alive lossy c w = Inr r"
    using Cons.prems by (auto simp: bind_sum_Inr_iff)
  obtain c1 w1 where r: "r = Some (True, c1, w1)"
    using Cons.prems alive
    by (cases r) (auto simp: bind_sum_Inr_iff split: bool.splits option.splits)
  note same = Child_alive_true [OF alive [unfolded r]]
  show ?case
  proof (cases "SchedExt_installed fs")
    case (Inl e)
    then show ?thesis using Cons.prems alive r by simp
  next
    case (Inr found)
    show ?thesis
    proof (cases found)
      case None
      then have "poll_loop lossy c w1 rest = Inr (Some (Inr c'))"
        using Cons.prems alive r Inr same by simp
      from Cons.IH [OF this] obtain k name where k: "c' = c" "k < length rest"
        "SchedExt_installed (rest ! k) = Inr (Some name)"
        "\<And>j. j < k \<Longrightarrow> SchedExt_installed (rest ! j) = Inr None" by blast
      have "SchedExt_installed ((fs # rest) ! j) = Inr None" if "j < Suc k" for j
        using that k(4) Inr None by (cases j) simp_all
      then show ?thesis using k(1-3) same by (intro conjI exI [of _ "Suc k"]) auto
    next
      case (Some name)
      then show ?thesis using Cons.prems alive r Inr same by (intro conjI exI [of _ 0]) auto
    qed
  qed
qed simp

section \<open>Properties\<close>


definition fs_disabled :: ext_sysfs where
  "fs_disabled = \<lparr>ext_dir = True, ext_state = Contents ''disabled'', ext_ops = Absent\<rparr>"

definition fs_enabled :: ext_sysfs where
  "fs_enabled = \<lparr>ext_dir = True, ext_state = Contents ''enabled'', ext_ops = Contents ''lavd''\<rparr>"

lemma fs_demo: "SchedExt_installed fs_disabled = Inr None" "SchedExt_installed fs_enabled = Inr (Some ''lavd'')"
  by (simp_all add: fs_disabled_def fs_enabled_def SchedExt_installed_def SchedExt_available_def
      read_ext_def trim_def trim_start_def is_space_def)


text \<open>
  The trials of a run are the registered cases of the chosen kind, one each, in order and
  under their own name; a trial is ignored exactly when its constraints failed, with their
  error as the reason. A benchmark is called with its own name and the command line's
  parameters. Cases registered with parameters have one trial for each parameter,
  named after it, with that parameter's own constraints.
\<close>

theorem trials_match_registry:
  "map trial_name (snd (run_tests args benches tests))
     = (if arg_benchmarks args then map reg_name benches else map reg_name tests)
   \<and> (arg_benchmarks args \<longrightarrow> (\<forall>i < length benches.
        trial_fn (snd (run_tests args benches tests) ! i) = reg_fn (benches ! i)
          \<lparr>bench_name = reg_name (benches ! i), sample_size = arg_sample_size args,
           significance_level = arg_significance_level args, bench_percentile = arg_percentile args\<rparr>))
   \<and> (\<forall>t\<in>set (snd (run_tests args benches tests)). trial_ignored t \<longleftrightarrow> ignore_reason t \<noteq> None)
   \<and> map ignore_reason (snd (run_tests args benches tests))
     = map (\<lambda>c. case c of Inl e \<Rightarrow> Some e | Inr _ \<Rightarrow> None)
         (if arg_benchmarks args then map reg_constraints benches else map reg_constraints tests)
   \<and> map reg_name (expand_params name f cs show_param ps) = map (\<lambda>p. name @ ''/'' @ show_param p) ps
   \<and> map reg_constraints (expand_params name f cs show_param ps) = map cs ps"
  by (auto simp: run_tests_def make_trials_eq make_trial_def expand_params_def comp_def isl_def split: sum.split)

definition demo_args :: main_args where
  "demo_args = \<lparr>arg_list = False, arg_filter = None, arg_benchmarks = True, arg_binary = [],
     arg_sample_size = 10, arg_significance_level = Fin 0, arg_percentile = Fin 0\<rparr>"

theorem trials_match_registry_witness:
  "map trial_name (snd (run_tests demo_args
     (expand_params ''p'' (\<lambda>_ _. Inr ()) (\<lambda>n. if n then Inr () else Inl ''no'') (\<lambda>n. if n then ''A'' else ''B'')
       [True, False]) [])) = [''p/A'', ''p/B'']"
  using trials_match_registry [where args = demo_args and benches =
     "expand_params ''p'' (\<lambda>_ _. Inr ()) (\<lambda>n. if n then Inr () else Inl ''no'') (\<lambda>n. if n then ''A'' else ''B'')
       [True, False]" and tests = "[]"]
  by (auto simp: expand_params_def demo_args_def)

end
