(* ===== verification/Workloads.thy ===== *)
theory Workloads
  imports TopologyLoad Cases
begin

text \<open>
  The tasks of the cases that only spin: which processes \<open>fairness\<close> makes and where they may run,
  how many spinners \<open>spread_out\<close> and \<open>come_together\<close> make, and the loop of a spinning task.
\<close>

section \<open>The loop of a spinning task\<close>

text \<open>\<open>Duration::from_millis\<close>, in nanoseconds.\<close>

definition millis :: "u32 \<Rightarrow> nat" where
  "millis n = unat n * 10 ^ 6"

text \<open>
  \<open>loop { spinner.spin(from_millis(get_iters())) }\<close>: for every count that \<open>get_iters\<close> gives, the
  clock and CPU readings of that spin; the state is the spinner's cell. \<open>None\<close> when a spin
  runs out of readings.
\<close>

fun spin_rounds :: "(u32 \<times> (nat \<times> u32 option) list) list \<Rightarrow> u32 \<Rightarrow> u32 option" where
  "spin_rounds [] cell = Some cell"
| "spin_rounds ((iters, readings) # rest) cell =
     (case spin (millis iters) readings cell of None \<Rightarrow> None | Some cell' \<Rightarrow> spin_rounds rest cell')"

text \<open>The last CPU a spinner has seen.\<close>

definition last_known :: "u32 option list \<Rightarrow> u32 \<Rightarrow> u32" where
  "last_known cpus cell = fold (\<lambda>cpu c. case cpu of None \<Rightarrow> c | Some k \<Rightarrow> k) cpus cell"

lemma spin_iff:
  "spin d rs cell = Some cell' \<longleftrightarrow> (\<exists>k < length rs. d \<le> fst (rs ! k) \<and> (\<forall>i < k. fst (rs ! i) < d)
     \<and> cell' = last_known (map snd (take k rs)) cell)"
proof (induction rs arbitrary: cell)
  case (Cons r rs)
  obtain e cpu where r: "r = (e, cpu)" by fastforce
  show ?case
  proof (cases "e < d")
    case True
    let ?cell = "case cpu of None \<Rightarrow> cell | Some c \<Rightarrow> c"
    have "spin d (r # rs) cell = Some cell' \<longleftrightarrow> spin d rs ?cell = Some cell'" using True r by simp
    also have "\<dots> \<longleftrightarrow> (\<exists>k < length rs. d \<le> fst (rs ! k) \<and> (\<forall>i < k. fst (rs ! i) < d)
        \<and> cell' = last_known (map snd (take k rs)) ?cell)" by (rule Cons.IH)
    also have "\<dots> \<longleftrightarrow> (\<exists>k < length (r # rs). d \<le> fst ((r # rs) ! k) \<and> (\<forall>i < k. fst ((r # rs) ! i) < d)
        \<and> cell' = last_known (map snd (take k (r # rs))) cell)"
      using True r by (simp add: Ex_less_Suc2 All_less_Suc2 last_known_def)
    finally show ?thesis .
  next
    case False
    then show ?thesis using r by (auto simp: Ex_less_Suc2 All_less_Suc2 last_known_def)
  qed
qed simp

section \<open>The tasks of the cases\<close>

fun each_mask :: "hyperthread list \<Rightarrow> mask list outcome" where
  "each_mask [] = Inr []"
| "each_mask (h # hs) =
     bind_sum (CPUMask_new Hyperthread_mask h) (\<lambda>m. bind_sum (each_mask hs) (\<lambda>ms. Inr (m # ms)))"

text \<open>
  \<open>fairness\<close> makes one task pinned to every hyperthread of every core, and then as many floating
  tasks as there are logical CPUs; the topology is loaded once for each.
\<close>

definition fairness_tasks :: "system \<Rightarrow> system \<Rightarrow> mask option list outcome" where
  "fairness_tasks s1 s2 =
     bind_sum (each_mask (concat (map hyperthreads (all_cores s1)))) (\<lambda>ms.
       Inr (map Some ms @ replicate (System_logical_cpus s2) None))"

text \<open>\<open>spread_out\<close> needs a first core and makes a spinner for every core.\<close>

definition spread_spinners :: "system \<Rightarrow> (core \<times> nat) outcome" where
  "spread_spinners s = bind_sum (vec_index (all_cores s) 0) (\<lambda>c. Inr (c, length (all_cores s)))"

text \<open>
  A task of \<open>spread_out\<close> migrates to that core, gives up if it cannot, and then spins round after
  round. The state is its affinity mask and its spinner's cell.
\<close>

definition spread_task ::
    "affinity_env \<Rightarrow> core \<Rightarrow> (u32 \<times> (nat \<times> u32 option) list) list \<Rightarrow> mask \<times> u32
     \<Rightarrow> (unit result outcome \<times> (mask \<times> u32)) option" where
  "spread_task env c rounds st =
     (case CPUSet_migrate env (Core_mask c) st of
        (Inr (Inr u), st1) \<Rightarrow>
          map_option (\<lambda>cell. (Inr (Inr u), (fst st1, cell))) (spin_rounds rounds (snd st1))
      | (r, st1) \<Rightarrow> Some (r, st1))"

text \<open>\<open>come_together\<close> makes a process for every complex, with a spinner for every core in it.\<close>

definition come_spinners :: "system \<Rightarrow> nat list" where
  "come_spinners s = replicate (System_complexes s) (length (all_cores s))"

lemma each_mask_ok:
  assumes "\<forall>h\<in>set hs. ht_ok h"
  shows "\<exists>ms. each_mask hs = Inr ms \<and> map mask_cpus ms = map ht_cpus hs"
  using assms
proof (induction hs)
  case (Cons h hs)
  obtain m where m: "Hyperthread_mask h = Inr m" "mask_cpus m = ht_cpus h"
    using hyperthread_set.mask_exact [of h] Cons.prems by (auto simp: masks_exactly_def)
  then show ?case using Cons by (auto simp: CPUMask_new_def)
qed simp

text \<open>The hyperthreads of all cores of a loaded system: every existing CPU once.\<close>

lemma loaded_hyperthreads:
  assumes "System_load num sysfs = Inr s" and "fst num \<le> 2 ^ 31"
  shows "distinct (map ht_id (concat (map hyperthreads (all_cores s))))"
    and "set (map ht_id (concat (map hyperthreads (all_cores s)))) = {cpu \<in> {0 ..< fst num}. sysfs cpu \<noteq> None}"
    and "length (concat (map hyperthreads (all_cores s))) = System_logical_cpus s"
proof -
  let ?ids = "map ht_id (concat (map hyperthreads (all_cores s)))"
  let ?cpus = "filter (cpu_exists sysfs) [0 .. fst num - 1]"
  obtain t where t: "s = System_new (build_nodes t)"
    "topo_count t = length ?cpus"
    using System_load_map [OF assms(1)] by blast
  then have count: "System_logical_cpus s = length ?cpus"
    and all: "set (all_cores s) = (\<Union>n\<in>set (nodes s). \<Union>x\<in>set (complexes n). set (cores x))"
    by (simp_all add: logical_cpus_build all_cores_eq Node_cores_eq)
  show len: "length (concat (map hyperthreads (all_cores s))) = System_logical_cpus s"
    by (simp add: System_logical_cpus_def fold_count length_concat comp_def)
  have small: "as_i32 k = k" if "k \<in> {0 ..< fst num}" for k
    using that assms(2) by (intro as_i32_id) auto
  have "set ?ids \<subseteq> {cpu \<in> {0 ..< fst num}. sysfs cpu \<noteq> None}"
  proof
    fix i assume "i \<in> set ?ids"
    then obtain c where c: "c \<in> set (all_cores s)" "i \<in> set (map ht_id (hyperthreads c))" by auto
    then obtain n x where "n \<in> set (nodes s)" "x \<in> set (complexes n)" "c \<in> set (cores x)" using all by auto
    from load_shape(2) [OF assms(1) this] c(2)
    obtain k where "k \<in> set (cpus_at sysfs (node_id n, complex_id x, core_id c) [0 .. fst num - 1])" "i = as_i32 k"
      by auto
    then show "i \<in> {cpu \<in> {0 ..< fst num}. sysfs cpu \<noteq> None}"
      using small by (auto simp: cpus_at_def split: option.splits)
  qed
  moreover have "{cpu \<in> {0 ..< fst num}. sysfs cpu \<noteq> None} \<subseteq> set ?ids"
  proof
    fix cpu assume "cpu \<in> {cpu \<in> {0 ..< fst num}. sysfs cpu \<noteq> None}"
    then obtain d where d: "0 \<le> cpu" "cpu < fst num" "sysfs cpu = Some d" by auto
    then have "as_i32 cpu = cpu" using small by simp
    with load_covers [OF assms(1) d] show "cpu \<in> set ?ids" using all by auto
  qed
  ultimately show set: "set ?ids = {cpu \<in> {0 ..< fst num}. sysfs cpu \<noteq> None}" by blast
  have "set ?cpus = {cpu \<in> {0 ..< fst num}. sysfs cpu \<noteq> None}"
    by (auto simp: cpu_exists_def)
  moreover have "distinct ?cpus" by simp
  ultimately have "card (set ?ids) = length ?ids"
    using set len count by (metis distinct_card length_map)
  then show "distinct ?ids" by (rule card_distinct)
qed

text \<open>A spin ends exactly when the clock gets past its duration.\<close>

lemma spin_ends: "spin d rs cell \<noteq> None \<longleftrightarrow> (\<exists>r\<in>set rs. d \<le> fst r)"
  by (induction d rs cell rule: spin.induct) (auto simp: not_less)

lemma last_known_seen: "last_known cpus cell = cell \<or> Some (last_known cpus cell) \<in> set cpus"
proof (induction cpus arbitrary: cell)
  case (Cons cpu cpus)
  show ?case
    using Cons.IH [of cell] Cons.IH [of "the cpu"] by (cases cpu) (auto simp: last_known_def)
qed (simp add: last_known_def)

lemma spin_seen:
  assumes "spin d rs cell = Some cell'"
  shows "cell' = cell \<or> Some cell' \<in> snd ` set rs"
proof -
  obtain k where "cell' = last_known (map snd (take k rs)) cell" using assms by (auto simp: spin_iff)
  then show ?thesis
    using last_known_seen [of "map snd (take k rs)" cell] set_take_subset [of k rs] by auto
qed

section \<open>Properties\<close>

text \<open>
  A spinning task gets through its rounds exactly when in every round the clock got to the
  milliseconds of its count, never earlier; and what its cell holds afterwards is a CPU that
  the kernel reported in one of the rounds, or what it held before.
\<close>

theorem spinner_rounds:
  "(spin_rounds rounds cell \<noteq> None \<longleftrightarrow> (\<forall>r\<in>set rounds. \<exists>x\<in>set (snd r). millis (fst r) \<le> fst x))
   \<and> (\<forall>cell'. spin_rounds rounds cell = Some cell' \<longrightarrow>
        cell' = cell \<or> (\<exists>r\<in>set rounds. Some cell' \<in> snd ` set (snd r)))"
proof (induction rounds arbitrary: cell)
  case (Cons r rounds)
  obtain n rs where r: "r = (n, rs)" by fastforce
  show ?case
  proof (cases "spin (millis n) rs cell")
    case None
    then have "\<not> (\<exists>x\<in>set rs. millis n \<le> fst x)" using spin_ends [of "millis n" rs cell] by simp
    then show ?thesis using None r by simp
  next
    case (Some c)
    then have "\<exists>x\<in>set rs. millis n \<le> fst x" using spin_ends [of "millis n" rs cell] by simp
    then show ?thesis using Some r Cons.IH [of c] spin_seen [OF Some] by auto
  qed
qed simp

theorem spinner_rounds_witness:
  "\<exists>c. spin_rounds [(1, [(0, Some 3), (500000, None), (1000000, Some 4)]), (0, [(10, Some 9)])] 7 = Some c
    \<and> (c = 7 \<or> c = 3 \<or> c = 4 \<or> c = 9)"
proof -
  let ?rounds = "[(1, [(0, Some 3), (500000, None), (1000000, Some 4)]), (0, [(10, Some 9)])]
    :: (u32 \<times> (nat \<times> u32 option) list) list"
  have "spin_rounds ?rounds 7 \<noteq> None" using spinner_rounds [of ?rounds 7] by (simp add: millis_def)
  then show ?thesis using spinner_rounds [of ?rounds 7] by auto
qed

text \<open>
  A task of \<open>spread_out\<close> only starts on the first core: when the kernel lets it migrate, it spins
  with the affinity it had before, so the scheduler is free to move it; when the kernel
  refuses, it ends with an error and has not spun at all.
\<close>

theorem spread_task_is_not_pinned:
  assumes "core_ok c"
  shows "(get_error env = None \<and> (\<forall>m. set_error env m = None) \<and> (\<forall>m. restore_error env m = None) \<longrightarrow>
      spread_task env c rounds (m, cell) =
        map_option (\<lambda>cell'. (Inr (Inr ()), (m, cell'))) (spin_rounds rounds cell))
    \<and> (get_error env \<noteq> None \<or> (\<forall>m. set_error env m \<noteq> None) \<longrightarrow>
      (\<exists>e. spread_task env c rounds (m, cell) = Some (Inr (Inl e), (m, cell))))"
proof (intro conjI impI)
  assume "get_error env = None \<and> (\<forall>m. set_error env m = None) \<and> (\<forall>m. restore_error env m = None)"
  then have "CPUSet_migrate env (Core_mask c) (m, cell) = (Inr (Inr ()), (m, cell))"
    using core_set.migrate_keeps_state [OF assms, of env "(m, cell)"] by simp
  then show "spread_task env c rounds (m, cell) =
      map_option (\<lambda>cell'. (Inr (Inr ()), (m, cell'))) (spin_rounds rounds cell)"
    by (simp add: spread_task_def)
next
  assume "get_error env \<noteq> None \<or> (\<forall>m. set_error env m \<noteq> None)"
  from core_set.run_refused [OF assms this, of id "(m, cell)"]
  show "\<exists>e. spread_task env c rounds (m, cell) = Some (Inr (Inl e), (m, cell))"
    by (auto simp: spread_task_def CPUSet_migrate_def)
qed

theorem spread_task_is_not_pinned_witness:
  "spread_task \<lparr>get_error = None, set_error = (\<lambda>_. None), restore_error = (\<lambda>_. None)\<rparr>
     \<lparr>core_id = 0, hyperthreads = [\<lparr>ht_id = 2\<rparr>]\<rparr> [(1, [(0, Some 2), (1000000, None)])] ([7], 0)
   = Some (Inr (Inr ()), ([7], 2))"
proof -
  have "core_ok \<lparr>core_id = 0, hyperthreads = [\<lparr>ht_id = 2\<rparr>]\<rparr>"
    by (simp add: core_ok_def ht_ok_def mask_capacity_def mask_words_def)
  from spread_task_is_not_pinned [OF this] show ?thesis by (simp add: millis_def)
qed



end
