(* ===== verification/Wakes.thy ===== *)
theory Wakes
  imports Workloads
begin

text \<open>
  The wake types of the ping-pong benchmark (\<open>cases/basic.rs\<close>) on a loaded topology: which CPUs
  each of them leaves to the two processes, and what its constraint says about them.
\<close>

section \<open>The CPUs of a topology, in order\<close>

definition core_hts :: "core \<Rightarrow> int list" where
  "core_hts c = map ht_id (hyperthreads c)"

definition complex_hts :: "core_complex \<Rightarrow> int list" where
  "complex_hts x = concat (map core_hts (cores x))"

definition node_hts :: "numa_node \<Rightarrow> int list" where
  "node_hts n = concat (map complex_hts (complexes n))"

lemma level_cpus:
  "core_cpus c = nat ` set (core_hts c)" "complex_cpus x = nat ` set (complex_hts x)"
  "node_cpus n = nat ` set (node_hts n)" "system_cpus s = nat ` set (concat (map node_hts (nodes s)))"
  by (simp_all add: core_cpus_def ht_cpus_def core_hts_def complex_cpus_def complex_hts_def node_cpus_def
      node_hts_def system_cpus_def image_UN image_image UNION_singleton_eq_range)

text \<open>The first of several disjoint parts is not the whole.\<close>

lemma first_part_strict:
  assumes "distinct (concat (map f xs))" and "\<forall>x\<in>set xs. f x \<noteq> []" and "xs \<noteq> []"
  shows "set (f (hd xs)) \<subset> set (concat (map f xs)) \<longleftrightarrow> 1 < length xs"
proof -
  obtain x ys where xs: "xs = x # ys" using assms(3) by (cases xs) simp_all
  show ?thesis
  proof (cases ys)
    case (Cons y zs)
    then obtain i where "i \<in> set (f y)" using assms(2) xs by (cases "f y") auto
    moreover have "i \<notin> set (f x)" using assms(1) xs Cons calculation by auto
    ultimately show ?thesis using xs Cons by auto
  qed (simp add: xs)
qed

lemma nat_strict:
  assumes "\<forall>i\<in>A \<union> B. 0 \<le> (i :: int)"
  shows "nat ` A \<subset> nat ` B \<longleftrightarrow> A \<subset> B"
proof -
  have inj: "inj_on nat (A \<union> B)" using assms by (intro inj_onI) (metis eq_nat_nat_iff)
  have "nat ` (A \<union> B) = nat ` B \<longleftrightarrow> A \<union> B = B" "nat ` A = nat ` B \<longleftrightarrow> A = B"
    by (rule inj_on_image_eq_iff [OF inj]; blast)+
  then have "nat ` A \<subseteq> nat ` B \<longleftrightarrow> A \<subseteq> B" "nat ` A = nat ` B \<longleftrightarrow> A = B"
    unfolding image_Un by blast+
  then show ?thesis by blast
qed

section \<open>A loaded topology has no empty part\<close>

lemma build_nodes_nonempty:
  assumes "topo_ok t" and "n \<in> set (build_nodes t)"
  shows "complexes n \<noteq> []" and "x \<in> set (complexes n) \<Longrightarrow> cores x \<noteq> []"
    and "x \<in> set (complexes n) \<Longrightarrow> c \<in> set (cores x) \<Longrightarrow> hyperthreads c \<noteq> []"
proof -
  obtain xs where n: "(node_id n, xs) \<in> set t"
    "complexes n = map (\<lambda>(xid, cs). CoreComplex_new xid
         (map (\<lambda>(cid, cpus). Core_new cid (map Hyperthread_new cpus)) cs)) xs"
    using assms(2) by (auto simp: build_nodes_def Node_new_def)
  have xs: "xs \<noteq> []" "\<forall>x\<in>set xs. snd x \<noteq> []"
    using assms(1) n(1) by (force simp: topo_ok_def bt_ok_def)+
  show "complexes n \<noteq> []" using xs n by simp
  show "cores x \<noteq> []" if "x \<in> set (complexes n)"
    using that xs n by (auto simp: CoreComplex_new_def)
  show "hyperthreads c \<noteq> []" if "x \<in> set (complexes n)" "c \<in> set (cores x)"
    using build_nodes_shape(2) [OF assms that] .
qed

lemma loaded_nonempty:
  assumes "System_load num sysfs = Inr s" and "n \<in> set (nodes s)"
  shows "complexes n \<noteq> []" and "x \<in> set (complexes n) \<Longrightarrow> complex_hts x \<noteq> []" and "node_hts n \<noteq> []"
proof -
  obtain t where t: "s = System_new (build_nodes t)" "topo_ok t" using System_load_map [OF assms(1)] by blast
  have n: "n \<in> set (build_nodes t)" using assms(2) by (simp add: t(1))
  note ne = build_nodes_nonempty [OF t(2) n]
  show xs: "complexes n \<noteq> []" using ne by blast
  show x: "complex_hts x \<noteq> []" if x: "x \<in> set (complexes n)" for x
  proof -
    obtain c where "c \<in> set (cores x)" using ne(2) [OF x] by (cases "cores x") auto
    moreover from this have "hyperthreads c \<noteq> []" using ne(3) [OF x] by blast
    ultimately show ?thesis by (auto simp: complex_hts_def core_hts_def)
  qed
  show "node_hts n \<noteq> []" using xs x by (cases "complexes n") (auto simp: node_hts_def)
qed

text \<open>The flat list of cores has the CPUs of the nodes, in some order.\<close>

lemma all_cores_set:
  assumes "System_load num sysfs = Inr s"
  shows "set (all_cores s) = (\<Union>n\<in>set (nodes s). \<Union>x\<in>set (complexes n). set (cores x))"
proof -
  obtain t where "s = System_new (build_nodes t)" using System_load_map [OF assms] by blast
  then show ?thesis by (simp add: all_cores_eq Node_cores_eq)
qed

lemma mset_concat_map: "mset (concat (map f xs)) = \<Sum>\<^sub># (image_mset (mset \<circ> f) (mset xs))"
  by (induction xs) simp_all

lemma flat_cores:
  assumes "System_load num sysfs = Inr s"
  shows "mset (concat (map core_hts (all_cores s))) = mset (concat (map node_hts (nodes s)))"
proof -
  obtain t where t: "s = System_new (build_nodes t)" using System_load_map [OF assms] by blast
  let ?cs = "concat (map Node_cores (nodes s))"
  have "mset (all_cores s) = mset ?cs" using t by (simp add: all_cores_eq)
  then have "mset (concat (map core_hts (all_cores s))) = mset (concat (map core_hts ?cs))"
    by (simp only: mset_concat_map)
  also have "concat (map core_hts ?cs) = concat (map node_hts (nodes s))"
  proof -
    have "concat (map core_hts (Node_cores n)) = node_hts n" for n
    proof -
      have "concat (map core_hts (concat (map cores xs))) = concat (map complex_hts xs)" for xs
        by (induction xs) (simp_all add: complex_hts_def)
      then show ?thesis by (simp add: Node_cores_eq node_hts_def)
    qed
    then have "concat (map core_hts (concat (map Node_cores ns))) = concat (map node_hts ns)" for ns
      by (induction ns) simp_all
    then show ?thesis .
  qed
  finally show ?thesis .
qed

section \<open>The masks of a loaded topology\<close>

definition some_cpu :: "int \<times> string \<Rightarrow> (int \<Rightarrow> cpu_dir option) \<Rightarrow> bool" where
  "some_cpu num sysfs \<longleftrightarrow> (\<exists>cpu\<in>{0 ..< fst num}. sysfs cpu \<noteq> None)"

lemma loaded_cpus:
  assumes "System_load num sysfs = Inr s" and "fst num \<le> int mask_capacity"
  shows "distinct (concat (map core_hts (all_cores s)))"
    and "distinct (concat (map node_hts (nodes s)))"
    and "set (concat (map node_hts (nodes s))) = {cpu \<in> {0 ..< fst num}. sysfs cpu \<noteq> None}"
    and "set (concat (map core_hts (all_cores s))) = {cpu \<in> {0 ..< fst num}. sysfs cpu \<noteq> None}"
    and "system_ok s"
proof -
  have "fst num \<le> 2 ^ 31" using assms(2) by (simp add: mask_capacity_def mask_words_def)
  note hs = loaded_hyperthreads [OF assms(1) this]
  have eq: "map ht_id (concat (map hyperthreads (all_cores s))) = concat (map core_hts (all_cores s))"
    by (simp add: map_concat comp_def core_hts_def [abs_def])
  note flat = flat_cores [OF assms(1)]
  show flat_distinct: "distinct (concat (map core_hts (all_cores s)))" using hs(1) unfolding eq .
  then show "distinct (concat (map node_hts (nodes s)))" using flat mset_eq_imp_distinct_iff by blast
  show ids: "set (concat (map core_hts (all_cores s))) = {cpu \<in> {0 ..< fst num}. sysfs cpu \<noteq> None}"
    using hs(2) unfolding eq .
  then show all: "set (concat (map node_hts (nodes s))) = {cpu \<in> {0 ..< fst num}. sysfs cpu \<noteq> None}"
    using mset_eq_setD [OF flat] by simp
  have "ht_ok h" if h: "n \<in> set (nodes s)" "x \<in> set (complexes n)" "c \<in> set (cores x)" "h \<in> set (hyperthreads c)"
    for n x c h
  proof -
    have "ht_id h \<in> set (concat (map node_hts (nodes s)))"
      using h by (auto simp: node_hts_def complex_hts_def core_hts_def)
    then have "ht_id h \<in> {cpu \<in> {0 ..< fst num}. sysfs cpu \<noteq> None}" unfolding all .
    then show ?thesis using assms(2) by (simp add: ht_ok_def)
  qed
  then show "system_ok s" by (auto simp: system_ok_def node_ok_def complex_ok_def core_ok_def)
qed

text \<open>The parts that the wake types name are there.\<close>

lemma loaded_first:
  assumes "System_load num sysfs = Inr s" and "fst num \<le> int mask_capacity" and "some_cpu num sysfs"
  obtains c h n x where "all_cores s \<noteq> []" "c = hd (all_cores s)" "hyperthreads c \<noteq> []" "h = hd (hyperthreads c)"
    "nodes s \<noteq> []" "n = hd (nodes s)" "complexes n \<noteq> []" "x = hd (complexes n)"
    "core_ok c" "ht_ok h" "complex_ok x" "node_ok n"
proof -
  note cpus = loaded_cpus [OF assms(1,2)]
  have some: "{cpu \<in> {0 ..< fst num}. sysfs cpu \<noteq> None} \<noteq> {}" using assms(3) by (auto simp: some_cpu_def)
  then have cs: "all_cores s \<noteq> []" and ns: "nodes s \<noteq> []" using cpus(3,4) by auto
  note all = all_cores_set [OF assms(1)]
  have n: "hd (nodes s) \<in> set (nodes s)" using ns by simp
  have x: "complexes (hd (nodes s)) \<noteq> []" by (rule loaded_nonempty(1) [OF assms(1) n])
  have "hd (all_cores s) \<in> set (all_cores s)" using cs by simp
  then obtain m y where y: "m \<in> set (nodes s)" "y \<in> set (complexes m)" "hd (all_cores s) \<in> set (cores y)"
    using all by blast
  have h: "hyperthreads (hd (all_cores s)) \<noteq> []" by (rule load_shape(1) [OF assms(1) y])
  have c: "core_ok (hd (all_cores s))" using cpus(5) y by (auto simp: system_ok_def node_ok_def complex_ok_def)
  then have "ht_ok (hd (hyperthreads (hd (all_cores s))))" using h by (simp add: core_ok_def)
  moreover have "node_ok (hd (nodes s))" using cpus(5) n by (simp add: system_ok_def)
  moreover from this have "complex_ok (hd (complexes (hd (nodes s))))" using x by (simp add: node_ok_def)
  ultimately show ?thesis using that [OF cs refl h refl ns refl x refl c] by blast
qed

text \<open>The CPUs of a wake type, as the masks have them.\<close>

definition wake_cpus :: "system \<Rightarrow> wake_type \<Rightarrow> nat set" where
  "wake_cpus s w = (case w of
     SameHyperthread \<Rightarrow> ht_cpus (hd (hyperthreads (hd (all_cores s))))
   | SameCore \<Rightarrow> core_cpus (hd (all_cores s))
   | SameComplex \<Rightarrow> complex_cpus (hd (complexes (hd (nodes s))))
   | SameNode \<Rightarrow> node_cpus (hd (nodes s))
   | Unpinned \<Rightarrow> system_cpus s)"

lemma first_of_hd: "xs \<noteq> [] \<Longrightarrow> first_of xs = Inr (hd xs)"
  by (cases xs) (simp_all add: first_of_def)

lemma loaded_wake_mask:
  assumes "System_load num sysfs = Inr s" and "fst num \<le> int mask_capacity" and "some_cpu num sysfs"
  shows "masks_exactly (ping_pong_mask s w) (wake_cpus s w)"
proof -
  from assms obtain c h n x where p: "all_cores s \<noteq> []" "c = hd (all_cores s)" "hyperthreads c \<noteq> []"
    "h = hd (hyperthreads c)" "nodes s \<noteq> []" "n = hd (nodes s)" "complexes n \<noteq> []" "x = hd (complexes n)"
    and ok: "core_ok c" "ht_ok h" "complex_ok x" "node_ok n" by (rule loaded_first)
  note exact = hyperthread_set.mask_exact [OF ok(2)] core_set.mask_exact [OF ok(1)]
    complex_set.mask_exact [OF ok(3)] node_set.mask_exact [OF ok(4)]
    system_set.mask_exact [OF loaded_cpus(5) [OF assms(1,2)]]
  show ?thesis
    using exact p by (cases w) (simp_all add: ping_pong_mask_def wake_cpus_def first_of_hd CPUMask_new_def)
qed

lemma concat_complexes: "concat (map complex_hts (concat (map complexes ns))) = concat (map node_hts ns)"
  by (induction ns) (simp_all add: node_hts_def)

lemma complexes_length: "System_complexes s = length (concat (map complexes (nodes s)))"
  by (simp add: System_complexes_def length_concat comp_def)

text \<open>What the constraints count, against the CPUs that are left.\<close>

lemma loaded_strict:
  assumes "System_load num sysfs = Inr s" and "fst num \<le> int mask_capacity" and "some_cpu num sysfs"
  shows "wake_cpus s SameHyperthread \<subset> wake_cpus s SameCore \<longleftrightarrow> 1 < length (hyperthreads (hd (all_cores s)))"
    and "wake_cpus s SameCore \<subset> wake_cpus s Unpinned \<longleftrightarrow> 1 < length (all_cores s)"
    and "wake_cpus s SameComplex \<subset> wake_cpus s Unpinned \<longleftrightarrow> 1 < System_complexes s"
    and "wake_cpus s SameNode \<subset> wake_cpus s Unpinned \<longleftrightarrow> 1 < length (nodes s)"
proof -
  from assms obtain c h n x where p: "all_cores s \<noteq> []" "c = hd (all_cores s)" "hyperthreads c \<noteq> []"
    "h = hd (hyperthreads c)" "nodes s \<noteq> []" "n = hd (nodes s)" "complexes n \<noteq> []" "x = hd (complexes n)"
    by (rule loaded_first)
  note cpus = loaded_cpus [OF assms(1,2)]
  let ?all = "{cpu \<in> {0 ..< fst num}. sysfs cpu \<noteq> None}"
  let ?xs = "concat (map complexes (nodes s))"
  have system: "wake_cpus s Unpinned = nat ` ?all" by (simp only: wake_cpus_def wake_type.case level_cpus cpus(3))
  have nonneg: "nat ` A \<subset> nat ` ?all \<longleftrightarrow> A \<subset> ?all" if "A \<subseteq> ?all" for A
    using that by (intro nat_strict) auto
  have core: "set (core_hts c) \<subseteq> ?all" using cpus(4) p(1,2) by (cases "all_cores s") auto
  have hx: "concat (map complex_hts ?xs) = concat (map node_hts (nodes s))"
    by (rule concat_complexes)
  have xs: "?xs \<noteq> []" "hd ?xs = x" using p(5-8) by (cases "nodes s"; simp)+
  have "set (complex_hts x) \<subseteq> set (concat (map complex_hts ?xs))" using xs by (cases ?xs) auto
  then have complex: "set (complex_hts x) \<subseteq> ?all" unfolding hx cpus(3) .
  have node: "set (node_hts n) \<subseteq> ?all" using cpus(3) p(5,6) by (cases "nodes s") auto
  have "distinct (core_hts c)" using cpus(1) p(1,2) by (cases "all_cores s") auto
  then have "distinct (concat (map (\<lambda>h. [ht_id h]) (hyperthreads c)))" by (simp add: core_hts_def)
  from first_part_strict [OF this] p(3,4)
  have "{ht_id h} \<subset> set (core_hts c) \<longleftrightarrow> 1 < length (hyperthreads c)" by (simp add: core_hts_def)
  moreover have "nat ` {ht_id h} \<subset> nat ` set (core_hts c) \<longleftrightarrow> {ht_id h} \<subset> set (core_hts c)"
    using core p(3,4) by (intro nat_strict) (auto simp: core_hts_def)
  ultimately show "wake_cpus s SameHyperthread \<subset> wake_cpus s SameCore \<longleftrightarrow> 1 < length (hyperthreads (hd (all_cores s)))"
    using p(2,4) by (simp add: wake_cpus_def level_cpus ht_cpus_def)
  have "\<forall>c\<in>set (all_cores s). core_hts c \<noteq> []"
  proof
    fix c assume "c \<in> set (all_cores s)"
    then obtain m y where "m \<in> set (nodes s)" "y \<in> set (complexes m)" "c \<in> set (cores y)"
      using all_cores_set [OF assms(1)] by blast
    from load_shape(1) [OF assms(1) this] show "core_hts c \<noteq> []" by (simp add: core_hts_def)
  qed
  from first_part_strict [OF cpus(1) this p(1)]
  show "wake_cpus s SameCore \<subset> wake_cpus s Unpinned \<longleftrightarrow> 1 < length (all_cores s)"
    using nonneg [OF core] p(2) unfolding system cpus(4) by (simp add: wake_cpus_def level_cpus)
  have "\<forall>x\<in>set ?xs. complex_hts x \<noteq> []" using loaded_nonempty(2) [OF assms(1)] by auto
  from first_part_strict [OF _ this xs(1)]
  show "wake_cpus s SameComplex \<subset> wake_cpus s Unpinned \<longleftrightarrow> 1 < System_complexes s"
    using cpus(2) nonneg [OF complex] p(6,8) unfolding system hx cpus(3) xs(2) complexes_length
    by (simp add: wake_cpus_def level_cpus)
  have "\<forall>n\<in>set (nodes s). node_hts n \<noteq> []" using loaded_nonempty(3) [OF assms(1)] by auto
  from first_part_strict [OF cpus(2) this p(5)]
  show "wake_cpus s SameNode \<subset> wake_cpus s Unpinned \<longleftrightarrow> 1 < length (nodes s)"
    using nonneg [OF node] p(6) unfolding system cpus(3) by (simp add: wake_cpus_def level_cpus)
qed

lemma loaded_checks:
  assumes "System_load num sysfs = Inr s" and "fst num \<le> int mask_capacity" and "some_cpu num sysfs"
  shows "check_wake_type s w = Inr (Inr ()) \<longleftrightarrow> w = Unpinned
    \<or> wake_cpus s w \<subset> wake_cpus s (if w = SameHyperthread then SameCore else Unpinned)"
proof -
  from assms have "all_cores s \<noteq> []" by (rule loaded_first) blast
  then show ?thesis
    using loaded_strict [OF assms] by (cases w) (simp_all add: check_wake_type_def first_of_hd need_def)
qed

section \<open>Properties\<close>

text \<open>
  C22. The wake types of the ping-pong benchmark on a loaded machine with a CPU and no more CPUs
  than the mask holds. No mask and no constraint panics. One hyperthread is part of its core
  and a complex of its node, and all are part of the unpinned mask, which is every existing
  CPU. The constraints say exactly when a wake type differs from a wider one: that of
  \<open>SameHyperthread\<close> when its mask is smaller than that of \<open>SameCore\<close>, the others' when their mask
  is smaller than the unpinned one; \<open>Unpinned\<close> is never left out.
\<close>

theorem wake_types_narrow:
  assumes "System_load num sysfs = Inr s" and "fst num \<le> int mask_capacity" and "some_cpu num sysfs"
  shows "\<exists>m. (\<forall>w. ping_pong_mask s w = Inr (m w) \<and> (\<exists>r. check_wake_type s w = Inr r)
      \<and> mask_cpus (m w) \<subseteq> mask_cpus (m Unpinned))
    \<and> mask_cpus (m SameHyperthread) \<subseteq> mask_cpus (m SameCore)
    \<and> mask_cpus (m SameComplex) \<subseteq> mask_cpus (m SameNode)
    \<and> mask_cpus (m Unpinned) = nat ` {cpu \<in> {0 ..< fst num}. sysfs cpu \<noteq> None}
    \<and> (check_wake_type s SameHyperthread = Inr (Inr ())
        \<longleftrightarrow> mask_cpus (m SameHyperthread) \<subset> mask_cpus (m SameCore))
    \<and> (\<forall>w\<in>{SameCore, SameComplex, SameNode}. check_wake_type s w = Inr (Inr ())
        \<longleftrightarrow> mask_cpus (m w) \<subset> mask_cpus (m Unpinned))
    \<and> check_wake_type s Unpinned = Inr (Inr ())"
proof -
  from loaded_wake_mask [OF assms] obtain m where
    m: "ping_pong_mask s w = Inr (m w)" "mask_cpus (m w) = wake_cpus s w" for w
    unfolding masks_exactly_def by metis
  from assms obtain c h n x where p: "all_cores s \<noteq> []" "c = hd (all_cores s)" "hyperthreads c \<noteq> []"
    "h = hd (hyperthreads c)" "nodes s \<noteq> []" "n = hd (nodes s)" "complexes n \<noteq> []" "x = hd (complexes n)"
    by (rule loaded_first)
  have sub: "wake_cpus s SameHyperthread \<subseteq> wake_cpus s SameCore" "wake_cpus s SameComplex \<subseteq> wake_cpus s SameNode"
    using p by (auto simp: wake_cpus_def core_cpus_def node_cpus_def intro: bexI [OF _ hd_in_set])
  have node: "wake_cpus s SameNode \<subseteq> wake_cpus s Unpinned" using p by (auto simp: wake_cpus_def system_cpus_def intro: bexI [OF _ hd_in_set])
  have core: "wake_cpus s SameCore \<subseteq> wake_cpus s Unpinned"
  proof -
    have "c \<in> set (all_cores s)" using p by simp
    then show ?thesis using p
      by (auto simp: all_cores_set [OF assms(1)] wake_cpus_def system_cpus_def node_cpus_def complex_cpus_def)
  qed
  have "wake_cpus s w \<subseteq> wake_cpus s Unpinned" for w using sub node core by (cases w) auto
  moreover have "\<exists>r. check_wake_type s w = Inr r" for w
    using p by (cases w) (simp_all add: check_wake_type_def first_of_hd)
  moreover have "wake_cpus s Unpinned = nat ` {cpu \<in> {0 ..< fst num}. sysfs cpu \<noteq> None}"
    by (simp only: wake_cpus_def wake_type.case level_cpus loaded_cpus(3) [OF assms(1,2)])
  moreover note loaded_checks [OF assms]
  ultimately show ?thesis using m sub by (intro exI [of _ m]) auto
qed

theorem wake_types_narrow_witness:
  "\<exists>s m. System_load (2, []) (\<lambda>cpu. Some \<lparr>package_file = None, core_file = None, die_file = None,
      cache_dir = None\<rparr>) = Inr s
    \<and> ping_pong_mask s SameCore = Inr m \<and> mask_cpus m \<subset> {0, 1} \<and> check_wake_type s SameNode \<noteq> Inr (Inr ())"
proof -
  let ?d = "\<lparr>package_file = None, core_file = None, die_file = None, cache_dir = None\<rparr>"
  have range: "[0 .. 1] = [0, 1 :: int]" by (simp add: upto.simps)
  let ?s = "System_new (build_nodes (add_cpu (0, 0, 1) 1 (add_cpu (0, 0, 0) 0 [])))"
  have run: "System_load (2, []) (\<lambda>_. Some ?d) = Inr ?s"
    by (simp add: System_load_def range cpu_ids_def as_i32_def)
  have "fst (2 :: int, [] :: string) \<le> int mask_capacity" by (simp add: mask_capacity_def mask_words_def)
  moreover have "some_cpu (2, []) (\<lambda>_. Some ?d)" by (auto simp: some_cpu_def)
  ultimately obtain m where m: "\<forall>w. ping_pong_mask ?s w = Inr (m w) \<and> (\<exists>r. check_wake_type ?s w = Inr r)
        \<and> mask_cpus (m w) \<subseteq> mask_cpus (m Unpinned)"
      "mask_cpus (m Unpinned) = nat ` {cpu \<in> {0 ..< fst (2 :: int, [] :: string)}. Some ?d \<noteq> None}"
      "\<forall>w\<in>{SameCore, SameComplex, SameNode}. check_wake_type ?s w = Inr (Inr ())
        \<longleftrightarrow> mask_cpus (m w) \<subset> mask_cpus (m Unpinned)"
    using wake_types_narrow [OF run] by meson
  have "{cpu \<in> {0 ..< fst (2 :: int, [] :: string)}. Some ?d \<noteq> None} = {0, 1}" by auto
  then have all: "mask_cpus (m Unpinned) = {0, 1}" using m(2) by simp
  have ns: "build_nodes (add_cpu (0, 0, 1) 1 (add_cpu (0, 0, 0) 0 []))
      = [Node_new 0 [CoreComplex_new 0 [Core_new 0 [Hyperthread_new 0], Core_new 1 [Hyperthread_new 1]]]]"
    by (simp add: build_nodes_def add_cpu_def)
  have "length (all_cores ?s) = 2" "length (nodes ?s) = 1"
    by (simp_all add: ns all_cores_eq Node_cores_eq Node_new_def CoreComplex_new_def)
  then have "check_wake_type ?s SameCore = Inr (Inr ())" "check_wake_type ?s SameNode \<noteq> Inr (Inr ())"
    by (simp_all add: check_wake_type_def need_def)
  then show ?thesis using run m(1,3) all by (intro exI [of _ ?s] exI [of _ "m SameCore"]) auto
qed

end
