(* ===== verification/Suite.thy ===== *)
theory Suite
  imports Main_Program Wakes
begin

text \<open>
  The cases as the program runs them: what a measurement of wake-up latencies collects from the
  semaphores (\<open>cases/basic.rs\<close>, \<open>cases/latency.rs\<close>), and the registry of all cases with its trials
  (\<open>cases/*.rs\<close>, \<open>main.rs\<close>).
\<close>

section \<open>Collecting wake-up latencies\<close>

text \<open>The samples of a semaphore are nanoseconds; a distribution takes durations.\<close>

definition as_durations :: "u64 reservoir \<Rightarrow> nat reservoir" where
  "as_durations r = \<lparr>samples = map (map_option unat) (samples r), rcount = rcount r\<rparr>"

text \<open>\<open>collect_wake_stats\<close> into a distribution; \<open>None\<close> is the read of a slot never written.\<close>

definition collect_wake :: "'d digest_ops \<Rightarrow> sem \<Rightarrow> 'd \<Rightarrow> ('d \<times> sem) option" where
  "collect_wake D s d =
     map_option (\<lambda>d'. (d', snd (collect_wake_stats s)))
       (Distribution_add_all D duration_value (as_durations (sreservoir s)) d)"

text \<open>The ping-pong benchmark: both semaphores in one distribution.\<close>

definition ping_pong_result :: "'d digest_ops \<Rightarrow> sem \<times> sem \<Rightarrow> ('d bench_result result \<times> sem \<times> sem) option" where
  "ping_pong_result D sems =
     (case collect_wake D (fst sems) (Distribution_new D) of
        None \<Rightarrow> None
      | Some (d, s1) \<Rightarrow>
          (case collect_wake D (snd sems) d of
             None \<Rightarrow> None
           | Some (d', s2) \<Rightarrow> Some (Inr (Latency d'), s1, s2)))"

text \<open>The CPU that \<open>adaptive_priority\<close> pins everything to.\<close>

definition adaptive_mask :: "system \<Rightarrow> mask outcome" where
  "adaptive_mask s =
     bind_sum (first_of (all_cores s)) (\<lambda>c.
     bind_sum (first_of (hyperthreads c)) (\<lambda>h. CPUMask_new Hyperthread_mask h))"

text \<open>
  Its metric, once all processes are through: the wake-up latencies of the fast and of the slow
  semaphore, each in its own distribution; both are drawn, and the ratio of their p90 is
  the result.
\<close>

definition adaptive_metric ::
    "'d digest_ops \<Rightarrow> (nat \<Rightarrow> string) \<Rightarrow> nat option \<Rightarrow> unit result \<Rightarrow> sem \<times> sem
     \<Rightarrow> (f64 result \<times> sem \<times> sem) outcome option" where
  "adaptive_metric D debug terminal waited sems =
     (case waited of
        Inl e \<Rightarrow> Some (Inr (Inl e, sems))
      | Inr _ \<Rightarrow>
          (case collect_wake D (fst sems) (Distribution_new D) of
             None \<Rightarrow> None
           | Some (d_fast, fast) \<Rightarrow>
          (case collect_wake D (snd sems) (Distribution_new D) of
             None \<Rightarrow> None
           | Some (d_slow, slow) \<Rightarrow>
               let fast_est = Distribution_estimates D duration_value d_fast;
                   slow_est = Distribution_estimates D duration_value d_slow;
                   p90 = (\<lambda>est. map_option as_secs_f64
                     (Estimates_percentile duration_value est (rnd (9 / 10)))) in
               Some (bind_sum (visualize duration_value debug None terminal fast_est) (\<lambda>_.
                 bind_sum (visualize duration_value debug None terminal slow_est) (\<lambda>_.
                   Inr (latency_ratio (p90 fast_est) (p90 slow_est), fast, slow)))))))"

section \<open>The slots that are read are written\<close>

definition filled :: "'a reservoir \<Rightarrow> bool" where
  "filled r \<longleftrightarrow> None \<notin> set (reservoir_read r)"

lemma filled_new: "filled (ReservoirSampler_new N)" and filled_reset: "filled (reservoir_reset r)"
  by (simp_all add: filled_def reservoir_read_take ReservoirSampler_new_def reservoir_reset_def)

lemma filled_sample:
  assumes "filled r"
  shows "filled (sample k x r)"
proof (cases "samples r = []")
  case False
  let ?i = "unat (rcount r)" and ?N = "length (samples r)"
  have read: "None \<notin> set (take ?i (samples r))" using assms by (simp add: filled_def reservoir_read_take)
  show ?thesis
  proof (cases "?i < ?N")
    case True
    have "unat (rcount r + 1) = Suc ?i mod 2 ^ 64" by (simp add: unat_word_ariths)
    then have "unat (rcount r + 1) \<le> Suc ?i" using mod_less_eq_dividend by metis
    then have "set (take (unat (rcount r + 1)) ((samples r)[?i := Some x])) \<subseteq> set (take (Suc ?i) ((samples r)[?i := Some x]))"
      by (rule set_take_subset_set_take)
    also have "\<dots> = insert (Some x) (set (take ?i (samples r)))"
      using True by (simp add: take_update_below)
    finally show ?thesis using read True False
      by (auto simp: filled_def reservoir_read_take sample_def Let_def)
  next
    case big: False
    then have "None \<notin> set (samples r)" using read by simp
    then have "None \<notin> set ((samples r)[k := Some x])" using set_update_subset_insert by fastforce
    then show ?thesis using big False
      by (auto simp: filled_def reservoir_read_take sample_def Let_def dest: in_set_takeD)
  qed
qed (simp add: assms sample_def)

text \<open>No access of a semaphore call touches the reservoir but the sample after a wake-up.\<close>

lemma act_reservoir:
  assumes "sem_act oc a st = Some st'"
  shows "sreservoir (ssem st') = sreservoir (ssem st)
    \<or> (\<exists>k e. sreservoir (ssem st') = sample k e (sreservoir (ssem st)))"
proof -
  have act: "sem_act1 oc a st = Some st'" using assms by (simp add: sem_act_def split: if_splits)
  show ?thesis
  proof (cases a)
    case (Run t)
    then show ?thesis using act
      by (auto simp: run_step_def loop_step_def commit_def set_count_def set_spc_def
          split: spc.splits decision.splits sem_op.splits if_splits)
  next
    case (TakeSample t now k)
    then obtain c i where "st' = sample_step oc t now k c i st" using act by (auto split: spc.splits)
    then show ?thesis
      by (auto simp: sample_step_def set_spc_def split: sum.splits option.splits)
  qed (use act in \<open>auto simp: set_spc_def split: spc.splits decision.splits if_splits\<close>)
qed

lemma reach_filled:
  "sem_reach oc P st0 st \<Longrightarrow> filled (sreservoir (ssem st0)) \<Longrightarrow> filled (sreservoir (ssem st))"
proof (induction rule: sem_reach.induct)
  case (step st a st')
  then show ?case using act_reservoir [OF step.hyps(3)] filled_sample by auto
qed

lemma those_filled: "None \<notin> set xs \<Longrightarrow> \<exists>ys. those xs = Some ys"
proof (induction xs)
  case (Cons x xs)
  then show ?case by (cases x) auto
qed simp

text \<open>A collection from filled slots goes through, and leaves a reservoir with nothing to read.\<close>

lemma collect_filled:
  assumes "filled (sreservoir s)"
  shows "\<exists>d' s'. collect_wake D s d = Some (d', s') \<and> reservoir_read (sreservoir s') = []
    \<and> filled (sreservoir s')"
proof -
  have "reservoir_read (as_durations (sreservoir s)) = map (map_option unat) (reservoir_read (sreservoir s))"
    by (simp add: reservoir_read_take as_durations_def take_map)
  then have "None \<notin> set (reservoir_read (as_durations (sreservoir s)))"
    using assms by (auto simp: filled_def)
  then obtain vs where "those (reservoir_read (as_durations (sreservoir s))) = Some vs"
    using those_filled by blast
  then have "\<exists>d'. Distribution_add_all D duration_value (as_durations (sreservoir s)) d = Some d'"
    by (simp add: Distribution_add_all_def)
  then show ?thesis
    by (auto simp: collect_wake_def collect_wake_stats_def filled_reset)
      (simp add: reservoir_read_take reservoir_reset_def)
qed

section \<open>The registry\<close>

definition error_text :: "error \<Rightarrow> string" where
  "error_text e = (case e of Anyhow m \<Rightarrow> m | OsError n \<Rightarrow> ''os error '' @ show_nat n)"

text \<open>A constraint that loads the topology.\<close>

definition load_constraint :: "system result \<Rightarrow> (system \<Rightarrow> unit result outcome) \<Rightarrow> text_result outcome" where
  "load_constraint loaded check =
     (case loaded of
        Inl e \<Rightarrow> Inr (Inl (error_text e))
      | Inr s \<Rightarrow> bind_sum (check s) (\<lambda>r. Inr (map_sum error_text id r)))"

definition wake_types :: "wake_type list" where
  "wake_types = [SameHyperthread, SameCore, SameComplex, SameNode, Unpinned]"

text \<open>
  The tests and benchmarks the files register. \<open>run\<close> gives what a case does by its name;
  \<open>together\<close> and \<open>allow\<close> are the outcomes of the constraints.
\<close>

definition test_items :: "(string \<Rightarrow> text_result) \<Rightarrow> text_result \<Rightarrow> text_result registered list" where
  "test_items run together =
     expand_plain ''self_test'' (Inr ()) None
     @ expand_plain ''fairness'' (run ''fairness'') None
     @ expand_plain ''adaptive_priority'' (run ''adaptive_priority'') None
     @ expand_plain ''spread_out'' (run ''spread_out'') None
     @ expand_plain ''come_together'' (run ''come_together'') (Some together)"

definition bench_items ::
    "(string \<Rightarrow> bench_args \<Rightarrow> text_result) \<Rightarrow> (wake_type \<Rightarrow> text_result)
     \<Rightarrow> (bench_args \<Rightarrow> text_result) registered list" where
  "bench_items run allow =
     expand_plain ''self_bench'' (run ''self_bench'') None
     @ expand_params ''ping_pong'' (\<lambda>w. run (''ping_pong/'' @ show_wake_type w)) allow show_wake_type wake_types"

lemma bench_item_cases:
  assumes "r \<in> set (bench_items call allow)"
  obtains (self) "r = \<lparr>reg_name = ''self_bench'', reg_fn = call ''self_bench'', reg_constraints = Inr ()\<rparr>"
    | (wakes) w where "r = \<lparr>reg_name = ''ping_pong/'' @ show_wake_type w,
        reg_fn = call (''ping_pong/'' @ show_wake_type w), reg_constraints = allow w\<rparr>"
  using assms
  by (auto simp: bench_items_def expand_plain_def expand_params_def)

lemma test_item_ignored:
  assumes "r \<in> set (test_items run together)"
  shows "isl (reg_constraints r) \<longleftrightarrow> reg_name r = ''come_together'' \<and> isl together"
  using assms by (auto simp: test_items_def expand_plain_def)

lemma wake_names: "inj show_wake_type"
proof (rule injI)
  fix v w assume "show_wake_type v = show_wake_type w"
  then show "v = w" by (cases v; cases w) simp_all
qed

lemma check_loaded:
  assumes "load_constraint (Inr s) check = Inr c"
  shows "c = Inr () \<longleftrightarrow> check s = Inr (Inr ())"
proof -
  obtain r where r: "check s = Inr r" "c = map_sum error_text id r"
    using assms by (auto simp: load_constraint_def bind_sum_Inr_iff)
  then show ?thesis by (cases r) simp_all
qed

lemma together_loaded:
  assumes "System_load num sysfs = Inr s" and "fst num \<le> int mask_capacity" and "some_cpu num sysfs"
  shows "needs_numa_or_complexes s = Inr (Inr ()) \<longleftrightarrow> 1 < System_complexes s"
proof -
  from assms have ns: "nodes s \<noteq> []" by (rule loaded_first) blast
  obtain n ms where n: "nodes s = n # ms" using ns by (cases "nodes s") auto
  have full: "complexes m \<noteq> []" if "m \<in> set (nodes s)" for m using loaded_nonempty(1) [OF assms(1) that] .
  show ?thesis
  proof (cases ms)
    case Nil
    then show ?thesis using n by (auto simp: needs_numa_or_complexes_def vec_index_def need_def System_complexes_def)
  next
    case (Cons m ks)
    then have "0 < length (complexes n)" "0 < length (complexes m)" using full n by auto
    then have "1 < length (complexes n) + length (complexes m)" by linarith
    then have "1 < System_complexes s" using n Cons by (simp add: System_complexes_def)
    then show ?thesis using n Cons by (simp add: needs_numa_or_complexes_def)
  qed
qed

lemma loaded_complexes:
  assumes "System_load num sysfs = Inr s" and "fst num \<le> int mask_capacity" and "some_cpu num sysfs"
  shows "1 \<le> System_complexes s"
proof -
  from assms have "nodes s \<noteq> []" by (rule loaded_first) blast
  then obtain n where "n \<in> set (nodes s)" by (cases "nodes s") auto
  then show ?thesis
    using loaded_nonempty(1) [OF assms(1)] by (auto simp: complexes_length Suc_le_eq)
qed

section \<open>Properties\<close>



text \<open>
  C24. The suite on a loaded machine, whatever the order in which the registry lists its items. As
  tests there are five trials and as benchmarks six, with different names, run one at a time
  under the filter of the command line. No trial is ignored but \<open>come_together\<close>, exactly on a
  machine with a single complex, and the wake types of \<open>ping_pong\<close> that leave the processes the
  same CPUs as a wider one does. A benchmark gets its own name and the given parameters.
\<close>

theorem suite_trials:
  assumes "System_load num sysfs = Inr s" and "fst num \<le> int mask_capacity" and "some_cpu num sysfs"
    and "load_constraint (Inr s) needs_numa_or_complexes = Inr together"
    and "\<And>w. load_constraint (Inr s) (\<lambda>s. check_wake_type s w) = Inr (allow w)"
    and "mset tests = mset (test_items run together)" and "mset benches = mset (bench_items call allow)"
    and "run_tests args benches tests = (lt, trials)"
  shows "length trials = (if arg_benchmarks args then 6 else 5) \<and> distinct (map trial_name trials)
    \<and> test_threads lt = Some 1 \<and> lt_filter lt = arg_filter args \<and> lt_list lt = arg_list args
    \<and> (if arg_benchmarks args
       then \<forall>t\<in>set trials.
          trial_fn t = call (trial_name t) \<lparr>bench_name = trial_name t, sample_size = arg_sample_size args,
            significance_level = arg_significance_level args, bench_percentile = arg_percentile args\<rparr>
          \<and> (trial_ignored t \<longleftrightarrow> (\<exists>w. trial_name t = ''ping_pong/'' @ show_wake_type w \<and> w \<noteq> Unpinned
              \<and> \<not> wake_cpus s w \<subset> wake_cpus s (if w = SameHyperthread then SameCore else Unpinned)))
       else \<forall>t\<in>set trials. trial_ignored t \<longleftrightarrow> trial_name t = ''come_together'' \<and> System_complexes s = 1)"
proof -
  have lt: "lt = libtest_arguments args"
    and trials: "arg_benchmarks args \<Longrightarrow> trials = map (\<lambda>t. make_trial (reg_name t) (reg_fn t
        \<lparr>bench_name = reg_name t, sample_size = arg_sample_size args,
         significance_level = arg_significance_level args, bench_percentile = arg_percentile args\<rparr>)
        (reg_constraints t)) benches"
      "\<not> arg_benchmarks args \<Longrightarrow> trials = map (\<lambda>t. make_trial (reg_name t) (reg_fn t) (reg_constraints t)) tests"
    using assms(8) by (auto simp: run_tests_def make_trials_eq)
  have told: "test_threads lt = Some 1" "lt_filter lt = arg_filter args" "lt_list lt = arg_list args"
    by (simp_all add: lt libtest_arguments_def)
  have sets: "set tests = set (test_items run together)" "set benches = set (bench_items call allow)"
    using assms(6,7) mset_eq_setD by blast+
  have names: "map trial_name trials = (if arg_benchmarks args then map reg_name benches else map reg_name tests)"
    using trials by (simp add: make_trial_def comp_def)
  have mtests: "mset (map reg_name tests) = mset (map reg_name (test_items run together))"
    and mbenches: "mset (map reg_name benches) = mset (map reg_name (bench_items call allow))"
    using assms(6,7) by simp_all
  have "distinct (map reg_name (test_items run together)) \<and> length (map reg_name (test_items run together)) = 5"
    "distinct (map reg_name (bench_items call allow)) \<and> length (map reg_name (bench_items call allow)) = 6"
    by (simp_all add: test_items_def bench_items_def expand_plain_def expand_params_def wake_types_def)
  then have "distinct (map reg_name tests) \<and> length (map reg_name tests) = 5"
    "distinct (map reg_name benches) \<and> length (map reg_name benches) = 6"
    using mset_eq_imp_distinct_iff [OF mtests] mset_eq_length [OF mtests]
      mset_eq_imp_distinct_iff [OF mbenches] mset_eq_length [OF mbenches] by simp_all
  then have shape: "distinct (map trial_name trials)" "length trials = (if arg_benchmarks args then 6 else 5)"
    using names length_map [of trial_name trials] by (auto split: if_splits)
  show ?thesis
  proof (cases "arg_benchmarks args")
    case True
    have ignored: "isl (allow w) \<longleftrightarrow> w \<noteq> Unpinned
        \<and> \<not> wake_cpus s w \<subset> wake_cpus s (if w = SameHyperthread then SameCore else Unpinned)" for w
    proof -
      have "isl (allow w) \<longleftrightarrow> allow w \<noteq> Inr ()" by (cases "allow w") simp_all
      then show ?thesis using check_loaded [OF assms(5)] loaded_checks [OF assms(1-3)] by metis
    qed
    have "trial_fn t = call (trial_name t) \<lparr>bench_name = trial_name t, sample_size = arg_sample_size args,
            significance_level = arg_significance_level args, bench_percentile = arg_percentile args\<rparr>
        \<and> (trial_ignored t \<longleftrightarrow> (\<exists>w. trial_name t = ''ping_pong/'' @ show_wake_type w \<and> w \<noteq> Unpinned
              \<and> \<not> wake_cpus s w \<subset> wake_cpus s (if w = SameHyperthread then SameCore else Unpinned)))"
      if mem: "t \<in> set trials" for t
    proof -
      obtain r where r: "r \<in> set (bench_items call allow)"
        and t: "t = make_trial (reg_name r) (reg_fn r \<lparr>bench_name = reg_name r, sample_size = arg_sample_size args,
         significance_level = arg_significance_level args, bench_percentile = arg_percentile args\<rparr>) (reg_constraints r)"
        using mem sets(2) trials(1) [OF True] by auto
      from r show ?thesis
      proof (cases rule: bench_item_cases)
        case self
        then show ?thesis by (simp add: t make_trial_def)
      next
        case (wakes w)
        then show ?thesis using ignored [of w] inj_eq [OF wake_names] by (simp add: t make_trial_def)
      qed
    qed
    note all = ballI [OF this]
    show ?thesis unfolding if_P [OF True]
      by (intro conjI told shape [unfolded if_P [OF True]]) (rule all)
  next
    case False
    have one: "isl together \<longleftrightarrow> System_complexes s = 1"
      using check_loaded [OF assms(4)] together_loaded [OF assms(1-3)] loaded_complexes [OF assms(1-3)]
      by (cases together) auto
    have "trial_ignored t \<longleftrightarrow> trial_name t = ''come_together'' \<and> System_complexes s = 1"
      if mem: "t \<in> set trials" for t
    proof -
      obtain r where r: "r \<in> set (test_items run together)"
        and t: "t = make_trial (reg_name r) (reg_fn r) (reg_constraints r)"
        using mem sets(1) trials(2) [OF False] by auto
      show ?thesis using test_item_ignored [OF r] one by (simp add: t make_trial_def)
    qed
    note all = ballI [OF this]
    show ?thesis unfolding if_not_P [OF False]
      by (intro conjI told shape [unfolded if_not_P [OF False]]) (rule all)
  qed
qed

text \<open>Two CPUs, each a core of its own, in one complex.\<close>

definition two_cores :: system where
  "two_cores = System_new [Node_new 0 [CoreComplex_new 0 [Core_new 0 [Hyperthread_new 0], Core_new 1 [Hyperthread_new 1]]]]"

lemma two_cores_load:
  "System_load (2, []) (\<lambda>_. Some \<lparr>package_file = None, core_file = None, die_file = None, cache_dir = None\<rparr>)
    = Inr two_cores"
proof -
  have range: "[0 .. 1] = [0, 1 :: int]" by (simp add: upto.simps)
  show ?thesis
    by (simp add: System_load_def range cpu_ids_def as_i32_def two_cores_def build_nodes_def add_cpu_def)
qed

theorem suite_trials_witness:
  "\<exists>trials :: trial list. length trials = 5
    \<and> (\<forall>t\<in>set trials. trial_ignored t \<longleftrightarrow> trial_name t = ''come_together'')"
proof -
  let ?fs = "\<lambda>_ :: int. Some \<lparr>package_file = None, core_file = None, die_file = None, cache_dir = None\<rparr>"
  let ?together = "Inl ''test requires multiple nodes or complexes''"
  let ?allow = "\<lambda>w. projr (load_constraint (Inr two_cores) (\<lambda>s. check_wake_type s w))"
  let ?args = "demo_args\<lparr>arg_benchmarks := False\<rparr>"
  have shape: "all_cores two_cores = [Core_new 0 [Hyperthread_new 0], Core_new 1 [Hyperthread_new 1]]"
    "nodes two_cores = [Node_new 0 [CoreComplex_new 0 [Core_new 0 [Hyperthread_new 0], Core_new 1 [Hyperthread_new 1]]]]"
    by (simp_all add: two_cores_def all_cores_eq Node_cores_eq Node_new_def CoreComplex_new_def Core_new_def)
  have one: "System_complexes two_cores = 1" by (simp add: System_complexes_def shape Node_new_def)
  have cap: "fst (2 :: int, [] :: string) \<le> int mask_capacity" by (simp add: mask_capacity_def mask_words_def)
  have some: "some_cpu (2, []) ?fs" by (auto simp: some_cpu_def)
  have together: "load_constraint (Inr two_cores) needs_numa_or_complexes = Inr ?together"
    by (simp add: load_constraint_def needs_numa_or_complexes_def shape vec_index_def need_def error_text_def Node_new_def)
  have allow: "load_constraint (Inr two_cores) (\<lambda>s. check_wake_type s w) = Inr (?allow w)" for w
    by (cases w) (simp_all add: load_constraint_def check_wake_type_def first_of_def shape)
  obtain lt trials where run: "run_tests ?args (bench_items (\<lambda>_ _. Inr ()) ?allow) (test_items (\<lambda>_. Inr ()) ?together)
      = (lt, trials)" by fastforce
  have "length trials = 5"
    "\<forall>t\<in>set trials. trial_ignored t \<longleftrightarrow> trial_name t = ''come_together'' \<and> System_complexes two_cores = 1"
    using suite_trials [OF two_cores_load cap some together allow refl refl run] by (simp_all add: demo_args_def)
  then show ?thesis using one by (intro exI [of _ trials]) simp
qed

end
