(* ===== verification/Effects.thy ===== *)
theory Effects
  imports Bench
begin

text \<open>
  Computations with state, and the convergence loop on a closure. The code passes \<open>converge\<close> and
  \<open>measure\<close> an \<open>FnMut\<close>: a measurement changes the context and the shared memory, it may
  panic, and it may never return. \<open>Bench\<close> has the loop on measurements that are known;
  here it runs a computation, and the two are shown to agree.
\<close>

section \<open>Computations\<close>

text \<open>\<open>None\<close> is not returning; a panic loses the state.\<close>

type_synonym ('s, 'a) comp = "'s \<Rightarrow> ('a \<times> 's) outcome option"

definition give :: "'a \<Rightarrow> ('s, 'a) comp" where
  "give x s = Some (Inr (x, s))"

definition bind_comp :: "('s, 'a) comp \<Rightarrow> ('a \<Rightarrow> ('s, 'b) comp) \<Rightarrow> ('s, 'b) comp" where
  "bind_comp m f s =
     (case m s of
        None \<Rightarrow> None
      | Some (Inl p) \<Rightarrow> Some (Inl p)
      | Some (Inr (x, s')) \<Rightarrow> f x s')"

text \<open>The operator \<open>?\<close>: an error ends the function with that error.\<close>

definition try_comp :: "('s, 'a result) comp \<Rightarrow> ('a \<Rightarrow> ('s, 'b result) comp) \<Rightarrow> ('s, 'b result) comp" where
  "try_comp m f = bind_comp m (\<lambda>r. case r of Inl e \<Rightarrow> give (Inl e) | Inr x \<Rightarrow> f x)"

text \<open>A computation without state that may panic, and one that may not return.\<close>

definition of_outcome :: "'a outcome \<Rightarrow> ('s, 'a) comp" where
  "of_outcome r s = Some (bind_sum r (\<lambda>x. Inr (x, s)))"

definition of_option :: "'a option \<Rightarrow> ('s, 'a) comp" where
  "of_option r s = (case r of None \<Rightarrow> None | Some x \<Rightarrow> Some (Inr (x, s)))"

text \<open>One state inside another: what the body sees is got from the state and put back.\<close>

definition update_comp :: "('s \<Rightarrow> 's) \<Rightarrow> ('s, unit) comp" where
  "update_comp f s = Some (Inr ((), f s))"

definition read_comp :: "('s \<Rightarrow> 'a) \<Rightarrow> ('s, 'a) comp" where
  "read_comp f s = Some (Inr (f s, s))"

text \<open>A loop over a list: every element is run, in order; the first error ends the loop.\<close>

fun each_comp :: "('a \<Rightarrow> ('s, 'b result) comp) \<Rightarrow> 'a list \<Rightarrow> ('s, 'b list result) comp" where
  "each_comp f [] = give (Inr [])"
| "each_comp f (x # xs) = try_comp (f x) (\<lambda>y. try_comp (each_comp f xs) (\<lambda>ys. give (Inr (y # ys))))"

named_theorems comp_simps \<open>how a computation returns\<close>

lemma bind_comp_give [simp]: "bind_comp (give x) f = f x"
  by (simp add: fun_eq_iff bind_comp_def give_def)

lemma bind_comp_assoc: "bind_comp (bind_comp m f) g = bind_comp m (\<lambda>x. bind_comp (f x) g)"
  by (auto simp: fun_eq_iff bind_comp_def split: option.split sum.split)

lemma try_comp_give [simp]:
  "try_comp (give (Inr x)) f = f x" "try_comp (give (Inl e)) f = give (Inl e)"
  by (simp_all add: try_comp_def)

lemma give_returns [comp_simps]: "give x s = Some (Inr (y, s')) \<longleftrightarrow> y = x \<and> s' = s"
  by (auto simp: give_def)

lemma bind_returns [comp_simps]:
  "bind_comp m f s = Some (Inr (y, s')) \<longleftrightarrow> (\<exists>x s1. m s = Some (Inr (x, s1)) \<and> f x s1 = Some (Inr (y, s')))"
  by (auto simp: bind_comp_def split: option.split sum.split)

lemma try_returns [comp_simps]:
  "try_comp m f s = Some (Inr (Inr y, s'))
    \<longleftrightarrow> (\<exists>x s1. m s = Some (Inr (Inr x, s1)) \<and> f x s1 = Some (Inr (Inr y, s')))"
  by (auto simp: try_comp_def bind_returns give_returns split: sum.splits) (metis sum.exhaust)

lemma try_fails [comp_simps]:
  "try_comp m f s = Some (Inr (Inl e, s'))
    \<longleftrightarrow> m s = Some (Inr (Inl e, s')) \<or> (\<exists>x s1. m s = Some (Inr (Inr x, s1)) \<and> f x s1 = Some (Inr (Inl e, s')))"
  by (auto simp: try_comp_def bind_returns give_returns split: sum.splits) (metis sum.exhaust)

lemma of_outcome_returns [comp_simps]:
  "of_outcome r s = Some (Inr (y, s')) \<longleftrightarrow> r = Inr y \<and> s' = s"
  by (cases r) (auto simp: of_outcome_def)

lemma of_option_returns [comp_simps]:
  "of_option r s = Some (Inr (y, s')) \<longleftrightarrow> r = Some y \<and> s' = s"
  by (cases r) (auto simp: of_option_def)

lemma update_returns [comp_simps]: "update_comp f s = Some (Inr (u, s')) \<longleftrightarrow> s' = f s"
  by (auto simp: update_comp_def)

lemma read_returns [comp_simps]: "read_comp f s = Some (Inr (y, s')) \<longleftrightarrow> y = f s \<and> s' = s"
  by (auto simp: read_comp_def)

section \<open>The loop on a closure\<close>

text \<open>A measurement: its metric or error, and the nanoseconds it took.\<close>

type_synonym 's closure = "u32 \<Rightarrow> ('s, f64 result \<times> nat) comp"

partial_function (option) converge_from ::
    "bool \<Rightarrow> nat \<Rightarrow> nat \<Rightarrow> f64 \<Rightarrow> 's closure \<Rightarrow> u32 \<Rightarrow> 's \<Rightarrow> (f64 result \<times> 's) outcome option" where
  "converge_from oc mn mx th f iters s =
     (case f iters s of
        None \<Rightarrow> None
      | Some (Inl p) \<Rightarrow> Some (Inl p)
      | Some (Inr (r, s')) \<Rightarrow>
          (case converge_round oc mn mx th (\<lambda>_. r) iters of
             Inl p \<Rightarrow> Some (Inl p)
           | Inr (Return v) \<Rightarrow> Some (Inr (v, s'))
           | Inr GiveUp \<Rightarrow> Some (Inr (Inr (Fin 0), s'))
           | Inr (Again n) \<Rightarrow> converge_from oc mn mx th f n s'))"

definition converge_on ::
    "bool \<Rightarrow> nat option \<Rightarrow> nat option \<Rightarrow> f64 option \<Rightarrow> 's closure \<Rightarrow> ('s, f64 result) comp" where
  "converge_on oc mn mx th f =
     converge_from oc (or_default (10 ^ 9) mn) (or_default (10 * 10 ^ 9) mx)
       (or_default (rnd (95 / 100)) th) f 1"

text \<open>The macro \<open>converge!\<close>.\<close>

definition converge_macro_on :: "bool \<Rightarrow> nat \<Rightarrow> nat \<Rightarrow> f64 \<Rightarrow> 's closure \<Rightarrow> ('s, f64) comp" where
  "converge_macro_on oc mn mx th f =
     bind_comp (converge_on oc (Some mn) (Some mx) (Some th) f) (\<lambda>r.
       of_outcome (case r of
           Inl e \<Rightarrow> Inl (PanicMsg ''converge error'')
         | Inr metric \<Rightarrow> if f_le th metric then Inr metric else Inl AssertFailed))"

section \<open>The calls a run makes\<close>

fun call_all :: "('i \<Rightarrow> ('s, 'a) comp) \<Rightarrow> 'i list \<Rightarrow> ('s, 'a list) comp" where
  "call_all f [] = give []"
| "call_all f (i # is) = bind_comp (f i) (\<lambda>x. bind_comp (call_all f is) (\<lambda>xs. give (x # xs)))"

text \<open>The measurements of \<open>Bench\<close> with results that are known.\<close>

definition known :: "(f64 result \<times> nat) list \<Rightarrow> measurement list" where
  "known rs = map (\<lambda>r _. r) rs"

lemma known_simps [simp]: "known [] = []" "known (r # rs) = (\<lambda>_. r) # known rs"
  by (simp_all add: known_def)

lemma call_all_length: "call_all f is s = Some (Inr (xs, s')) \<Longrightarrow> length xs = length is"
  by (induction "is" arbitrary: s xs) (auto simp: comp_simps)

text \<open>Every call finds a state that the calls before it have kept good.\<close>

lemma call_all_inv:
  assumes "call_all f is s = Some (Inr (xs, s'))" and "I s" and "k < length is"
    and "\<And>i s x s'. I s \<Longrightarrow> f i s = Some (Inr (x, s')) \<Longrightarrow> I s'"
  shows "\<exists>s1 s2. I s1 \<and> f (is ! k) s1 = Some (Inr (xs ! k, s2))"
  using assms(1-3)
proof (induction "is" arbitrary: s xs k)
  case (Cons i "is")
  then obtain x s1 ys where x: "f i s = Some (Inr (x, s1))" "call_all f is s1 = Some (Inr (ys, s'))" "xs = x # ys"
    by (auto simp: comp_simps)
  show ?case
  proof (cases k)
    case 0
    then show ?thesis using x(1,3) Cons.prems(2) by (intro exI [of _ s] exI [of _ s1]) simp
  next
    case (Suc j)
    then show ?thesis using Cons.IH [OF x(2) assms(4) [OF Cons.prems(2) x(1)], of j] Cons.prems(3) x(3) by simp
  qed
qed simp

lemma call_all_nth:
  "call_all f is s = Some (Inr (xs, s')) \<Longrightarrow> k < length is \<Longrightarrow> \<exists>s1 s2. f (is ! k) s1 = Some (Inr (xs ! k, s2))"
  using call_all_inv [where I = "\<lambda>_. True" and k = k, of f "is" s xs s'] by simp

text \<open>
  A closure's run, taken apart: the calls, with the counts of \<open>Bench\<close>, and what its loop makes of
  their results.
\<close>

lemma converge_from_calls_aux:
  assumes ret: "converge_from oc mn mx th f i s = Some z"
  shows "\<forall>v s'. z = Inr (v, s') \<longrightarrow>
      (\<exists>rs. call_all f (counts oc mn mx th (known rs) i) s = Some (Inr (rs, s'))
        \<and> converge_loop oc mn mx th (known rs) i = Inr (Some v))"
proof (rule converge_from.raw_induct [where P = "\<lambda>oc mn mx th f i s z. \<forall>v s'. z = Inr (v, s') \<longrightarrow>
      (\<exists>rs. call_all f (counts oc mn mx th (known rs) i) s = Some (Inr (rs, s'))
        \<and> converge_loop oc mn mx th (known rs) i = Inr (Some v))", OF _ ret])
  fix C oc mn mx th f i s z
  assume IH: "\<And>oc mn mx th f i s z. C oc mn mx th f i s = Some z \<Longrightarrow> \<forall>v s'. z = Inr (v, s') \<longrightarrow>
      (\<exists>rs. call_all f (counts oc mn mx th (known rs) i) s = Some (Inr (rs, s'))
        \<and> converge_loop oc mn mx th (known rs) i = Inr (Some v))"
    and eq: "(case f i s of
      None \<Rightarrow> None
    | Some (Inl p) \<Rightarrow> Some (Inl p)
    | Some (Inr (r, s')) \<Rightarrow>
        (case converge_round oc mn mx th (\<lambda>_. r) i of
           Inl p \<Rightarrow> Some (Inl p)
         | Inr (Return v) \<Rightarrow> Some (Inr (v, s'))
         | Inr GiveUp \<Rightarrow> Some (Inr (Inr (Fin 0), s'))
         | Inr (Again n) \<Rightarrow> C oc mn mx th f n s')) = Some z"
  show "\<forall>v s'. z = Inr (v, s') \<longrightarrow>
      (\<exists>rs. call_all f (counts oc mn mx th (known rs) i) s = Some (Inr (rs, s'))
        \<and> converge_loop oc mn mx th (known rs) i = Inr (Some v))"
  proof (intro allI impI)
    fix v s' assume z: "z = Inr (v, s')"
    then obtain r s1 d where call: "f i s = Some (Inr (r, s1))"
      and d: "converge_round oc mn mx th (\<lambda>_. r) i = Inr d"
      using eq by (auto split: option.splits sum.splits)
    show "\<exists>rs. call_all f (counts oc mn mx th (known rs) i) s = Some (Inr (rs, s'))
        \<and> converge_loop oc mn mx th (known rs) i = Inr (Some v)"
    proof (cases d)
      case (Again n)
      then have "C oc mn mx th f n s1 = Some (Inr (v, s'))" using eq z call d by simp
      from IH [OF this] obtain rs where
        "call_all f (counts oc mn mx th (known rs) n) s1 = Some (Inr (rs, s'))"
        "converge_loop oc mn mx th (known rs) n = Inr (Some v)" by blast
      then show ?thesis using call d Again by (intro exI [of _ "r # rs"]) (simp add: comp_simps)
    qed (use eq z call d in \<open>auto simp: comp_simps intro!: exI [of _ "[r]"]\<close>)
  qed
qed

lemma converge_from_calls:
  assumes "converge_from oc mn mx th f i s = Some (Inr (v, s'))"
  shows "\<exists>rs. call_all f (counts oc mn mx th (known rs) i) s = Some (Inr (rs, s'))
    \<and> converge_loop oc mn mx th (known rs) i = Inr (Some v)"
  using converge_from_calls_aux [OF assms] by simp

lemma calls_converge_from:
  assumes "call_all f (counts oc mn mx th (known rs) i) s = Some (Inr (rs, s'))"
    and "converge_loop oc mn mx th (known rs) i = Inr (Some v)"
  shows "converge_from oc mn mx th f i s = Some (Inr (v, s'))"
  using assms
proof (induction rs arbitrary: i s)
  case (Cons r rs)
  obtain d where d: "converge_round oc mn mx th (\<lambda>_. r) i = Inr d"
    using Cons.prems(2) by (auto simp: bind_sum_Inr_iff)
  obtain s1 where call: "f i s = Some (Inr (r, s1))" using Cons.prems(1) by (auto simp: comp_simps)
  show ?case
  proof (cases d)
    case (Again n)
    then show ?thesis using Cons.IH [of n s1] Cons.prems d call
      by (subst converge_from.simps) (simp add: comp_simps)
  qed (use Cons.prems d call in \<open>auto simp: comp_simps converge_from.simps [of oc mn mx th f i s]\<close>)
qed simp

text \<open>The loop itself does not panic: only a call can.\<close>

lemma converge_from_panics:
  assumes ret: "converge_from oc mn mx th f i s = Some z"
  shows "\<forall>p. z = Inl p \<longrightarrow> 0 < i \<longrightarrow>
      (\<exists>is rs s1 j. call_all f is s = Some (Inr (rs, s1)) \<and> f j s1 = Some (Inl p))"
proof (rule converge_from.raw_induct [where P = "\<lambda>oc mn mx th f i s z. \<forall>p. z = Inl p \<longrightarrow> 0 < i \<longrightarrow>
      (\<exists>is rs s1 j. call_all f is s = Some (Inr (rs, s1)) \<and> f j s1 = Some (Inl p))", OF _ ret])
  fix C oc mn mx th f i s z
  assume IH: "\<And>oc mn mx th f i s z. C oc mn mx th f i s = Some z \<Longrightarrow> \<forall>p. z = Inl p \<longrightarrow> 0 < i \<longrightarrow>
      (\<exists>is rs s1 j. call_all f is s = Some (Inr (rs, s1)) \<and> f j s1 = Some (Inl p))"
    and eq: "(case f i s of
      None \<Rightarrow> None
    | Some (Inl p) \<Rightarrow> Some (Inl p)
    | Some (Inr (r, s')) \<Rightarrow>
        (case converge_round oc mn mx th (\<lambda>_. r) i of
           Inl p \<Rightarrow> Some (Inl p)
         | Inr (Return v) \<Rightarrow> Some (Inr (v, s'))
         | Inr GiveUp \<Rightarrow> Some (Inr (Inr (Fin 0), s'))
         | Inr (Again n) \<Rightarrow> C oc mn mx th f n s')) = Some z"
  show "\<forall>p. z = Inl p \<longrightarrow> 0 < i \<longrightarrow>
      (\<exists>is rs s1 j. call_all f is s = Some (Inr (rs, s1)) \<and> f j s1 = Some (Inl p))"
  proof (intro allI impI)
    fix p assume z: "z = Inl p" and i: "0 < i"
    show "\<exists>is rs s1 j. call_all f is s = Some (Inr (rs, s1)) \<and> f j s1 = Some (Inl p)"
    proof (cases "f i s = Some (Inl p)")
      case True
      then show ?thesis by (intro exI [of _ "[]"]) (auto simp: comp_simps)
    next
      case False
      then obtain r s1 where call: "f i s = Some (Inr (r, s1))"
        using eq z by (auto split: option.splits sum.splits)
      obtain d where d: "converge_round oc mn mx th (\<lambda>_. r) i = Inr d" "\<forall>n. d = Again n \<longrightarrow> i \<le> n"
        using converge_round_again [OF i, of oc mn mx th "\<lambda>_. r"] by blast
      then obtain n where n: "d = Again n" "C oc mn mx th f n s1 = Some (Inl p)"
        using eq z call by (auto split: round.splits)
      then have "0 < n" using d(2) i by (auto intro: order_less_le_trans)
      with IH [OF n(2)] obtain "is" rs s2 j where
        "call_all f is s1 = Some (Inr (rs, s2))" "f j s2 = Some (Inl p)" by blast
      then show ?thesis using call by (intro exI [of _ "i # is"]) (auto simp: comp_simps)
    qed
  qed
qed

text \<open>Nor does it run for ever when every call returns and time follows the count.\<close>

lemma converge_from_ends:
  assumes "0 < c" and "mx < c * (2 ^ 31 - 1)"
    and step: "\<And>i s. I s \<Longrightarrow> f i s \<noteq> None"
      "\<And>i s v el s'. I s \<Longrightarrow> f i s = Some (Inr ((Inr v, el), s')) \<Longrightarrow> I s' \<and> c * unat i \<le> el \<and> el \<noteq> mx"
    and "I s" and "0 < i"
  shows "converge_from oc mn mx th f i s \<noteq> None"
  using assms(5,6)
proof (induction "mx div c + 1 - unat i" arbitrary: i s rule: less_induct)
  case less
  obtain z where z: "f i s = Some z" using step(1) [OF less.prems(1)] by blast
  show ?case
  proof (cases z)
    case (Inl p)
    then show ?thesis using z by (subst converge_from.simps) simp
  next
    case (Inr x)
    obtain r el s1 where x: "x = ((r, el), s1)" by (cases x) (metis prod.collapse)
    obtain d where d: "converge_round oc mn mx th (\<lambda>_. (r, el)) i = Inr d"
      using converge_round_again [OF less.prems(2)] by blast
    show ?thesis
    proof (cases d)
      case (Again n)
      then obtain v where v: "r = Inr v" using d by (cases r) (auto simp: converge_round_def)
      have call: "I s1" "c * unat i \<le> snd (r, el)" "snd (r, el) \<noteq> mx"
        using step(2) [OF less.prems(1), of i v el s1] z Inr x v by simp_all
      note more = again_grows [OF assms(1,2) d [unfolded Again] less.prems(2) call(2,3)]
      then have "mx div c + 1 - unat n < mx div c + 1 - unat i" by linarith
      from less.hyps [OF this call(1)] more show ?thesis
        using z Inr x d Again by (subst converge_from.simps) simp
    qed (use z Inr x d in \<open>auto simp: converge_from.simps [of oc mn mx th f i s]\<close>)
  qed
qed

section \<open>When a computation returns\<close>

lemma bind_some: "m s \<noteq> None \<Longrightarrow> (\<And>x s1. m s = Some (Inr (x, s1)) \<Longrightarrow> f x s1 \<noteq> None) \<Longrightarrow> bind_comp m f s \<noteq> None"
  by (auto simp: bind_comp_def split: option.split sum.split)

lemma try_some:
  "m s \<noteq> None \<Longrightarrow> (\<And>x s1. m s = Some (Inr (Inr x, s1)) \<Longrightarrow> f x s1 \<noteq> None) \<Longrightarrow> try_comp m f s \<noteq> None"
  unfolding try_comp_def by (rule bind_some) (auto simp: give_def split: sum.split)

lemma returning [simp]: "give x s \<noteq> None" "of_outcome r s \<noteq> None" "update_comp g s \<noteq> None" "read_comp h s \<noteq> None"
  by (simp_all add: give_def of_outcome_def update_comp_def read_comp_def)

lemma each_some:
  assumes "\<And>x s. I s \<Longrightarrow> f x s \<noteq> None" and "\<And>x s y s'. I s \<Longrightarrow> f x s = Some (Inr (Inr y, s')) \<Longrightarrow> I s'" and "I s"
  shows "each_comp f xs s \<noteq> None"
  using assms(3)
proof (induction xs arbitrary: s)
  case (Cons x xs)
  show ?case
    unfolding each_comp.simps
    by (intro try_some) (use assms(1,2) Cons in auto)
qed simp

lemma f_le_NaN [simp]: "\<not> f_le x NaN"
  by (cases x) simp_all

text \<open>A run of the loop that gives a value has had a metric in every round.\<close>

lemma converge_loop_metrics:
  assumes "converge_loop oc mn mx th (known rs) i = Inr (Some (Inr v))"
    and "length (counts oc mn mx th (known rs) i) = length rs"
  shows "\<forall>r\<in>set rs. \<exists>x. fst r = Inr x"
  using assms
proof (induction rs arbitrary: i)
  case (Cons r rs)
  obtain d where d: "converge_round oc mn mx th (\<lambda>_. r) i = Inr d"
    using Cons.prems(1) by (auto simp: bind_sum_Inr_iff)
  obtain x el where r: "r = (Inr x, el)"
    using d Cons.prems(1) by (cases r rule: prod.exhaust; cases "fst r") (auto simp: converge_round_def)
  show ?case
  proof (cases d)
    case (Again n)
    then show ?thesis using Cons d r by simp
  qed (use Cons.prems(2) d r in auto)
qed simp

text \<open>What it takes for the macro \<open>converge!\<close> to return, on a closure.\<close>

lemma converge_macro_on_value:
  assumes "converge_macro_on oc mn mx target f w = Some (Inr (v, w'))" and "\<not> f_le target (Fin 0)"
  obtains cs rs where "call_all f cs w = Some (Inr (rs, w'))" and "cs \<noteq> []" and "length rs = length cs"
    and "hd cs = 1" and "\<forall>k. Suc k < length cs \<longrightarrow> unat (cs ! Suc k) \<le> 100 * unat (cs ! k)"
    and "\<forall>r\<in>set rs. \<exists>x. fst r = Inr x" and "fst (last rs) = Inr v" and "f_le target v" and "mn \<le> snd (last rs)"
proof -
  obtain r where r: "converge_from oc mn mx target f 1 w = Some (Inr (r, w'))"
    and out: "(case r of Inl e \<Rightarrow> Inl (PanicMsg ''converge error'')
      | Inr metric \<Rightarrow> if f_le target metric then Inr metric else Inl AssertFailed) = Inr v"
    using assms(1) unfolding converge_macro_on_def converge_on_def or_default_def comp_simps by auto
  then have rv: "r = Inr v" and le: "f_le target v" by (cases r; auto split: if_splits)+
  obtain rs where calls: "call_all f (counts oc mn mx target (known rs) 1) w = Some (Inr (rs, w'))"
    and loop: "converge_loop oc mn mx target (known rs) 1 = Inr (Some (Inr v))"
    using converge_from_calls [OF r [unfolded rv]] by blast
  let ?cs = "counts oc mn mx target (known rs) 1"
  have len: "length rs = length ?cs" using call_all_length [OF calls] .
  have ne: "?cs \<noteq> []" and dec: "decided_by mn mx target (Inr v) (known rs ! (length ?cs - 1)) (last ?cs)"
    using converge_loop_decided [of 1 oc mn mx target "known rs"] loop by (auto simp: Let_def)
  have last: "known rs ! (length ?cs - 1) = (\<lambda>_. last rs)"
  proof -
    have "rs \<noteq> []" using ne len by auto
    then have "known rs ! (length rs - 1) = (\<lambda>_. last rs)" by (simp add: known_def last_conv_nth)
    then show ?thesis using len by simp
  qed
  have v: "v \<noteq> Fin 0" using le assms(2) by auto
  then have "fst (last rs) = Inr v" "mn \<le> snd (last rs)"
    using dec unfolding last by (auto simp: decided_by_def split: prod.split_asm sum.split_asm)
  moreover have "unat (?cs ! Suc k) \<le> 100 * unat (?cs ! k)" if "Suc k < length ?cs" for k
    using counts_step [OF _ that] by simp
  moreover have "\<forall>r\<in>set rs. \<exists>x. fst r = Inr x" using converge_loop_metrics [OF loop] len by simp
  ultimately show thesis using that [OF calls ne len] counts_head [OF ne] le by blast
qed

section \<open>Properties\<close>



text \<open>
  The loop on a closure ends, with a value or a panic of a call, when every call returns or
  panics, whatever state it finds (as long as the calls keep an invariant of it), and every
  call that gives a metric takes at least \<open>c\<close> nanoseconds an iteration, and never exactly
  the maximum.
\<close>

theorem converge_on_ends:
  assumes "0 < c" and "mx < c * (2 ^ 31 - 1)" and "I s"
    and "\<And>i s. I s \<Longrightarrow> f i s \<noteq> None"
    and "\<And>i s v el s'. I s \<Longrightarrow> f i s = Some (Inr ((Inr v, el), s')) \<Longrightarrow> I s' \<and> c * unat i \<le> el \<and> el \<noteq> mx"
  shows "converge_on oc (Some mn) (Some mx) (Some th) f s \<noteq> None"
  using converge_from_ends [where i = 1 and I = I and f = f, OF assms(1,2,4,5,3)] by (simp add: converge_on_def or_default_def)

theorem converge_on_ends_witness:
  "converge_on True (Some 5) (Some 11) (Some (Fin 1)) (\<lambda>i n. Some (Inr ((Inr (Fin 0), 2 * unat i), Suc n))) (0 :: nat) \<noteq> None"
proof -
  have "2 * unat (i :: u32) \<noteq> 11" for i by presburger
  then show ?thesis
    by (intro converge_on_ends [where c = 2 and I = "\<lambda>_. True"]) auto
qed

end
