(* ===== verification/World.thy ===== *)
theory World
  imports Workloads Effects Objects
begin

text \<open>
  What a test case works on: its context and the shared memory, and what the rest of the machine
  answers to it. Here are the operations of \<open>workloads/context.rs\<close> and \<open>workloads/process.rs\<close> as
  computations on that state, with the children's side of a round played out on the same
  memory: a child takes its token and its count, does its work, and gives the ready token.
\<close>

section \<open>State\<close>

text \<open>The layouts the compiler gives to the shared types.\<close>

record layouts =
  l_flag :: layout
  l_sem :: layout
  l_u32 :: layout
  l_bench_sem :: layout

text \<open>
  What the machine answers to one creation: the cgroup, the fork, and the rounds of the wait
  until the child is ready. Creations are numbered by the processes there are already.
\<close>

record creation =
  made_cgroup :: "string result"
  made_child :: "string + child"
  made_wait :: "(bool \<times> bool) list"

text \<open>
  What it answers in one measurement: which processes end before they get through, what
  \<open>alive\<close> says of a process that is waited for in vain, which CPU each spinner was last seen on at
  each look, the statistics of a process before and after, the latencies the children have
  sampled on the semaphores of the case, what the clock and the CPU number read while the parent
  itself spins, and the time it takes for a count.
\<close>

record answers_to =
  dies :: "nat \<Rightarrow> bool"
  alive_says :: "nat \<Rightarrow> bool list"
  seen_on :: "nat \<Rightarrow> nat \<Rightarrow> u32"
  stats_before :: "int \<Rightarrow> sched_stats result"
  stats_after :: "int \<Rightarrow> sched_stats result"
  sampled :: "nat \<Rightarrow> u64 reservoir"
  clock_reads :: "(nat \<times> u32 option) list"
  took :: "u32 \<Rightarrow> nat"

record world =
  wctx :: ctx
  wheap :: "shared_value heap"
  wmade :: "nat \<Rightarrow> creation"
  wround :: "nat \<Rightarrow> answers_to"
  wturn :: nat

section \<open>Setting up\<close>

text \<open>\<open>Context::allocate\<close>.\<close>

definition allocate_on :: "bool \<Rightarrow> layout \<Rightarrow> shared_value \<Rightarrow> (world, usize result) comp" where
  "allocate_on oc l v w =
     Some (bind_sum (Context_allocate oc l v (callocator (wctx w), wheap w)) (\<lambda>(r, b, h).
       Inr (r, w\<lparr>wctx := (wctx w)\<lparr>callocator := b\<rparr>, wheap := h\<rparr>)))"

text \<open>
  The macro \<open>process!\<close>: \<open>Process::create\<close>, whose last step waits for the child, and
  \<open>Context::add\<close>, which gives the handle.
\<close>

definition process_on :: "bool \<Rightarrow> layouts \<Rightarrow> (world, int result) comp" where
  "process_on oc L w =
     (let a = wmade w (length (cprocesses (wctx w))) in
      case Process_create oc (made_cgroup a) (l_sem L) (l_u32 L) (Semaphore_new 1 [] 0)
          (made_child a) (Inr ()) (callocator (wctx w), wheap w) of
        Inl p \<Rightarrow> Some (Inl p)
      | Inr (Inl e, b, h) \<Rightarrow> give (Inl e) (w\<lparr>wctx := (wctx w)\<lparr>callocator := b\<rparr>, wheap := h\<rparr>)
      | Inr (Inr p, b, h) \<Rightarrow>
          (case Process_wait (made_wait a) of
             None \<Rightarrow> None
           | Some (Inl e) \<Rightarrow> give (Inl e) (w\<lparr>wctx := (wctx w)\<lparr>callocator := b\<rparr>, wheap := h\<rparr>)
           | Some (Inr _) \<Rightarrow>
               (case Context_add p ((wctx w)\<lparr>callocator := b\<rparr>) of (handle, c) \<Rightarrow>
                  give (Inr handle) (w\<lparr>wctx := c, wheap := h\<rparr>))))"

section \<open>One round\<close>

text \<open>A call of a semaphore in shared memory, when it goes through at once.\<close>

definition call_at :: "bool \<Rightarrow> call \<Rightarrow> usize \<Rightarrow> shared_value heap \<Rightarrow> shared_value heap option" where
  "call_at oc c a h =
     (case h a of
        Some (SemV s) \<Rightarrow>
          (case decide oc (smax s) c (count s) of
             Exchange new _ \<Rightarrow> Some (h(a \<mapsto> SemV (s\<lparr>count := new\<rparr>)))
           | _ \<Rightarrow> None)
      | _ \<Rightarrow> None)"

lemma Process_start_call:
  "Process_start oc iters p h = call_at oc (one_call Produce) (pstart p) (h(piters p \<mapsto> ItersV iters))"
  by (simp add: Process_start_def call_at_def Let_def)

text \<open>
  The child's round: \<open>get_iters\<close> takes the start token and the count; then the work, which may
  block; and the next \<open>get_iters\<close> gives the ready token. The result is how far it gets.
\<close>

definition take_round ::
    "bool \<Rightarrow> process \<Rightarrow> shared_value heap \<Rightarrow> (u32 \<times> shared_value heap) option" where
  "take_round oc p h =
     (case call_at oc (one_call Consume) (pstart p) h of
        None \<Rightarrow> None
      | Some h1 \<Rightarrow>
          (case h1 (piters p) of
             Some (ItersV n) \<Rightarrow> Some (n, h1(piters p \<mapsto> ItersV 0))
           | _ \<Rightarrow> None))"

type_synonym work = "u32 \<Rightarrow> shared_value heap \<Rightarrow> shared_value heap option"

definition child_round :: "bool \<Rightarrow> work \<Rightarrow> process \<Rightarrow> shared_value heap \<Rightarrow> shared_value heap" where
  "child_round oc work p h =
     (case take_round oc p h of
        None \<Rightarrow> h
      | Some (n, h1) \<Rightarrow>
          (case work n h1 of
             None \<Rightarrow> h1
           | Some h2 \<Rightarrow>
               (case call_at oc (one_call Produce) (pready p) h2 of None \<Rightarrow> h2 | Some h3 \<Rightarrow> h3)))"

text \<open>The children, each with its own work; one that dies gives no token.\<close>

definition one_child ::
    "bool \<Rightarrow> (nat \<Rightarrow> work) \<Rightarrow> (nat \<Rightarrow> bool) \<Rightarrow> nat \<times> process \<Rightarrow> shared_value heap \<Rightarrow> shared_value heap" where
  "one_child oc works dead kp h =
     (case kp of (k, p) \<Rightarrow> if dead k then h else child_round oc (works k) p h)"

definition children_on :: "bool \<Rightarrow> (nat \<Rightarrow> work) \<Rightarrow> answers_to \<Rightarrow> (world, unit) comp" where
  "children_on oc works a =
     update_comp (\<lambda>w. w\<lparr>wheap :=
       fold (one_child oc works (dies a)) (enumerate 0 (cprocesses (wctx w))) (wheap w)\<rparr>)"

text \<open>\<open>Context::start\<close>; it does not return when a start semaphore still holds a token.\<close>

definition start_on :: "bool \<Rightarrow> u32 \<Rightarrow> (world, unit) comp" where
  "start_on oc iters w =
     (case Context_start oc iters (wctx w) (wheap w) of
        None \<Rightarrow> None
      | Some h \<Rightarrow> Some (Inr ((), w\<lparr>wheap := h\<rparr>)))"

text \<open>\<open>Process::wait\<close>: the ready token, or rounds of asking whether the child is alive.\<close>

definition wait_one ::
    "bool \<Rightarrow> bool list \<Rightarrow> process \<Rightarrow> shared_value heap \<Rightarrow> (unit result \<times> shared_value heap) option" where
  "wait_one oc alives p h =
     (case call_at oc (one_call Consume) (pready p) h of
        Some h' \<Rightarrow> Some (Inr (), h')
      | None \<Rightarrow> map_option (\<lambda>r. (r, h)) (Process_wait (map (\<lambda>al. (False, al)) alives)))"

text \<open>\<open>Context::wait\<close>: the flag goes down after every process that was ready.\<close>

fun wait_each ::
    "bool \<Rightarrow> usize \<Rightarrow> (nat \<Rightarrow> bool list) \<Rightarrow> (nat \<times> process) list \<Rightarrow> shared_value heap
     \<Rightarrow> (unit result \<times> shared_value heap) option" where
  "wait_each oc r says [] h = Some (Inr (), Running_stop r h)"
| "wait_each oc r says ((k, p) # ps) h =
     (case wait_one oc (says k) p h of
        None \<Rightarrow> None
      | Some (Inl e, h') \<Rightarrow> Some (Inl e, h')
      | Some (Inr _, h') \<Rightarrow> wait_each oc r says ps (Running_stop r h'))"

definition wait_on :: "bool \<Rightarrow> answers_to \<Rightarrow> (world, unit result) comp" where
  "wait_on oc a w =
     (case wait_each oc (crunning (wctx w)) (alive_says a) (enumerate 0 (cprocesses (wctx w))) (wheap w) of
        None \<Rightarrow> None
      | Some (r, h) \<Rightarrow> Some (Inr (r, w\<lparr>wheap := h\<rparr>)))"

text \<open>A measurement: what the machine answers in it, its body, and its time.\<close>

definition answers_on :: "(world, answers_to) comp" where
  "answers_on w = give (wround w (wturn w)) (w\<lparr>wturn := Suc (wturn w)\<rparr>)"

definition measured :: "(u32 \<Rightarrow> answers_to \<Rightarrow> (world, f64 result) comp) \<Rightarrow> world closure" where
  "measured body iters =
     bind_comp answers_on (\<lambda>a. bind_comp (body iters a) (\<lambda>r. give (r, took a iters)))"

text \<open>A context of its own for every case: nothing is there yet but the flag.\<close>

definition with_context ::
    "bool \<Rightarrow> memfd_env \<Rightarrow> layouts \<Rightarrow> kernel \<Rightarrow> (nat \<Rightarrow> creation) \<Rightarrow> (nat \<Rightarrow> answers_to)
     \<Rightarrow> (world, unit result) comp
     \<Rightarrow> (unit result \<times> world option) outcome option" where
  "with_context oc env L k made rounds body =
     (case Context_create oc env (l_flag L) (k, Map.empty) of
        (Inl p, _, _) \<Rightarrow> Some (Inl p)
      | (Inr (Inl e), _, _) \<Rightarrow> Some (Inr (Inl e, None))
      | (Inr (Inr c), _, h) \<Rightarrow>
          (case body \<lparr>wctx = c, wheap = h, wmade = made, wround = rounds, wturn = 0\<rparr> of
             None \<Rightarrow> None
           | Some (Inl p) \<Rightarrow> Some (Inl p)
           | Some (Inr (r, w)) \<Rightarrow> Some (Inr (r, Some w))))"

end
