(* ===== verification/Tests.thy ===== *)
theory Tests
  imports World Suite
begin

text \<open>
  The registered cases as the program runs them, from the creation of the context to the verdict:
  \<open>cases/topology.rs\<close>, \<open>cases/fairness.rs\<close>, \<open>cases/latency.rs\<close> and \<open>cases/basic.rs\<close>, over the state of
  \<open>World\<close>. The topology that is loaded is a parameter, with the error of loading it.
\<close>

section \<open>Topology\<close>

text \<open>A child that only spins: its work in a round goes through and touches no shared object.\<close>

definition spin_work :: work where
  "spin_work n h = Some h"

text \<open>What the parent sees at the looks of a round, every ten milliseconds.\<close>

definition looks :: "answers_to \<Rightarrow> nat \<Rightarrow> u32 \<Rightarrow> u32 list list" where
  "looks a n iters = map (\<lambda>k. map (seen_on a k) [0 ..< n]) [0 ..< unat (iters div 10)]"

text \<open>\<open>spread_out\<close>: for every core a spinner and a process, which starts on the first core.\<close>

definition spread_setup :: "bool \<Rightarrow> layouts \<Rightarrow> system \<Rightarrow> (world, (usize \<times> int) list result) comp" where
  "spread_setup oc L s =
     each_comp (\<lambda>_. try_comp (allocate_on oc (l_u32 L) (ItersV 0)) (\<lambda>spinner.
       try_comp (process_on oc L) (\<lambda>handle. give (Inr (spinner, handle))))) (all_cores s)"

definition spread_body ::
    "bool \<Rightarrow> system \<Rightarrow> (usize \<times> int) list \<Rightarrow> u32 \<Rightarrow> answers_to \<Rightarrow> (world, f64 result) comp" where
  "spread_body oc s made iters a =
     bind_comp (start_on oc iters) (\<lambda>_.
     bind_comp (children_on oc (\<lambda>_. spin_work) a) (\<lambda>_.
     try_comp (give (all_ok (map (\<lambda>(_, pid). map_sum id nr_migrations (stats_before a pid)) made))) (\<lambda>base.
     bind_comp (of_outcome (observe oc (core_of_cpu (all_cores s)) (concat (looks a (length made) iters)) Map.empty)) (\<lambda>seen.
     try_comp (wait_on oc a) (\<lambda>_.
     try_comp (of_outcome (delta_migrations oc base
         (map (\<lambda>(_, pid). map_sum id nr_migrations (stats_after a pid)) made) 0)) (\<lambda>delta.
     give (Inr (if 0 < delta then Fin 0
       else f_div (f_of_nat (card (dom seen))) (f_of_nat (length (all_cores s)))))))))))"

definition spread_out :: "bool \<Rightarrow> layouts \<Rightarrow> system result \<Rightarrow> (world, unit result) comp" where
  "spread_out oc L loaded =
     try_comp (give loaded) (\<lambda>s.
     bind_comp (of_outcome (vec_index (all_cores s) 0)) (\<lambda>_.
     try_comp (spread_setup oc L s) (\<lambda>made.
     bind_comp (converge_macro_on oc (10 ^ 9) (30 * 10 ^ 9) the_target (measured (spread_body oc s made))) (\<lambda>final.
     give (check_target final the_target ''Failed to achieve target'')))))"

text \<open>
  \<open>come_together\<close>: for every complex a process, with a spinner for every core and a semaphore that
  it produces on; nothing consumes from it.
\<close>

definition come_setup :: "bool \<Rightarrow> layouts \<Rightarrow> system \<Rightarrow> (world, (usize list \<times> usize) list result) comp" where
  "come_setup oc L s =
     each_comp (\<lambda>_.
       try_comp (each_comp (\<lambda>_. allocate_on oc (l_u32 L) (ItersV 0)) (all_cores s)) (\<lambda>spinners.
       try_comp (allocate_on oc (l_sem L)
         (SemV (Semaphore_new (word_of_nat (length (all_cores s))) [] 0))) (\<lambda>wakeup.
       try_comp (process_on oc L) (\<lambda>_. give (Inr (spinners, wakeup)))))) [0 ..< System_complexes s]"

definition produce_call :: "u32 \<Rightarrow> call" where
  "produce_call n = \<lparr>op = Produce, amt = n, wake_n = n, timed = False\<rparr>"

definition come_work :: "bool \<Rightarrow> (usize list \<times> usize) list \<Rightarrow> nat \<Rightarrow> work" where
  "come_work oc made k n = call_at oc (produce_call n) (snd (made ! k))"

text \<open>The spinner sets at every look; the spinners are numbered in the order they were made.\<close>

definition set_looks :: "answers_to \<Rightarrow> nat \<Rightarrow> nat \<Rightarrow> u32 \<Rightarrow> u32 list list" where
  "set_looks a sets n iters =
     concat (map (\<lambda>k. map (\<lambda>j. map (\<lambda>i. seen_on a k (j * n + i)) [0 ..< n]) [0 ..< sets])
       [0 ..< unat (iters div 10)])"

definition come_body ::
    "bool \<Rightarrow> system \<Rightarrow> (usize list \<times> usize) list \<Rightarrow> u32 \<Rightarrow> answers_to \<Rightarrow> (world, f64 result) comp" where
  "come_body oc s made iters a =
     bind_comp (start_on oc iters) (\<lambda>_.
     bind_comp (children_on oc (come_work oc made) a) (\<lambda>_.
     bind_comp (of_outcome (count_sets oc (complex_of_cpu s)
         (set_looks a (length made) (length (all_cores s)) iters) 0 0)) (\<lambda>(bad, seen_all).
     try_comp (wait_on oc a) (\<lambda>_.
     give (Inr (f_sub (Fin 1) (f_div (rnd (of_int (sint bad))) (rnd (of_int (sint seen_all))))))))))"

definition come_together :: "bool \<Rightarrow> layouts \<Rightarrow> system result \<Rightarrow> (world, unit result) comp" where
  "come_together oc L loaded =
     try_comp (give loaded) (\<lambda>s.
     try_comp (come_setup oc L s) (\<lambda>made.
     bind_comp (converge_macro_on oc (10 ^ 9) (30 * 10 ^ 9) the_target (measured (come_body oc s made))) (\<lambda>final.
     give (check_target final the_target ''Failed to achieve target''))))"

section \<open>Fairness\<close>

text \<open>
  One task pinned to every hyperthread, and as many floating ones as there are CPUs; the topology
  is loaded before each kind. A task that cannot be pinned ends with an error: it dies.
\<close>

definition fairness_setup ::
    "bool \<Rightarrow> layouts \<Rightarrow> system result \<Rightarrow> system result \<Rightarrow> (world, int list result) comp" where
  "fairness_setup oc L loaded1 loaded2 =
     try_comp (give loaded1) (\<lambda>s1.
     try_comp (each_comp (\<lambda>h. bind_comp (of_outcome (CPUMask_new Hyperthread_mask h)) (\<lambda>_. process_on oc L))
       (concat (map hyperthreads (all_cores s1)))) (\<lambda>pinned.
     try_comp (give loaded2) (\<lambda>s2.
     try_comp (each_comp (\<lambda>_. process_on oc L) [0 ..< System_logical_cpus s2]) (\<lambda>floating.
     give (Inr (pinned @ floating))))))"

definition fairness_body ::
    "bool \<Rightarrow> 'd digest_ops \<Rightarrow> (nat \<Rightarrow> string) \<Rightarrow> nat option \<Rightarrow> int list \<Rightarrow> u32 \<Rightarrow> answers_to
     \<Rightarrow> (world, f64 result) comp" where
  "fairness_body oc D debug terminal pids iters a =
     bind_comp (start_on oc iters) (\<lambda>_.
     bind_comp (children_on oc (\<lambda>_. spin_work) a) (\<lambda>_.
     bind_comp (wait_on oc a) (\<lambda>waited.
     of_outcome (fairness_metric D debug terminal waited
       (map (\<lambda>pid. map_sum id total_time (stats_after a pid)) pids)))))"

definition fairness ::
    "bool \<Rightarrow> layouts \<Rightarrow> 'd digest_ops \<Rightarrow> (nat \<Rightarrow> string) \<Rightarrow> nat option \<Rightarrow> system result \<Rightarrow> system result
     \<Rightarrow> (world, unit result) comp" where
  "fairness oc L D debug terminal loaded1 loaded2 =
     try_comp (fairness_setup oc L loaded1 loaded2) (\<lambda>pids.
     try_comp (converge_on oc (Some (5 * 10 ^ 9)) (Some (10 * 10 ^ 9)) (Some (rnd (6 / 10)))
       (measured (fairness_body oc D debug terminal pids))) (\<lambda>final.
     give (check_target final (rnd (6 / 10)) ''Failed to achieve target'')))"

section \<open>Latency\<close>

text \<open>What the children have sampled on the case's semaphores when a round is over.\<close>

definition sem_at :: "usize \<Rightarrow> shared_value heap \<Rightarrow> sem option" where
  "sem_at a h = (case h a of Some (SemV s) \<Rightarrow> Some s | _ \<Rightarrow> None)"

definition put_sem :: "usize \<Rightarrow> sem \<Rightarrow> shared_value heap \<Rightarrow> shared_value heap" where
  "put_sem a s h = h(a \<mapsto> SemV s)"

definition sample_at :: "answers_to \<Rightarrow> nat \<times> usize \<Rightarrow> shared_value heap \<Rightarrow> shared_value heap" where
  "sample_at a ja h =
     (case sem_at (snd ja) h of
        None \<Rightarrow> h
      | Some s \<Rightarrow> put_sem (snd ja) (s\<lparr>sreservoir := sampled a (fst ja)\<rparr>) h)"

definition samples_on :: "answers_to \<Rightarrow> usize list \<Rightarrow> (world, unit) comp" where
  "samples_on a sems = update_comp (\<lambda>w. w\<lparr>wheap := fold (sample_at a) (enumerate 0 sems) (wheap w)\<rparr>)"

text \<open>
  A part of the case that reads two semaphores, and may change them; reading a slot of a
  reservoir that was never written is not returning here.
\<close>

definition with_sems ::
    "usize \<Rightarrow> usize \<Rightarrow> (sem \<times> sem \<Rightarrow> ('a \<times> sem \<times> sem) outcome option) \<Rightarrow> (world, 'a) comp" where
  "with_sems a b f =
     bind_comp (read_comp (\<lambda>w. (sem_at a (wheap w), sem_at b (wheap w)))) (\<lambda>found.
     case found of
       (Some s, Some t) \<Rightarrow>
         bind_comp (of_option (f (s, t))) (\<lambda>r.
         bind_comp (of_outcome r) (\<lambda>(v, s', t').
         bind_comp (update_comp (\<lambda>w. w\<lparr>wheap := put_sem b t' (put_sem a s' (wheap w))\<rparr>)) (\<lambda>_. give v)))
     | _ \<Rightarrow> of_option None)"

definition adaptive_body ::
    "bool \<Rightarrow> 'd digest_ops \<Rightarrow> (nat \<Rightarrow> string) \<Rightarrow> nat option \<Rightarrow> usize \<Rightarrow> usize \<Rightarrow> u32 \<Rightarrow> answers_to
     \<Rightarrow> (world, f64 result) comp" where
  "adaptive_body oc D debug terminal fast slow iters a =
     bind_comp (start_on oc iters) (\<lambda>_.
     bind_comp (children_on oc (\<lambda>_. spin_work) a) (\<lambda>_.
     bind_comp (samples_on a [fast, slow]) (\<lambda>_.
     bind_comp (wait_on oc a) (\<lambda>waited.
     with_sems fast slow (adaptive_metric D debug terminal waited)))))"

text \<open>
  \<open>adaptive_priority\<close>: a pair of semaphores and a process for the slow, and for the fast requests.
  The round of requests leaves the semaphores empty again (\<open>Rounds\<close>), so a child's work
  changes nothing but their samples.
\<close>

definition latency_sem :: "(instant \<times> instant) list \<Rightarrow> shared_value" where
  "latency_sem readings = SemV (Semaphore_new 1 readings 1024)"

definition adaptive_setup ::
    "bool \<Rightarrow> layouts \<Rightarrow> (instant \<times> instant) list \<Rightarrow> (world, usize result) comp" where
  "adaptive_setup oc L readings =
     try_comp (allocate_on oc (l_bench_sem L) (latency_sem readings)) (\<lambda>sem.
     try_comp (allocate_on oc (l_bench_sem L) (latency_sem readings)) (\<lambda>sem_ret.
     try_comp (process_on oc L) (\<lambda>_. give (Inr sem))))"

definition adaptive_priority ::
    "bool \<Rightarrow> layouts \<Rightarrow> 'd digest_ops \<Rightarrow> (nat \<Rightarrow> string) \<Rightarrow> nat option \<Rightarrow> (instant \<times> instant) list
     \<Rightarrow> system result \<Rightarrow> (world, unit result) comp" where
  "adaptive_priority oc L D debug terminal readings loaded =
     try_comp (give loaded) (\<lambda>s.
     bind_comp (of_outcome (adaptive_mask s)) (\<lambda>_.
     try_comp (adaptive_setup oc L readings) (\<lambda>slow.
     try_comp (adaptive_setup oc L readings) (\<lambda>fast.
     try_comp (converge_on oc (Some (5 * 10 ^ 9)) (Some (10 * 10 ^ 9)) (Some (Fin (1 / 2)))
       (measured (adaptive_body oc D debug terminal fast slow))) (\<lambda>final.
     give (check_below final (Fin (1 / 2)) ''Failed to achieve target''))))))"

section \<open>Benchmarks\<close>

text \<open>
  \<open>measure\<close> on a closure: the first call, with count zero, decides the kind; then Criterion calls
  with the counts of its choice, each with the time it took. What comes out is what
  Criterion is told.
\<close>

type_synonym ('s, 'd) bench_closure = "u32 \<Rightarrow> ('s, 'd bench_result result) comp"

fun latency_calls ::
    "'d digest_ops \<Rightarrow> bench_args \<Rightarrow> (nat \<Rightarrow> string) \<Rightarrow> nat option \<Rightarrow> ('s, 'd) bench_closure
     \<Rightarrow> (u64 \<times> nat) list \<Rightarrow> ('s, nat list) comp" where
  "latency_calls D args debug terminal f [] = give []"
| "latency_calls D args debug terminal f ((iters, _) # calls) =
     bind_comp (f (ucast iters)) (\<lambda>r.
     bind_comp (of_outcome (latency_sample D args debug terminal r iters)) (\<lambda>t.
     bind_comp (latency_calls D args debug terminal f calls) (\<lambda>ts. give (t # ts))))"

fun throughput_calls ::
    "('s, 'd) bench_closure \<Rightarrow> (u64 \<times> nat) list \<Rightarrow> u64 option \<Rightarrow> ('s, nat list \<times> u64 option) comp" where
  "throughput_calls f [] last_count = give ([], last_count)"
| "throughput_calls f ((iters, elapsed) # calls) last_count =
     bind_comp (f (ucast iters)) (\<lambda>r.
     bind_comp (of_outcome (throughput_sample r elapsed last_count)) (\<lambda>(t, c).
     bind_comp (throughput_calls f calls c) (\<lambda>(ts, c'). give (t # ts, c'))))"

definition measure_on ::
    "'d digest_ops \<Rightarrow> bench_args \<Rightarrow> (nat \<Rightarrow> string) \<Rightarrow> nat option \<Rightarrow> ('s, 'd) bench_closure
     \<Rightarrow> (u64 \<times> nat) list \<Rightarrow> ('s, unit result \<times> nat list \<times> u64 option) comp" where
  "measure_on D args debug terminal f calls =
     bind_comp (f 0) (\<lambda>first.
     case first of
       Inr (Latency _) \<Rightarrow>
         bind_comp (latency_calls D args debug terminal f calls) (\<lambda>ts. give (Inr (), ts, None))
     | Inr (Count _) \<Rightarrow>
         bind_comp (throughput_calls f calls None) (\<lambda>(ts, c).
           give (Inr (), ts, Some (case c of None \<Rightarrow> 1 | Some v \<Rightarrow> v)))
     | Inl e \<Rightarrow> of_outcome (Inl (PanicMsg ''Unsupported benchmark result type'')))"

text \<open>The closure that \<open>measure!\<close> makes.\<close>

definition measure_body ::
    "bool \<Rightarrow> usize list \<Rightarrow> (u32 \<Rightarrow> answers_to \<Rightarrow> (world, 'd bench_result result) comp)
     \<Rightarrow> (world, 'd) bench_closure" where
  "measure_body oc sems func iters =
     bind_comp answers_on (\<lambda>a.
     bind_comp (start_on oc iters) (\<lambda>_.
     bind_comp (children_on oc (\<lambda>_. spin_work) a) (\<lambda>_.
     bind_comp (samples_on a sems) (\<lambda>_.
     try_comp (wait_on oc a) (\<lambda>_. func iters a)))))"

type_synonym told = "unit result \<times> nat list \<times> u64 option"

text \<open>\<open>self_bench\<close>: the parent itself spins for as many milliseconds as it counts.\<close>

definition self_bench ::
    "bool \<Rightarrow> 'd digest_ops \<Rightarrow> bench_args \<Rightarrow> (nat \<Rightarrow> string) \<Rightarrow> nat option \<Rightarrow> (u64 \<times> nat) list
     \<Rightarrow> (world, told) comp" where
  "self_bench oc D args debug terminal calls =
     measure_on D args debug terminal (measure_body oc [] (\<lambda>iters a.
       bind_comp (of_option (spin (millis iters) (clock_reads a) 0)) (\<lambda>_.
       give (Inr (Count (ucast iters)))))) calls"

text \<open>\<open>ping_pong\<close> for a wake type; an error of the setup is the result of the benchmark.\<close>

definition ping_pong_setup ::
    "bool \<Rightarrow> layouts \<Rightarrow> (instant \<times> instant) list \<Rightarrow> system result \<Rightarrow> wake_type
     \<Rightarrow> (world, (usize \<times> usize) result) comp" where
  "ping_pong_setup oc L readings loaded w =
     try_comp (allocate_on oc (l_bench_sem L) (latency_sem readings)) (\<lambda>one.
     try_comp (allocate_on oc (l_bench_sem L) (latency_sem readings)) (\<lambda>two.
     try_comp (give loaded) (\<lambda>s.
     bind_comp (of_outcome (ping_pong_mask s w)) (\<lambda>_.
     try_comp (process_on oc L) (\<lambda>_.
     try_comp (process_on oc L) (\<lambda>_. give (Inr (one, two))))))))"

definition ping_pong_bench ::
    "bool \<Rightarrow> layouts \<Rightarrow> 'd digest_ops \<Rightarrow> bench_args \<Rightarrow> (nat \<Rightarrow> string) \<Rightarrow> nat option
     \<Rightarrow> (instant \<times> instant) list \<Rightarrow> system result \<Rightarrow> wake_type \<Rightarrow> (u64 \<times> nat) list
     \<Rightarrow> (world, told) comp" where
  "ping_pong_bench oc L D args debug terminal readings loaded w calls =
     bind_comp (ping_pong_setup oc L readings loaded w) (\<lambda>r.
     case r of
       Inl e \<Rightarrow> give (Inl e, [], None)
     | Inr (one, two) \<Rightarrow>
         measure_on D args debug terminal (measure_body oc [one, two] (\<lambda>_ _.
           with_sems one two (\<lambda>sems. map_option Inr (ping_pong_result D sems)))) calls)"

end
