(* ===== verification/WorldProps.thy ===== *)
theory WorldProps
  imports World
begin

text \<open>
  What a round of a context does to the shared memory: its processes rest, are started, do their
  work and give their token, and rest again; and what the setup of a case leaves there.
\<close>

section \<open>Semaphores in the store\<close>

definition sem_holds :: "shared_value heap \<Rightarrow> usize \<Rightarrow> u32 \<Rightarrow> u32 \<Rightarrow> bool" where
  "sem_holds h a m c \<longleftrightarrow> (\<exists>s. h a = Some (SemV s) \<and> smax s = m \<and> count s = c)"

lemma call_at_elsewhere: "call_at oc c a h = Some h' \<Longrightarrow> b \<noteq> a \<Longrightarrow> h' b = h b"
  by (auto simp: call_at_def split: option.splits shared_value.splits decision.splits)

lemma call_at_keeps:
  assumes "call_at oc c a h = Some h'"
  shows "keeps_types h h'"
proof -
  obtain s new w where s: "h a = Some (SemV s)" "h' = h(a \<mapsto> SemV (s\<lparr>count := new\<rparr>))"
    using assms by (auto simp: call_at_def split: option.splits shared_value.splits decision.splits)
  have "has_type v T \<longleftrightarrow> has_type (SemV s) T" if "v = SemV (s\<lparr>count := new\<rparr>)" for v T
    using that by (cases T) simp_all
  then have "extends h h'" using s by (auto simp: extends_def typed_at_def)
  moreover have "dom h' = dom h" using s by auto
  ultimately show ?thesis by (simp add: keeps_types_def)
qed

text \<open>A production of \<open>n\<close>: it goes through when it fits under the maximum, and not otherwise.\<close>

lemma call_at_produce:
  assumes "sem_holds h a m c" and "unat c < 2 ^ 31" and "unat (amt k) < 2 ^ 31" and "op k = Produce"
  shows "if unat c + unat (amt k) \<le> unat m
    then (\<exists>h' c'. call_at oc k a h = Some h' \<and> sem_holds h' a m c' \<and> unat c' = unat c + unat (amt k))
    else call_at oc k a h = None"
proof -
  obtain s where s: "h a = Some (SemV s)" "smax s = m" "count s = c"
    using assms(1) by (auto simp: sem_holds_def)
  note [simp] = amount_small [OF assms(2)] small_no_waiter [OF assms(2)]
  from assms(3) show ?thesis
  proof (cases rule: decide_cases [of k oc m c])
    case (exchange new)
    then show ?thesis using s assms(4) by (auto simp: call_at_def sem_holds_def enabled_def apply_call_def)
  qed (use s assms(4) in \<open>auto simp: call_at_def enabled_def\<close>)
qed

lemma call_at_one:
  "sem_holds h a 1 0 \<Longrightarrow> \<exists>h'. call_at oc (one_call Produce) a h = Some h' \<and> sem_holds h' a 1 1"
  "sem_holds h a 1 1 \<Longrightarrow> \<exists>h'. call_at oc (one_call Consume) a h = Some h' \<and> sem_holds h' a 1 0"
  "sem_holds h a 1 0 \<Longrightarrow> call_at oc (one_call Consume) a h = None"
  by (auto simp: sem_holds_def call_at_def decide_def produce_decide_def consume_decide_def one_call_def
      amount_of_def has_waiter_def add_ck_def sub_ck_def block_decision_def WAITER_def Let_def)

section \<open>Steps that stay in their place\<close>

lemma fold_elsewhere:
  assumes "\<And>x h. x \<in> set xs \<Longrightarrow> a \<notin> A x \<Longrightarrow> g x h a = h a" and "\<forall>x\<in>set xs. a \<notin> A x"
  shows "fold g xs h a = h a"
  using assms by (induction xs arbitrary: h) simp_all

lemma fold_own:
  assumes stay: "\<And>x h a. x \<in> set xs \<Longrightarrow> a \<notin> A x \<Longrightarrow> g x h a = h a" and "distinct xs"
    and apart: "\<And>x y. x \<in> set xs \<Longrightarrow> y \<in> set xs \<Longrightarrow> x \<noteq> y \<Longrightarrow> A x \<inter> A y = {}" and "x \<in> set xs"
  shows "\<exists>h'. (\<forall>a\<in>A x. h' a = h a) \<and> (\<forall>a\<in>A x. fold g xs h a = g x h' a)"
proof -
  obtain ys zs where xs: "xs = ys @ x # zs" using assms(4) by (auto simp: in_set_conv_decomp)
  have out: "a \<notin> A y" if mem: "a \<in> A x" "y \<in> set ys \<union> set zs" for a y
    using apart [of x y] assms(2) mem by (auto simp: xs)
  have "fold g ys h a = h a" if "a \<in> A x" for a
    using stay out that by (intro fold_elsewhere [where A = A]) (auto simp: xs)
  moreover have "fold g zs h2 a = h2 a" if "a \<in> A x" for a h2
    using stay out that by (intro fold_elsewhere [where A = A]) (auto simp: xs)
  ultimately show ?thesis by (intro exI [of _ "fold g ys h"]) (simp add: xs)
qed

text \<open>Work that only touches objects of its own.\<close>

definition within_own :: "usize set \<Rightarrow> work \<Rightarrow> bool" where
  "within_own F work \<longleftrightarrow> (\<forall>n h h' a. work n h = Some h' \<longrightarrow> a \<notin> F \<longrightarrow> h' a = h a)"

definition typed_work :: "work \<Rightarrow> bool" where
  "typed_work work \<longleftrightarrow> (\<forall>n h h'. work n h = Some h' \<longrightarrow> keeps_types h h')"

lemma within_ownD: "within_own F work \<Longrightarrow> work n h = Some h' \<Longrightarrow> a \<notin> F \<Longrightarrow> h' a = h a"
  unfolding within_own_def by blast

lemma take_round_elsewhere:
  "take_round oc p h = Some (n, h1) \<Longrightarrow> a \<notin> set (process_objects p) \<Longrightarrow> h1 a = h a"
  by (auto simp: take_round_def process_objects_def call_at_elsewhere
      split: option.splits shared_value.splits)

lemma take_round_keeps: "take_round oc p h = Some (n, h1) \<Longrightarrow> keeps_types h h1"
proof -
  assume "take_round oc p h = Some (n, h1)"
  then obtain h0 where h0: "call_at oc (one_call Consume) (pstart p) h = Some h0" "h0 (piters p) = Some (ItersV n)"
      "h1 = h0(piters p \<mapsto> ItersV 0)"
    by (auto simp: take_round_def split: option.splits shared_value.splits)
  have "typed_at h0 (piters p) ItersT" using h0(2) by (simp add: typed_at_def)
  then have "keeps_types h0 h1" unfolding h0(3) by (rule keeps_types_write) simp
  with call_at_keeps [OF h0(1)] show ?thesis by (rule keeps_types_trans)
qed

lemma child_round_elsewhere:
  assumes "within_own F work" and "a \<notin> set (process_objects p) \<union> F"
  shows "child_round oc work p h a = h a"
proof (cases "take_round oc p h")
  case (Some x)
  obtain n h1 where x: "x = (n, h1)" by fastforce
  have h1: "h1 a = h a" using take_round_elsewhere [of oc p h n h1 a] Some x assms(2) by simp
  show ?thesis
  proof (cases "work n h1")
    case None
    then show ?thesis using Some x h1 by (simp add: child_round_def)
  next
    case h2: (Some h2)
    then have "h2 a = h a" using within_ownD [OF assms(1) h2] assms(2) h1 by auto
    then show ?thesis
      using Some x h2 assms(2) by (auto simp: child_round_def process_objects_def call_at_elsewhere split: option.split)
  qed
qed (simp add: child_round_def)

lemma child_round_keeps:
  assumes "typed_work work"
  shows "keeps_types h (child_round oc work p h)"
proof (cases "take_round oc p h")
  case (Some x)
  obtain n h1 where x: "x = (n, h1)" by fastforce
  then have h1: "keeps_types h h1" using Some take_round_keeps by simp
  show ?thesis
  proof (cases "work n h1")
    case None
    then show ?thesis using Some x h1 by (simp add: child_round_def)
  next
    case h2: (Some h2)
    then have "keeps_types h h2" using assms h1 keeps_types_trans by (auto simp: typed_work_def)
    then show ?thesis
      using Some x h2 by (auto simp: child_round_def split: option.split dest: call_at_keeps intro: keeps_types_trans)
  qed
qed (simp add: child_round_def)

text \<open>A round of a child whose objects are at rest but for the start token and the count.\<close>

definition started :: "shared_value heap \<Rightarrow> process \<Rightarrow> u32 \<Rightarrow> bool" where
  "started h p n \<longleftrightarrow> sem_holds h (pstart p) 1 1 \<and> sem_holds h (pready p) 1 0 \<and> h (piters p) = Some (ItersV n)"

definition resting :: "shared_value heap \<Rightarrow> process \<Rightarrow> bool" where
  "resting h p \<longleftrightarrow> sem_holds h (pstart p) 1 0 \<and> sem_holds h (pready p) 1 0 \<and> (\<exists>n. h (piters p) = Some (ItersV n))"

lemma take_round_started:
  assumes "started h p n" and "distinct (process_objects p)"
  shows "\<exists>h1. take_round oc p h = Some (n, h1) \<and> sem_holds h1 (pstart p) 1 0 \<and> sem_holds h1 (pready p) 1 0
    \<and> h1 (piters p) = Some (ItersV 0) \<and> (\<forall>a. a \<notin> set (process_objects p) \<longrightarrow> h1 a = h a)"
proof -
  obtain h0 where h0: "call_at oc (one_call Consume) (pstart p) h = Some h0" "sem_holds h0 (pstart p) 1 0"
    using call_at_one(2) [of h "pstart p" oc] assms(1) unfolding started_def by blast
  have other: "h0 b = h b" if "b \<noteq> pstart p" for b using call_at_elsewhere [OF h0(1) that] .
  have run: "take_round oc p h = Some (n, h0(piters p \<mapsto> ItersV 0))"
    using h0(1) other [of "piters p"] assms by (auto simp: take_round_def started_def process_objects_def)
  have "sem_holds (h0(piters p \<mapsto> ItersV 0)) (pstart p) 1 0 \<and> sem_holds (h0(piters p \<mapsto> ItersV 0)) (pready p) 1 0"
    using h0(2) other [of "pready p"] assms by (auto simp: started_def process_objects_def sem_holds_def)
  then show ?thesis using run other by (auto simp: process_objects_def)
qed

text \<open>It gets to the ready token exactly when its work goes through.\<close>

lemma child_round_started:
  assumes "started h p n" and "distinct (process_objects p)"
    and "within_own F work" and "F \<inter> set (process_objects p) = {}"
  obtains (through) h1 h2 where "\<forall>a. a \<notin> set (process_objects p) \<longrightarrow> h1 a = h a" and "work n h1 = Some h2"
      and "sem_holds (child_round oc work p h) (pstart p) 1 0" and "sem_holds (child_round oc work p h) (pready p) 1 1"
      and "child_round oc work p h (piters p) = Some (ItersV 0)" and "\<forall>a\<in>F. child_round oc work p h a = h2 a"
    | (stuck) h1 where "\<forall>a. a \<notin> set (process_objects p) \<longrightarrow> h1 a = h a" and "work n h1 = None"
      and "sem_holds (child_round oc work p h) (pready p) 1 0"
proof -
  obtain h1 where h1: "take_round oc p h = Some (n, h1)" "sem_holds h1 (pstart p) 1 0" "sem_holds h1 (pready p) 1 0"
    "h1 (piters p) = Some (ItersV 0)" "\<forall>a. a \<notin> set (process_objects p) \<longrightarrow> h1 a = h a"
    using take_round_started [OF assms(1,2)] by blast
  show thesis
  proof (cases "work n h1")
    case None
    then show thesis using h1 by (intro stuck [of h1]) (simp_all add: child_round_def)
  next
    case (Some h2)
    have same: "h2 b = h1 b" if "b \<in> set (process_objects p)" for b
      using within_ownD [OF assms(3) Some] assms(4) that by blast
    then have "sem_holds h2 (pready p) 1 0" using h1(3) by (simp add: sem_holds_def process_objects_def)
    then obtain h3 where h3: "call_at oc (one_call Produce) (pready p) h2 = Some h3" "sem_holds h3 (pready p) 1 1"
      using call_at_one(1) by blast
    have other: "h3 b = h2 b" if "b \<noteq> pready p" for b using call_at_elsewhere [OF h3(1) that] .
    have run: "child_round oc work p h = h3" using h1(1) Some h3(1) by (simp add: child_round_def)
    have "h3 (pstart p) = h1 (pstart p)" "h3 (piters p) = h1 (piters p)"
      using other same assms(2) by (auto simp: process_objects_def)
    moreover have "\<forall>a\<in>F. h3 a = h2 a"
    proof
      fix a assume "a \<in> F"
      then have "a \<noteq> pready p" using assms(4) by (auto simp: process_objects_def)
      then show "h3 a = h2 a" by (rule other)
    qed
    ultimately show thesis using through [OF h1(5) Some] h1(2,4) h3(2) run by (simp add: sem_holds_def)
  qed
qed

text \<open>Waiting.\<close>

lemma wait_vain: "Process_wait (map (\<lambda>al. (False, al)) alives) \<noteq> Some (Inr u)"
  by (induction alives) simp_all

lemma wait_one_ok:
  "wait_one oc says p h = Some (Inr u, h') \<longleftrightarrow> call_at oc (one_call Consume) (pready p) h = Some h'"
  by (auto simp: wait_one_def wait_vain split: option.splits)

lemma wait_one_elsewhere: "wait_one oc says p h = Some (r, h') \<Longrightarrow> a \<noteq> pready p \<Longrightarrow> h' a = h a"
  by (auto simp: wait_one_def call_at_elsewhere split: option.splits)

lemma wait_one_keeps: "wait_one oc says p h = Some (r, h') \<Longrightarrow> keeps_types h h'"
  by (auto simp: wait_one_def split: option.splits dest: call_at_keeps)

text \<open>When the whole wait succeeds, every ready token was there, and is taken.\<close>

lemma wait_each_ok:
  assumes "wait_each oc r says kps h = Some (Inr (), h')" and "distinct (map (\<lambda>x. pready (snd x)) kps)"
    and "\<forall>x\<in>set kps. pready (snd x) \<noteq> r"
  shows "(\<forall>a. a \<noteq> r \<longrightarrow> (\<forall>x\<in>set kps. pready (snd x) \<noteq> a) \<longrightarrow> h' a = h a)
    \<and> (\<forall>x\<in>set kps. \<not> sem_holds h (pready (snd x)) 1 0
        \<and> (sem_holds h (pready (snd x)) 1 1 \<longrightarrow> sem_holds h' (pready (snd x)) 1 0))"
  using assms
proof (induction kps arbitrary: h)
  case Nil
  then show ?case by (auto simp: Running_stop_def box_write_def)
next
  case (Cons x kps)
  obtain k p where x: "x = (k, p)" by fastforce
  obtain h1 where h1: "call_at oc (one_call Consume) (pready p) h = Some h1"
    and rest: "wait_each oc r says kps (Running_stop r h1) = Some (Inr (), h')"
    using Cons.prems(1) by (auto simp: x wait_one_ok split: option.splits sum.splits)
  have stop: "Running_stop r h1 a = h1 a" if "a \<noteq> r" for a using that by (simp add: Running_stop_def box_write_def)
  have h1': "h1 a = h a" if "a \<noteq> pready p" for a using call_at_elsewhere [OF h1 that] .
  note IH = Cons.IH [OF rest]
  have "distinct (map (\<lambda>x. pready (snd x)) kps)" "\<forall>x\<in>set kps. pready (snd x) \<noteq> r" using Cons.prems by simp_all
  note IH = IH [OF this]
  have new: "pready (snd y) \<noteq> pready p" if "y \<in> set kps" for y
    using Cons.prems(2) that by (auto simp: x image_iff)
  have p: "pready p \<noteq> r" using Cons.prems(3) by (simp add: x)
  have "h' a = h a" if "a \<noteq> r" "\<forall>y\<in>set (x # kps). pready (snd y) \<noteq> a" for a
  proof -
    have "h' a = Running_stop r h1 a" using IH that by simp
    then show ?thesis using stop [OF that(1)] h1' [of a] that(2) by (auto simp: x)
  qed
  moreover have "\<not> sem_holds h (pready p) 1 0"
    using call_at_one(3) h1 by (metis option.distinct(1))
  moreover have "sem_holds h' (pready p) 1 0" if "sem_holds h (pready p) 1 1"
  proof -
    have "sem_holds h1 (pready p) 1 0" using call_at_one(2) [OF that, of oc] h1 by auto
    moreover have "h' (pready p) = Running_stop r h1 (pready p)" using IH p new by auto
    ultimately show ?thesis using stop [OF p] by (simp add: sem_holds_def)
  qed
  moreover have "\<not> sem_holds h (pready (snd y)) 1 0
      \<and> (sem_holds h (pready (snd y)) 1 1 \<longrightarrow> sem_holds h' (pready (snd y)) 1 0)" if y: "y \<in> set kps" for y
  proof -
    have "pready (snd y) \<noteq> r" using Cons.prems(3) y by simp
    then have "Running_stop r h1 (pready (snd y)) = h (pready (snd y))" using stop h1' new [OF y] by simp
    then show ?thesis using IH y by (simp add: sem_holds_def)
  qed
  ultimately show ?case by (simp add: x)
qed

text \<open>And when they are all there it succeeds.\<close>

lemma wait_each_succeeds:
  assumes "\<forall>x\<in>set kps. sem_holds h (pready (snd x)) 1 1" and "distinct (map (\<lambda>x. pready (snd x)) kps)"
    and "\<forall>x\<in>set kps. pready (snd x) \<noteq> r"
  shows "\<exists>h'. wait_each oc r says kps h = Some (Inr (), h')"
  using assms
proof (induction kps arbitrary: h)
  case (Cons x kps)
  obtain k p where x: "x = (k, p)" by fastforce
  obtain h1 where h1: "call_at oc (one_call Consume) (pready p) h = Some h1"
    using call_at_one(2) Cons.prems(1) by (fastforce simp: x)
  have "sem_holds (Running_stop r h1) (pready (snd y)) 1 1" if y: "y \<in> set kps" for y
  proof -
    have "pready (snd y) \<noteq> pready p" "pready (snd y) \<noteq> r" using Cons.prems(2,3) y by (auto simp: x image_iff)
    then have "Running_stop r h1 (pready (snd y)) = h (pready (snd y))"
      using call_at_elsewhere [OF h1] by (simp add: Running_stop_def box_write_def)
    then show ?thesis using Cons.prems(1) y by (simp add: sem_holds_def)
  qed
  with Cons.IH [of "Running_stop r h1"] Cons.prems h1 show ?case
    by (simp add: x wait_one_def)
qed simp

lemma wait_each_keeps:
  "wait_each oc r says kps h = Some (u, h') \<Longrightarrow> typed_at h r FlagT \<Longrightarrow> keeps_types h h'"
proof (induction oc r says kps h rule: wait_each.induct)
  case (1 oc r says h)
  then show ?case by (auto simp: running_keeps(2))
next
  case (2 oc r says k p ps h)
  then obtain v h1 where h1: "wait_one oc (says k) p h = Some (v, h1)" by (auto split: option.splits)
  then have k1: "keeps_types h h1" by (rule wait_one_keeps)
  show ?case
  proof (cases v)
    case (Inl e)
    then show ?thesis using 2 h1 k1 by simp
  next
    case (Inr u')
    have flag: "typed_at h1 r FlagT" using keeps_typed(1) [OF k1 2(3)] .
    note stop = running_keeps(2) [OF flag]
    have "keeps_types (Running_stop r h1) h'"
      using 2(1) [OF h1 refl Inr] 2(2) h1 Inr keeps_typed(1) [OF stop flag] by simp
    then show ?thesis using k1 stop keeps_types_trans by blast
  qed
qed

section \<open>A round of the context\<close>

text \<open>
  The world between rounds: a context as a program builds it, all of whose processes rest; and
  the objects the children's work has for its own, apart from those of the context.
\<close>

definition rest_world :: "world \<Rightarrow> bool" where
  "rest_world w \<longleftrightarrow> built (wctx w) (wheap w) \<and> (\<forall>p\<in>set (cprocesses (wctx w)). resting (wheap w) p)"

definition own_objects :: "ctx \<Rightarrow> (nat \<Rightarrow> usize set) \<Rightarrow> bool" where
  "own_objects c F \<longleftrightarrow> (\<forall>k < length (cprocesses c). F k \<inter> set (ctx_objects c) = {}
     \<and> (\<forall>j < length (cprocesses c). j \<noteq> k \<longrightarrow> F k \<inter> F j = {}))"

definition works_within :: "ctx \<Rightarrow> (nat \<Rightarrow> work) \<Rightarrow> (nat \<Rightarrow> usize set) \<Rightarrow> bool" where
  "works_within c works F \<longleftrightarrow> (\<forall>k < length (cprocesses c). within_own (F k) (works k) \<and> typed_work (works k))"

lemma distinct_concat_nth:
  "distinct (concat xss) \<Longrightarrow> i < length xss \<Longrightarrow> j < length xss \<Longrightarrow> i \<noteq> j \<Longrightarrow> set (xss ! i) \<inter> set (xss ! j) = {}"
proof (induction xss arbitrary: i j)
  case (Cons xs xss)
  have out: "set xs \<inter> set (xss ! k) = {}" if "k < length xss" for k
    using Cons.prems(1) nth_mem [OF that] by auto
  show ?case
  proof (cases i)
    case 0
    then show ?thesis using Cons.prems(3,4) out [of "j - 1"] by (cases j) auto
  next
    case (Suc i')
    show ?thesis
    proof (cases j)
      case 0
      then show ?thesis using Cons.prems(2) Suc out [of i'] by auto
    next
      case (Suc j')
      then show ?thesis using Cons.IH [of i' j'] Cons.prems \<open>i = Suc i'\<close> by simp
    qed
  qed
qed simp

lemma objects_apart:
  assumes "distinct (ctx_objects c)" and "k < length (cprocesses c)"
  shows "distinct (process_objects (cprocesses c ! k))"
    and "crunning c \<notin> set (process_objects (cprocesses c ! k))"
    and "j < length (cprocesses c) \<Longrightarrow> j \<noteq> k \<Longrightarrow>
      set (process_objects (cprocesses c ! k)) \<inter> set (process_objects (cprocesses c ! j)) = {}"
    and "set (process_objects (cprocesses c ! k)) \<subseteq> set (ctx_objects c)"
proof -
  have d: "distinct (concat (map process_objects (cprocesses c)))"
    and r: "crunning c \<notin> set (concat (map process_objects (cprocesses c)))"
    using assms(1) by (simp_all add: ctx_objects_def)
  have mem: "cprocesses c ! k \<in> set (cprocesses c)" using assms(2) by simp
  show "distinct (process_objects (cprocesses c ! k))" using d mem by (auto simp: distinct_concat_iff)
  show "crunning c \<notin> set (process_objects (cprocesses c ! k))" using r mem by auto
  show "set (process_objects (cprocesses c ! k)) \<subseteq> set (ctx_objects c)" using mem by (auto simp: ctx_objects_def)
  assume j: "j < length (cprocesses c)" "j \<noteq> k"
  show "set (process_objects (cprocesses c ! k)) \<inter> set (process_objects (cprocesses c ! j)) = {}"
    using distinct_concat_nth [OF d, of k j] j assms(2) by simp
qed

lemma readys_apart:
  assumes "distinct (ctx_objects c)"
  shows "distinct (map pready (cprocesses c))"
    and "p \<in> set (cprocesses c) \<Longrightarrow> pready p \<noteq> crunning c"
    and "p \<in> set (cprocesses c) \<Longrightarrow> q \<in> set (cprocesses c) \<Longrightarrow> pready q \<noteq> pstart p \<and> pready q \<noteq> piters p"
proof -
  have "distinct (map pready ps) \<and> (\<forall>p\<in>set ps. \<forall>q\<in>set ps. pready q \<noteq> pstart p \<and> pready q \<noteq> piters p)"
    if "distinct (concat (map process_objects ps))" for ps
    using that by (induction ps) (auto simp: process_objects_def)
  from this [of "cprocesses c"] assms
  have "distinct (map pready (cprocesses c))
    \<and> (\<forall>p\<in>set (cprocesses c). \<forall>q\<in>set (cprocesses c). pready q \<noteq> pstart p \<and> pready q \<noteq> piters p)"
    by (simp add: ctx_objects_def)
  then show "distinct (map pready (cprocesses c))"
    and "p \<in> set (cprocesses c) \<Longrightarrow> q \<in> set (cprocesses c) \<Longrightarrow> pready q \<noteq> pstart p \<and> pready q \<noteq> piters p"
    by blast+
  show "p \<in> set (cprocesses c) \<Longrightarrow> pready p \<noteq> crunning c"
    using assms by (auto simp: ctx_objects_def process_objects_def)
qed

text \<open>Starting: every process has its token and the count.\<close>

lemma start_all_started:
  assumes "\<forall>p\<in>set ps. resting h p" and "distinct (concat (map process_objects ps))"
  shows "\<exists>h'. start_all oc n ps h = Some h' \<and> (\<forall>p\<in>set ps. started h' p n)
    \<and> (\<forall>a. a \<notin> set (concat (map process_objects ps)) \<longrightarrow> h' a = h a)"
  using assms
proof (induction ps arbitrary: h)
  case (Cons p ps)
  let ?objs = "set (concat (map process_objects ps))"
  have p: "distinct (process_objects p)" "set (process_objects p) \<inter> ?objs = {}" using Cons.prems(2) by auto
  have "sem_holds (h(piters p \<mapsto> ItersV n)) (pstart p) 1 0"
    using Cons.prems(1) p(1) by (auto simp: resting_def sem_holds_def process_objects_def)
  then obtain h1 where h1: "Process_start oc n p h = Some h1" "sem_holds h1 (pstart p) 1 1"
    using call_at_one(1) unfolding Process_start_call by blast
  have other: "h1 a = h a" if "a \<notin> set (process_objects p)" for a
    using Process_start_touches [OF h1(1)] that by (simp add: process_objects_def)
  have "h1 b = (h(piters p \<mapsto> ItersV n)) b" if "b \<noteq> pstart p" for b
    using h1(1) call_at_elsewhere that unfolding Process_start_call by blast
  then have p1: "started h1 p n"
    using h1(2) Cons.prems(1) p(1) by (auto simp: started_def resting_def sem_holds_def process_objects_def)
  have "resting h1 q" if q: "q \<in> set ps" for q
  proof -
    have "set (process_objects q) \<inter> set (process_objects p) = {}" using q p(2) by auto
    then have "h1 a = h a" if "a \<in> set (process_objects q)" for a using other that by blast
    then show ?thesis using Cons.prems(1) q by (simp add: resting_def sem_holds_def process_objects_def)
  qed
  with Cons.IH [of h1] Cons.prems(2) obtain h' where h': "start_all oc n ps h1 = Some h'"
    "\<forall>q\<in>set ps. started h' q n" "\<And>a. a \<notin> ?objs \<Longrightarrow> h' a = h1 a" by auto
  have "h' a = h1 a" if "a \<in> set (process_objects p)" for a using h'(3) p(2) that by blast
  then have "started h' p n" using p1 by (simp add: started_def sem_holds_def process_objects_def)
  then show ?case using h1(1) h' other by auto
qed simp

lemma start_on_rest:
  assumes "rest_world w"
  shows "\<exists>h. start_on oc n w = Some (Inr ((), w\<lparr>wheap := h\<rparr>)) \<and> built (wctx w) h
    \<and> (\<forall>p\<in>set (cprocesses (wctx w)). started h p n)
    \<and> (\<forall>a. a \<notin> set (ctx_objects (wctx w)) \<longrightarrow> h a = wheap w a)"
proof -
  let ?c = "wctx w" and ?h = "Running_start (crunning (wctx w)) (wheap w)"
  have b: "built ?c (wheap w)" using assms by (simp add: rest_world_def)
  then have d: "distinct (ctx_objects ?c)" using built_ok by (simp add: ctx_ok_def)
  have flag: "?h a = wheap w a" if "a \<noteq> crunning ?c" for a
    using that by (simp add: Running_start_def box_write_def)
  have "resting ?h p" if p: "p \<in> set (cprocesses ?c)" for p
  proof -
    have "crunning ?c \<notin> set (process_objects p)" using d p by (auto simp: ctx_objects_def)
    then show ?thesis
      using assms p flag by (auto simp: rest_world_def resting_def sem_holds_def process_objects_def)
  qed
  with d obtain h' where h': "start_all oc n (cprocesses ?c) ?h = Some h'" "\<forall>p\<in>set (cprocesses ?c). started h' p n"
    "\<And>a. a \<notin> set (concat (map process_objects (cprocesses ?c))) \<Longrightarrow> h' a = ?h a"
    using start_all_started [of "cprocesses ?c" ?h oc n] by (auto simp: ctx_objects_def)
  then have start: "Context_start oc n ?c (wheap w) = Some h'" by (simp add: Context_start_def)
  then have "built ?c h'" using b b_start by blast
  moreover have "\<forall>a. a \<notin> set (ctx_objects ?c) \<longrightarrow> h' a = wheap w a"
    using h'(3) flag by (simp add: ctx_objects_def)
  ultimately show ?thesis using start h'(2) by (auto simp: start_on_def)
qed

text \<open>The children: each gets through its round, or gives no token.\<close>

definition got_through ::
    "(nat \<Rightarrow> work) \<Rightarrow> (nat \<Rightarrow> usize set) \<Rightarrow> u32 \<Rightarrow> shared_value heap \<Rightarrow> shared_value heap \<Rightarrow> nat \<Rightarrow> bool" where
  "got_through works F n h h' k \<longleftrightarrow> (\<exists>h1 h2. (\<forall>a\<in>F k. h1 a = h a) \<and> works k n h1 = Some h2 \<and> (\<forall>a\<in>F k. h' a = h2 a))"

lemma fold_keeps:
  "(\<And>x h. x \<in> set xs \<Longrightarrow> keeps_types h (g x h)) \<Longrightarrow> keeps_types h (fold g xs h)"
  by (induction xs arbitrary: h) (auto intro: keeps_types_trans)

lemma children_started:
  fixes oc :: bool and dead :: "nat \<Rightarrow> bool"
  assumes "built c h" and "\<forall>p\<in>set (cprocesses c). started h p n"
    and own: "own_objects c F" and works: "works_within c works F"
  defines "h' \<equiv> fold (one_child oc works dead) (enumerate 0 (cprocesses c)) h"
  shows "built c h'"
    and "k < length (cprocesses c) \<Longrightarrow> p = cprocesses c ! k \<Longrightarrow>
      \<not> dead k \<and> sem_holds h' (pstart p) 1 0 \<and> sem_holds h' (pready p) 1 1 \<and> h' (piters p) = Some (ItersV 0)
        \<and> got_through works F n h h' k
      \<or> sem_holds h' (pready p) 1 0 \<and> (dead k \<or> (\<exists>h1. (\<forall>a\<in>F k. h1 a = h a) \<and> works k n h1 = None))"
    and "a \<notin> set (ctx_objects c) \<Longrightarrow> (\<And>k. k < length (cprocesses c) \<Longrightarrow> a \<notin> F k) \<Longrightarrow> h' a = h a"
    and "h' (crunning c) = h (crunning c)"
proof -
  let ?xs = "enumerate 0 (cprocesses c)"
  let ?A = "\<lambda>(k, p). set (process_objects p) \<union> F k"
  have mem: "x \<in> set ?xs \<longleftrightarrow> (\<exists>k < length (cprocesses c). x = (k, cprocesses c ! k))" for x
    by (auto simp: in_set_enumerate_eq)
  have d: "distinct (ctx_objects c)" using built_ok [OF assms(1)] by (simp add: ctx_ok_def)
  have stay: "one_child oc works dead x h a = h a" if x: "x \<in> set ?xs" "a \<notin> ?A x" for x h a
  proof -
    obtain k where k: "k < length (cprocesses c)" "x = (k, cprocesses c ! k)" using x(1) mem by blast
    then have "child_round oc (works k) (cprocesses c ! k) h a = h a"
      using x(2) works by (intro child_round_elsewhere [of "F k"]) (simp_all add: works_within_def)
    then show ?thesis using k(2) by (simp add: one_child_def)
  qed
  have apart: "?A x \<inter> ?A y = {}" if xy: "x \<in> set ?xs" "y \<in> set ?xs" "x \<noteq> y" for x y
  proof -
    obtain k j where kj: "k < length (cprocesses c)" "x = (k, cprocesses c ! k)"
      "j < length (cprocesses c)" "y = (j, cprocesses c ! j)" using xy(1,2) mem by auto
    then have "j \<noteq> k" using xy(3) by auto
    with kj own objects_apart(3) [OF d kj(1) kj(3)] objects_apart(4) [OF d kj(1)] objects_apart(4) [OF d kj(3)]
    show ?thesis unfolding own_objects_def by simp blast
  qed
  have "keeps_types h0 (one_child oc works dead x h0)" if x: "x \<in> set ?xs" for x h0
    using x works child_round_keeps by (auto simp: mem one_child_def works_within_def)
  then have "keeps_types h h'" unfolding h'_def by (rule fold_keeps)
  then show "built c h'" using assms(1) b_others by blast
  show "h' a = h a" if "a \<notin> set (ctx_objects c)" "\<And>k. k < length (cprocesses c) \<Longrightarrow> a \<notin> F k" for a
    unfolding h'_def using stay that objects_apart(4) [OF d, THEN subsetD]
    by (intro fold_elsewhere [where A = ?A]) (auto simp: mem)
  show "h' (crunning c) = h (crunning c)"
    unfolding h'_def using stay own objects_apart(2) [OF d]
    by (intro fold_elsewhere [where A = ?A]) (auto simp: mem own_objects_def ctx_objects_def)
  assume k: "k < length (cprocesses c)" and p: "p = cprocesses c ! k"
  have x: "(k, p) \<in> set ?xs" using k p mem by blast
  obtain h0 where h0: "\<forall>a\<in>?A (k, p). h0 a = h a" "\<forall>a\<in>?A (k, p). h' a = one_child oc works dead (k, p) h0 a"
    using fold_own [where A = ?A and g = "one_child oc works dead", OF stay distinct_enumerate apart x, of h] unfolding h'_def by blast
  have pobj: "pstart p \<in> ?A (k, p)" "pready p \<in> ?A (k, p)" "piters p \<in> ?A (k, p)"
    by (simp_all add: process_objects_def)
  have st: "started h0 p n" using h0(1) assms(2) pobj k p by (simp add: started_def sem_holds_def)
  have res: "sem_holds h' b m v \<longleftrightarrow> sem_holds (one_child oc works dead (k, p) h0) b m v" if "b \<in> ?A (k, p)" for b m v
    using h0(2) that by (simp add: sem_holds_def)
  show "\<not> dead k \<and> sem_holds h' (pstart p) 1 0 \<and> sem_holds h' (pready p) 1 1 \<and> h' (piters p) = Some (ItersV 0)
        \<and> got_through works F n h h' k
      \<or> sem_holds h' (pready p) 1 0 \<and> (dead k \<or> (\<exists>h1. (\<forall>a\<in>F k. h1 a = h a) \<and> works k n h1 = None))"
  proof (cases "dead k")
    case True
    then show ?thesis using st res [OF pobj(2)] by (simp add: one_child_def started_def)
  next
    case False
    have dp: "distinct (process_objects p)" using objects_apart(1) [OF d k] p by simp
    have within: "within_own (F k) (works k)" using works k by (simp add: works_within_def)
    have Fk: "F k \<inter> set (process_objects p) = {}"
      using own k objects_apart(4) [OF d k] p unfolding own_objects_def by blast
    have run: "one_child oc works dead (k, p) h0 = child_round oc (works k) p h0"
      using False by (simp add: one_child_def)
    have F0: "h0 a = h a" if "a \<in> F k" for a using h0(1) that by simp
    have out: "a \<notin> set (process_objects p)" if "a \<in> F k" for a using Fk that by blast
    from st dp within Fk show ?thesis
    proof (cases rule: child_round_started [where h = h0 and p = p and n = n and F = "F k" and work = "works k" and oc = oc])
      case (through h1 h2)
      have "\<forall>a\<in>F k. h1 a = h a" using through(1) out F0 by simp
      moreover have "\<forall>a\<in>F k. h' a = h2 a" using through(6) h0(2) run by simp
      ultimately have "got_through works F n h h' k" using through(2) unfolding got_through_def by blast
      then show ?thesis using through False res pobj h0(2) run by simp
    next
      case (stuck h1)
      have "\<forall>a\<in>F k. h1 a = h a" using stuck(1) out F0 by simp
      then show ?thesis using stuck res [OF pobj(2)] run by auto
    qed
  qed
qed

text \<open>
  The whole round. When \<open>wait\<close> succeeds every child is alive and its work went through; the world
  is at rest again, and nothing has changed but what the children's work did to its own objects.
\<close>

lemma round_ok:
  assumes rest: "rest_world w" and own: "own_objects (wctx w) F" and works: "works_within (wctx w) works F"
    and run: "start_on oc n w = Some (Inr ((), w1))" "children_on oc works a w1 = Some (Inr ((), w2))"
      "wait_on oc a' w2 = Some (Inr (Inr u, w3))"
  shows "rest_world w3" and "wctx w3 = wctx w" and "wmade w3 = wmade w" and "wround w3 = wround w \<and> wturn w3 = wturn w"
    and "k < length (cprocesses (wctx w)) \<Longrightarrow> \<not> dies a k \<and> got_through works F n (wheap w) (wheap w3) k"
proof -
  let ?c = "wctx w" and ?kps = "enumerate 0 (cprocesses (wctx w))"
  obtain h1 where h1: "w1 = w\<lparr>wheap := h1\<rparr>" "built ?c h1" "\<forall>p\<in>set (cprocesses ?c). started h1 p n"
    "\<And>b. b \<notin> set (ctx_objects ?c) \<Longrightarrow> h1 b = wheap w b"
    using start_on_rest [OF rest, of oc n] run(1) by auto
  define h2 where "h2 = fold (one_child oc works (dies a)) ?kps h1"
  have w2: "w2 = w\<lparr>wheap := h2\<rparr>" using run(2) by (auto simp: children_on_def comp_simps h1(1) h2_def)
  note kids = children_started [where oc = oc and dead = "dies a", OF h1(2,3) own works, folded h2_def]
  obtain h3 where h3: "wait_each oc (crunning ?c) (alive_says a') ?kps h2 = Some (Inr (), h3)" "w3 = w\<lparr>wheap := h3\<rparr>"
    using run(3) by (auto simp: wait_on_def w2 split: option.splits)
  have mem: "x \<in> set ?kps \<longleftrightarrow> (\<exists>k < length (cprocesses ?c). x = (k, cprocesses ?c ! k))" for x
    by (auto simp: in_set_enumerate_eq)
  have d: "distinct (ctx_objects ?c)" using built_ok [OF h1(2)] by (simp add: ctx_ok_def)
  have readys: "distinct (map (\<lambda>x. pready (snd x)) ?kps)" "\<forall>x\<in>set ?kps. pready (snd x) \<noteq> crunning ?c"
    using readys_apart(1) [OF d] readys_apart(2) [OF d]
    by (auto simp: mem simp flip: map_map [unfolded comp_def])
  note wait = wait_each_ok [OF h3(1) readys]
  show "wctx w3 = ?c" "wmade w3 = wmade w" "wround w3 = wround w \<and> wturn w3 = wturn w" using h3(2) by simp_all
  have through: "\<not> dies a k \<and> sem_holds h2 (pstart p) 1 0 \<and> sem_holds h2 (pready p) 1 1 \<and> h2 (piters p) = Some (ItersV 0)
      \<and> got_through works F n h1 h2 k" if k: "k < length (cprocesses ?c)" "p = cprocesses ?c ! k" for k p
  proof -
    have "(k, p) \<in> set ?kps" using mem k by blast
    then have "\<not> sem_holds h2 (pready p) 1 0" using wait by fastforce
    then show ?thesis using kids(2) [OF k] by blast
  qed
  have other: "h3 b = h2 b" if "b \<noteq> crunning ?c" "\<forall>p\<in>set (cprocesses ?c). pready p \<noteq> b" for b
  proof -
    have "\<forall>x\<in>set ?kps. pready (snd x) \<noteq> b" using that(2) mem by auto
    then show ?thesis using wait that(1) by blast
  qed
  have "keeps_types h2 h3" using h3(1) built_ok [OF kids(1)]
    by (intro wait_each_keeps) (auto simp: ctx_ok_def ctx_typed_def)
  then have "built ?c h3" using kids(1) b_others by blast
  moreover have "resting h3 p" if p: "p \<in> set (cprocesses ?c)" for p
  proof -
    obtain k where k: "k < length (cprocesses ?c)" "p = cprocesses ?c ! k" using p by (metis in_set_conv_nth)
    have "(k, p) \<in> set ?kps" using mem k by blast
    then have "sem_holds h3 (pready p) 1 0" using wait through [OF k] by fastforce
    moreover have "h3 (pstart p) = h2 (pstart p)" "h3 (piters p) = h2 (piters p)"
      using readys_apart(3) [OF d p] d p by (auto intro!: other simp: ctx_objects_def process_objects_def)
    ultimately show ?thesis using through [OF k] by (simp add: resting_def sem_holds_def)
  qed
  ultimately show "rest_world w3" using h3(2) by (simp add: rest_world_def)
  show "\<not> dies a k \<and> got_through works F n (wheap w) (wheap w3) k" if k: "k < length (cprocesses ?c)"
  proof -
    have out: "b \<notin> set (ctx_objects ?c)" if "b \<in> F k" for b using own k that by (auto simp: own_objects_def)
    have "h3 b = h2 b" if "b \<in> F k" for b
      using out [OF that] by (intro other) (auto simp: ctx_objects_def process_objects_def)
    moreover have "wheap w b = h1 b" if "b \<in> F k" for b using h1(4) out that by simp
    ultimately show ?thesis using through [OF k refl] h3(2) by (simp add: got_through_def)
  qed
qed

text \<open>And it succeeds when no child dies and all their work goes through.\<close>

lemma round_through:
  assumes rest: "rest_world w" and own: "own_objects (wctx w) F" and works: "works_within (wctx w) works F"
    and live: "\<And>k. k < length (cprocesses (wctx w)) \<Longrightarrow> \<not> dies a k"
    and pass: "\<And>k h. k < length (cprocesses (wctx w)) \<Longrightarrow> \<forall>b\<in>F k. h b = wheap w b \<Longrightarrow> works k n h \<noteq> None"
  shows "\<exists>w1 w2 w3. start_on oc n w = Some (Inr ((), w1)) \<and> children_on oc works a w1 = Some (Inr ((), w2))
    \<and> wait_on oc a' w2 = Some (Inr (Inr (), w3))"
proof -
  let ?c = "wctx w" and ?kps = "enumerate 0 (cprocesses (wctx w))"
  obtain h1 where h1: "start_on oc n w = Some (Inr ((), w\<lparr>wheap := h1\<rparr>))" "built ?c h1"
    "\<forall>p\<in>set (cprocesses ?c). started h1 p n" "\<And>b. b \<notin> set (ctx_objects ?c) \<Longrightarrow> h1 b = wheap w b"
    using start_on_rest [OF rest, of oc n] by auto
  define h2 where "h2 = fold (one_child oc works (dies a)) ?kps h1"
  have kids: "children_on oc works a (w\<lparr>wheap := h1\<rparr>) = Some (Inr ((), w\<lparr>wheap := h2\<rparr>))"
    by (simp add: children_on_def update_comp_def h2_def)
  have d: "distinct (ctx_objects ?c)" using built_ok [OF h1(2)] by (simp add: ctx_ok_def)
  have token: "sem_holds h2 (pready p) 1 1" if k: "k < length (cprocesses ?c)" "p = cprocesses ?c ! k" for k p
  proof -
    have "b \<notin> set (ctx_objects ?c)" if "b \<in> F k" for b using own k that by (auto simp: own_objects_def)
    then have "\<forall>b\<in>F k. h b = wheap w b" if "\<forall>b\<in>F k. h b = h1 b" for h using h1(4) that by simp
    then show ?thesis
      using children_started(2) [where oc = oc and dead = "dies a", OF h1(2,3) own works k, folded h2_def]
        live [OF k(1)] pass [OF k(1)] by blast
  qed
  have "\<forall>x\<in>set ?kps. sem_holds h2 (pready (snd x)) 1 1" using token by (auto simp: in_set_enumerate_eq)
  moreover have "distinct (map (\<lambda>x. pready (snd x)) ?kps)" "\<forall>x\<in>set ?kps. pready (snd x) \<noteq> crunning ?c"
    using readys_apart(1) [OF d] readys_apart(2) [OF d]
    by (auto simp: in_set_enumerate_eq simp flip: map_map [unfolded comp_def])
  ultimately obtain h3 where "wait_each oc (crunning ?c) (alive_says a') ?kps h2 = Some (Inr (), h3)"
    using wait_each_succeeds by blast
  then have "wait_on oc a' (w\<lparr>wheap := h2\<rparr>) = Some (Inr (Inr (), w\<lparr>wheap := h3\<rparr>))"
    by (simp add: wait_on_def)
  then show ?thesis using h1(1) kids by blast
qed

section \<open>Setting up\<close>

definition good_layouts :: "layouts \<Rightarrow> bool" where
  "good_layouts L \<longleftrightarrow> object_layout (l_flag L) \<and> object_layout (l_sem L) \<and> object_layout (l_u32 L)
     \<and> object_layout (l_bench_sem L)"

text \<open>The mapping of the context lies in the lower half of the address space.\<close>

definition low_mapping :: "bool \<Rightarrow> memfd_env \<Rightarrow> layouts \<Rightarrow> kernel \<Rightarrow> bool" where
  "low_mapping oc env L k \<longleftrightarrow> (\<forall>c k' h. Context_create oc env (l_flag L) (k, Map.empty) = (Inr (Inr c), k', h) \<longrightarrow>
     unat (data (bmem (callocator c))) + unat (fsize (bmem (callocator c))) < 2 ^ 63)"

text \<open>Objects the case allocated for itself, with their values.\<close>

definition holds :: "world \<Rightarrow> (usize \<times> shared_value) list \<Rightarrow> bool" where
  "holds w xs \<longleftrightarrow> distinct (map fst xs)
     \<and> (\<forall>x\<in>set xs. wheap w (fst x) = Some (snd x) \<and> fst x \<notin> set (ctx_objects (wctx w)))"

lemma with_context_rest:
  assumes "with_context oc env L k made rounds body = Some (Inr (Inr (), w))"
    and "good_layouts L" and "low_mapping oc env L k"
  obtains w0 w' where "w = Some w'" and "body w0 = Some (Inr (Inr (), w'))" and "rest_world w0"
    and "cprocesses (wctx w0) = []" and "wmade w0 = made" and "wround w0 = rounds" and "wturn w0 = 0"
proof -
  obtain c k' h where c: "Context_create oc env (l_flag L) (k, Map.empty) = (Inr (Inr c), k', h)"
    using assms(1) by (auto simp: with_context_def split: prod.splits sum.splits)
  have "built c h"
    using b_create [OF c] assms(2,3) c by (auto simp: good_layouts_def low_mapping_def)
  moreover have "cprocesses c = []"
    using c by (auto simp: Context_create_def split: prod.splits sum.splits)
  ultimately show thesis
    using assms(1) that [of _ "\<lparr>wctx = c, wheap = h, wmade = made, wround = rounds, wturn = 0\<rparr>"]
    by (auto simp: with_context_def c rest_world_def split: option.splits sum.splits)
qed

lemma allocate_rest:
  assumes "allocate_on oc l v w = Some (Inr (Inr a, w'))" and "rest_world w" and "object_layout l"
    and "holds w xs"
  shows "rest_world w' \<and> cprocesses (wctx w') = cprocesses (wctx w) \<and> wround w' = wround w \<and> wturn w' = wturn w
    \<and> holds w' ((a, v) # xs)"
proof -
  let ?c = "wctx w"
  have b: "built ?c (wheap w)" using assms(2) by (simp add: rest_world_def)
  then have ok: "heap_ok (callocator ?c, wheap w)" "ctx_typed ?c (wheap w)" using built_ok by (auto simp: ctx_ok_def)
  obtain b' h' where box: "Context_allocate oc l v (callocator ?c, wheap w) = Inr (Inr a, b', h')"
    and w': "w' = w\<lparr>wctx := ?c\<lparr>callocator := b'\<rparr>, wheap := h'\<rparr>"
    using assms(1) by (auto simp: allocate_on_def bind_sum_def split: sum.splits)
  have fresh: "a \<notin> dom (wheap w)" "h' = (wheap w)(a \<mapsto> v)"
    using box_new_fresh [OF box [unfolded Context_allocate_def] ok(1) assms(3)] by simp_all
  have dom: "set (ctx_objects ?c) \<subseteq> dom (wheap w)" using ctx_typed_dom [OF ok(2)] .
  have same: "ctx_objects (wctx w') = ctx_objects ?c" by (simp add: w' ctx_objects_def)
  have "resting h' p" if p: "p \<in> set (cprocesses ?c)" for p
  proof -
    have "set (process_objects p) \<subseteq> dom (wheap w)" using dom p by (auto simp: ctx_objects_def)
    then have "a \<notin> set (process_objects p)" using fresh(1) by blast
    then show ?thesis using assms(2) p fresh(2)
      by (auto simp: rest_world_def resting_def sem_holds_def process_objects_def)
  qed
  then have "rest_world w'" using b_allocate [OF b assms(3) box] by (simp add: rest_world_def w')
  moreover have "holds w' ((a, v) # xs)"
  proof -
    have out: "a \<noteq> fst x" if "x \<in> set xs" for x using fresh(1) that assms(4) by (auto simp: holds_def)
    then have "a \<notin> fst ` set xs" by auto
    moreover have "a \<notin> set (ctx_objects ?c)" using fresh(1) dom by blast
    ultimately show ?thesis
      using assms(4) fresh(2) out unfolding holds_def same by (simp add: w') blast
  qed
  ultimately show ?thesis by (simp add: w')
qed

lemma result_case_iff:
  "(case r of Inl e \<Rightarrow> Inr (Inl (g e), st) | Inr a \<Rightarrow> f a) = Inr (Inr p, st') \<longleftrightarrow> (\<exists>a. r = Inr a \<and> f a = Inr (Inr p, st'))"
  by (cases r) auto

text \<open>What \<open>Process::create\<close> puts into the shared memory.\<close>

lemma process_create_values:
  assumes "Process_create oc cg ls li m run rdy (b, h) = Inr (Inr p, b', h')" and "heap_ok (b, h)"
    and "object_layout ls" and "object_layout li"
  shows "h' = h(pstart p \<mapsto> SemV m, pready p \<mapsto> SemV m, piters p \<mapsto> ItersV 0)
    \<and> distinct (process_objects p) \<and> set (process_objects p) \<inter> dom h = {}"
proof -
  obtain a1 b1 h1 a2 b2 h2 a3 where box1: "SharedBox_new oc ls (SemV m) (b, h) = Inr (Inr a1, b1, h1)"
    and box2: "SharedBox_new oc ls (SemV m) (b1, h1) = Inr (Inr a2, b2, h2)"
    and box3: "SharedBox_new oc li (ItersV 0) (b2, h2) = Inr (Inr a3, b', h')"
    and p: "pstart p = a1" "pready p = a2" "piters p = a3"
    using assms(1) by (auto simp: Process_create_def bind_sum_Inr_iff result_case_iff)
  note n1 = box_new_fresh [OF box1 assms(2,3)]
  note n2 = box_new_fresh [OF box2 n1 [THEN conjunct1] assms(3)]
  note n3 = box_new_fresh [OF box3 n2 [THEN conjunct1] assms(4)]
  show ?thesis using n1 n2 n3 by (auto simp: p process_objects_def)
qed

lemma process_rest:
  assumes "process_on oc L w = Some (Inr (Inr pid, w'))" and "rest_world w" and "good_layouts L"
    and "holds w xs"
  shows "rest_world w' \<and> length (cprocesses (wctx w')) = Suc (length (cprocesses (wctx w)))
    \<and> wround w' = wround w \<and> wturn w' = wturn w \<and> holds w' xs"
proof -
  let ?c = "wctx w" and ?m = "Semaphore_new 1 [] 0"
  have b: "built ?c (wheap w)" using assms(2) by (simp add: rest_world_def)
  then have ok: "heap_ok (callocator ?c, wheap w)" "ctx_typed ?c (wheap w)" using built_ok by (auto simp: ctx_ok_def)
  obtain cg run p b' h' where
    box: "Process_create oc cg (l_sem L) (l_u32 L) ?m run (Inr ()) (callocator ?c, wheap w) = Inr (Inr p, b', h')"
    and w': "w' = w\<lparr>wctx := snd (Context_add p (?c\<lparr>callocator := b'\<rparr>)), wheap := h'\<rparr>"
    using assms(1) unfolding process_on_def
    by (auto simp: comp_simps Let_def split: sum.splits option.splits prod.splits)
  have lay: "object_layout (l_sem L)" "object_layout (l_u32 L)" using assms(3) by (simp_all add: good_layouts_def)
  note new = process_create_values [OF box ok(1) lay]
  have dom: "set (ctx_objects ?c) \<subseteq> dom (wheap w)" using ctx_typed_dom [OF ok(2)] .
  have ctx': "cprocesses (wctx w') = cprocesses ?c @ [p]" "crunning (wctx w') = crunning ?c"
    by (simp_all add: w' Context_add_def Let_def)
  have old: "h' x = wheap w x" if "x \<in> dom (wheap w)" for x
    using new that by (auto simp: process_objects_def)
  have "resting h' q" if q: "q \<in> set (cprocesses ?c)" for q
  proof -
    have "set (process_objects q) \<subseteq> dom (wheap w)" using dom q by (auto simp: ctx_objects_def)
    then show ?thesis using assms(2) q old
      by (auto simp: rest_world_def resting_def sem_holds_def process_objects_def)
  qed
  moreover have "resting h' p"
    using new by (auto simp: resting_def sem_holds_def process_objects_def Semaphore_new_def WAITER_def)
  ultimately have "rest_world w'"
    using b_process [OF b lay box] ctx'(1) by (auto simp: rest_world_def w' Context_add_def Let_def)
  moreover have "holds w' xs"
  proof -
    have at: "fst x \<in> dom (wheap w)" if "x \<in> set xs" for x using that assms(4) by (auto simp: holds_def)
    then have "fst x \<notin> set (process_objects p)" if "x \<in> set xs" for x using new that by blast
    moreover have "set (ctx_objects (wctx w')) = set (ctx_objects ?c) \<union> set (process_objects p)"
      by (auto simp: ctx_objects_def ctx')
    ultimately show ?thesis
      using assms(4) old [OF at] unfolding holds_def by (simp add: w')
  qed
  ultimately show ?thesis using ctx'(1) by (simp add: w')
qed

lemma each_comp_inv:
  assumes "each_comp f xs s = Some (Inr (Inr ys, s'))" and "I acc s"
    and "\<And>x acc s y s'. I acc s \<Longrightarrow> f x s = Some (Inr (Inr y, s')) \<Longrightarrow> I (acc @ [y]) s'"
  shows "I (acc @ ys) s' \<and> length ys = length xs"
  using assms(1,2)
proof (induction xs arbitrary: s ys acc)
  case (Cons x xs)
  then obtain y s1 zs where y: "f x s = Some (Inr (Inr y, s1))" "each_comp f xs s1 = Some (Inr (Inr zs, s'))"
    "ys = y # zs" by (auto simp: comp_simps)
  from Cons.IH [OF y(2) assms(3) [OF Cons.prems(2) y(1)]] show ?case by (simp add: y(3))
qed (simp add: comp_simps)

text \<open>A measurement takes the next answers and runs its body.\<close>

lemma measured_returns:
  "measured body iters w = Some (Inr ((r, el), w')) \<longleftrightarrow> el = took (wround w (wturn w)) iters
    \<and> body iters (wround w (wturn w)) (w\<lparr>wturn := Suc (wturn w)\<rparr>) = Some (Inr (r, w'))"
  by (auto simp: measured_def comp_simps answers_on_def)

end
