(* ===== verification/Demo.thy ===== *)
theory Demo
  imports Tests WorldProps
begin

text \<open>
  A small machine, on which the whole cases can be tried: a context in a mapping of one gigabyte,
  children that become ready at once and live, and two measurements, of a tenth of a second and
  of a second.
\<close>

section \<open>A machine to try things on\<close>

definition quiet_round :: "nat \<Rightarrow> answers_to" where
  "quiet_round t = \<lparr>dies = (\<lambda>_. False), alive_says = (\<lambda>_. []), seen_on = (\<lambda>_ _. 0),
     stats_before = (\<lambda>_. Inr stats_default), stats_after = (\<lambda>_. Inr stats_default),
     sampled = (\<lambda>_. ReservoirSampler_new 0), clock_reads = [], took = (\<lambda>_. t)\<rparr>"

lemma quiet_round_simps [simp]:
  "\<not> dies (quiet_round t) k" "took (quiet_round t) n = t" "alive_says (quiet_round t) k = []"
  by (simp_all add: quiet_round_def)

lemma quiet_stats [simp]:
  "map_sum id nr_migrations (stats_before (quiet_round t) pid) = Inr 0"
  "map_sum id nr_migrations (stats_after (quiet_round t) pid) = Inr 0"
  by (simp_all add: quiet_round_def stats_default_def)

definition ready_child :: creation where
  "ready_child = \<lparr>made_cgroup = Inr ''/x'', made_child = Inr demo_child, made_wait = [(True, True)]\<rparr>"

definition demo_layouts :: layouts where
  "demo_layouts = \<lparr>l_flag = layout_b, l_sem = layout_b, l_u32 = layout_b, l_bench_sem = layout_b\<rparr>"

lemma demo_good: "good_layouts demo_layouts"
  by (simp add: good_layouts_def demo_layouts_def object_layout_b)

lemma demo_create:
  "Context_create True env_ok layout_b (kernel_stdio, Map.empty)
    = (Inr (Inr \<lparr>callocator = \<lparr>bmem = \<lparr>fd = 3, data = 0x70000000, fsize = 0x40000000\<rparr>, next_off = 64\<rparr>,
        crunning = 0x70000000, cprocesses = []\<rparr>),
       \<lparr>open_fds = {0, 1, 2, 3}, mappings = {(0x70000000, 0x40000000)}\<rparr>, [0x70000000 \<mapsto> FlagV False])"
proof -
  have "MemFd_create True env_ok ''context'' TOTAL_SIZE kernel_stdio
      = (Inr (Inr \<lparr>fd = 3, data = 0x70000000, fsize = 0x40000000\<rparr>),
         \<lparr>open_fds = {0, 1, 2, 3}, mappings = {(0x70000000, 0x40000000)}\<rparr>)"
    by (simp add: memfd_defs env_ok_def kernel_stdio_def round_up_def add_ck_def sub_ck_def
        TOTAL_SIZE_def insert_commute)
  moreover have "alloc True layout_b \<lparr>bmem = \<lparr>fd = 3, data = 0x70000000, fsize = 0x40000000\<rparr>, next_off = 0\<rparr>
      = Inr (Some 0x70000000, \<lparr>bmem = \<lparr>fd = 3, data = 0x70000000, fsize = 0x40000000\<rparr>, next_off = 64\<rparr>)"
    by (simp add: alloc_def alloc_target_def round_up_def add_ck_def sub_ck_def layout_b_def)
  ultimately show ?thesis
    by (simp add: Context_create_def BumpAllocator_new_def SharedBox_new_def)
qed

lemma demo_low: "low_mapping True env_ok demo_layouts kernel_stdio"
  by (simp add: low_mapping_def demo_layouts_def demo_create)

text \<open>As long as little of the gigabyte is used, there is room.\<close>

definition roomy :: "nat \<Rightarrow> world \<Rightarrow> bool" where
  "roomy k w \<longleftrightarrow> fsize (bmem (callocator (wctx w))) = 0x40000000 \<and> unat (next_off (callocator (wctx w))) \<le> k"

lemma demo_alloc:
  assumes "fsize (bmem b) = 0x40000000" and "unat (next_off b) \<le> k" and "k \<le> 2 ^ 20"
  shows "\<exists>p b'. alloc True layout_b b = Inr (Some p, b') \<and> fsize (bmem b') = 0x40000000 \<and> unat (next_off b') \<le> k + 80"
proof -
  have n: "unat (next_off b) \<le> 2 ^ 20" using assms(2,3) by linarith
  have "is_pow2 (lalign layout_b)" "unat (next_off b) + unat (lalign layout_b) < 2 ^ 64"
    using n is_pow2_small by (simp_all add: layout_b_def)
  from round_up_ok [OF this, of True] obtain r where r: "round_up True (next_off b) (lalign layout_b) = Inr r"
    "unat r < unat (next_off b) + unat (lalign layout_b)" by blast
  have "unat r + unat (lsize layout_b) < 2 ^ LENGTH(64)" using r(2) n by (simp add: layout_b_def)
  note e = add_ck_ok [OF this, of True] unat_add_no_overflow [OF this]
  have le: "unat (r + lsize layout_b) \<le> k + 80" using e(2) r(2) assms(2) by (simp add: layout_b_def)
  then have "\<not> (0x40000000 :: usize) < r + lsize layout_b" using assms(3) by (simp add: word_less_nat_alt)
  then have "alloc True layout_b b = Inr (Some (data (bmem b) + r), b\<lparr>next_off := r + lsize layout_b\<rparr>)"
    using r(1) e(1) assms(1) by (simp add: alloc_def alloc_target_def)
  then show ?thesis using le assms(1) by simp
qed

lemma allocate_through:
  assumes "roomy k w" and "k \<le> 2 ^ 20"
  shows "\<exists>a w'. allocate_on True layout_b v w = Some (Inr (Inr a, w')) \<and> roomy (k + 80) w'
    \<and> wmade w' = wmade w"
proof -
  obtain p b' where "alloc True layout_b (callocator (wctx w)) = Inr (Some p, b')" "fsize (bmem b') = 0x40000000"
    "unat (next_off b') \<le> k + 80" using demo_alloc [of "callocator (wctx w)" k] assms by (auto simp: roomy_def)
  then show ?thesis by (simp add: allocate_on_def Context_allocate_def SharedBox_new_def roomy_def)
qed

lemma process_through:
  assumes "roomy k w" and "k + 240 \<le> 2 ^ 20" and "wmade w = (\<lambda>_. ready_child)"
  shows "\<exists>pid w'. process_on True demo_layouts w = Some (Inr (Inr pid, w')) \<and> roomy (k + 240) w' \<and> wmade w' = wmade w"
proof -
  let ?b = "callocator (wctx w)"
  obtain p1 b1 where b1: "alloc True layout_b ?b = Inr (Some p1, b1)" "fsize (bmem b1) = 0x40000000"
    "unat (next_off b1) \<le> k + 80" using demo_alloc [of ?b k] assms(1,2) by (auto simp: roomy_def)
  obtain p2 b2 where b2: "alloc True layout_b b1 = Inr (Some p2, b2)" "fsize (bmem b2) = 0x40000000"
    "unat (next_off b2) \<le> k + 80 + 80" using demo_alloc [OF b1(2,3)] assms(2) by auto
  obtain p3 b3 where b3: "alloc True layout_b b2 = Inr (Some p3, b3)" "fsize (bmem b3) = 0x40000000"
    "unat (next_off b3) \<le> k + 80 + 80 + 80" using demo_alloc [OF b2(2,3)] assms(2) by auto
  show ?thesis
    using b1 b2 b3
    by (simp add: process_on_def assms(3) Process_create_def SharedBox_new_def ready_child_def demo_layouts_def
        give_def roomy_def Context_add_def Let_def)
qed

lemma spinners_through:
  assumes "roomy k w" and "k + 80 * length xs \<le> 2 ^ 20"
  shows "\<exists>ys w'. each_comp (\<lambda>_. allocate_on True layout_b v) xs w = Some (Inr (Inr ys, w'))
    \<and> roomy (k + 80 * length xs) w' \<and> wmade w' = wmade w"
  using assms
proof (induction xs arbitrary: k w)
  case (Cons x xs)
  obtain a w1 where w1: "allocate_on True layout_b v w = Some (Inr (Inr a, w1))" "roomy (k + 80) w1" "wmade w1 = wmade w"
    using allocate_through [of k w v] Cons.prems by auto
  obtain ys w2 where w2: "each_comp (\<lambda>_. allocate_on True layout_b v) xs w1 = Some (Inr (Inr ys, w2))"
    "roomy (k + 80 + 80 * length xs) w2" "wmade w2 = wmade w1"
    using Cons.IH [OF w1(2)] Cons.prems(2) by auto
  then show ?case using w1 by (simp add: comp_simps algebra_simps)
qed (simp add: give_def)

definition demo_world :: "(nat \<Rightarrow> answers_to) \<Rightarrow> world" where
  "demo_world rounds = \<lparr>wctx = \<lparr>callocator = \<lparr>bmem = \<lparr>fd = 3, data = 0x70000000, fsize = 0x40000000\<rparr>, next_off = 64\<rparr>,
      crunning = 0x70000000, cprocesses = []\<rparr>, wheap = [0x70000000 \<mapsto> FlagV False], wmade = (\<lambda>_. ready_child),
      wround = rounds, wturn = 0\<rparr>"

lemma demo_start:
  "with_context True env_ok demo_layouts kernel_stdio (\<lambda>_. ready_child) rounds body
    = (case body (demo_world rounds) of
        None \<Rightarrow> None
      | Some (Inl p) \<Rightarrow> Some (Inl p)
      | Some (Inr (r, w)) \<Rightarrow> Some (Inr (r, Some w)))"
  by (simp add: with_context_def demo_create demo_layouts_def demo_world_def)

lemma demo_world_ok:
  "rest_world (demo_world rounds)" "cprocesses (wctx (demo_world rounds)) = []" "roomy 64 (demo_world rounds)"
  "wmade (demo_world rounds) = (\<lambda>_. ready_child)" "wround (demo_world rounds) = rounds" "wturn (demo_world rounds) = 0"
  using b_create [OF demo_create object_layout_b] by (simp_all add: rest_world_def demo_world_def roomy_def)

definition two_rounds :: "nat \<Rightarrow> answers_to" where
  "two_rounds k = (if k = 0 then quiet_round (10 ^ 8) else quiet_round (10 ^ 9))"

text \<open>A loop that misses the target with a count of one, and then makes it with ten.\<close>

lemma demo_target: "f_le the_target (Fin 1)"
proof -
  have "f_le (rnd (95 / 100)) (rnd 1)" by (rule rnd_mono) simp
  then show ?thesis using rnd_nat [of 1] by (simp add: the_target_def f_of_nat_def)
qed

lemma demo_passes: "check_target (Fin 1) the_target msg = Inr ()"
  using demo_target by (simp add: check_target_def f_lt_def)

lemma demo_converge:
  assumes first: "f 1 w = Some (Inr ((Inr v, 10 ^ 8), w2))" and "\<not> f_le the_target v"
    and second: "f 10 w2 = Some (Inr ((Inr (Fin 1), 10 ^ 9), w3))"
  shows "converge_macro_on True (10 ^ 9) (30 * 10 ^ 9) the_target f w = Some (Inr (Fin 1, w3))"
proof -
  have fl: "rnd 10 = Fin 10" "rnd 1 = Fin 1" "rnd 1000000000 = Fin 1000000000" "rnd 100000000 = Fin 100000000"
    using rnd_nat [of 10] rnd_nat [of 1] rnd_nat [of 1000000000] rnd_nat [of 100000000]
    by (simp_all add: f_of_nat_def)
  have two: "add_ck True (1 :: u32) 1 = Inr 2" by (simp add: add_ck_def)
  have "grow_iters True (10 ^ 9) (10 ^ 8) 1 = Inr 10"
    by (simp add: grow_iters_def scaled_iters_def two f_of_nat_def fl f_to_uint_def saturating_mul_def)
  moreover have "(1 :: u32) < half_max" by (simp add: word_less_nat_alt unat_half_max)
  ultimately have "converge_round True (10 ^ 9) (30 * 10 ^ 9) the_target (\<lambda>_. (Inr v, 10 ^ 8)) 1 = Inr (Again 10)"
    using assms(2) by (simp add: converge_round_def)
  moreover have "converge_round True (10 ^ 9) (30 * 10 ^ 9) the_target (\<lambda>_. (Inr (Fin 1), 10 ^ 9)) 10
      = Inr (Return (Inr (Fin 1)))"
    using demo_target by (simp add: converge_round_def)
  ultimately have "converge_from True (10 ^ 9) (30 * 10 ^ 9) the_target f 1 w = Some (Inr (Inr (Fin 1), w3))"
    using first second by (simp add: converge_from.simps [of _ _ _ _ _ 1] converge_from.simps [of _ _ _ _ _ 10])
  then show ?thesis
    using demo_target by (simp add: converge_macro_on_def converge_on_def or_default_def comp_simps)
qed

text \<open>The topology of a machine with one core.\<close>

definition one_core :: system where
  "one_core = System_new [Node_new 0 [CoreComplex_new 0 [Core_new 0 [Hyperthread_new 0]]]]"

lemma one_core_shape: "all_cores one_core = [Core_new 0 [Hyperthread_new 0]]"
  by (simp add: one_core_def System_new_def Node_cores_def Node_new_def CoreComplex_new_def)

end
