(* ===== verification/Come.thy ===== *)
theory Come
  imports Demo
begin

text \<open>
  \<open>come_together\<close> as it runs (\<open>cases/topology.rs\<close>): what its setup builds, what its measurements hand
  out, and what it takes for it to pass.
\<close>

section \<open>The rounds of come_together\<close>

text \<open>Between rounds: every process has its semaphore, of maximum \<open>m\<close>, with the same amount.\<close>

definition come_inv :: "(usize list \<times> usize) list \<Rightarrow> u32 \<Rightarrow> nat \<Rightarrow> world \<Rightarrow> bool" where
  "come_inv made m fill w \<longleftrightarrow> rest_world w \<and> length (cprocesses (wctx w)) = length made
     \<and> distinct (map snd made) \<and> snd ` set made \<inter> set (ctx_objects (wctx w)) = {}
     \<and> (\<forall>k < length made. \<exists>c. sem_holds (wheap w) (snd (made ! k)) m c \<and> unat c = fill)"

definition come_own :: "(usize list \<times> usize) list \<Rightarrow> nat \<Rightarrow> usize set" where
  "come_own made k = {snd (made ! k)}"

lemma come_inv_own:
  assumes "come_inv made m fill w"
  shows "own_objects (wctx w) (come_own made)" and "works_within (wctx w) (come_work oc made) (come_own made)"
proof -
  have "snd (made ! k) \<noteq> snd (made ! j)" if "k < length made" "j < length made" "j \<noteq> k" for k j
    using assms that nth_eq_iff_index_eq [of "map snd made" k j] by (simp add: come_inv_def)
  then show "own_objects (wctx w) (come_own made)"
    using assms nth_mem unfolding own_objects_def come_own_def come_inv_def by fastforce
  show "works_within (wctx w) (come_work oc made) (come_own made)"
    by (auto simp: works_within_def within_own_def typed_work_def come_work_def come_own_def
        call_at_elsewhere dest: call_at_keeps)
qed

lemma set_looks_none: "unat iters < 10 \<or> sets = 0 \<Longrightarrow> set_looks a sets n iters = []"
  by (auto simp: set_looks_def unat_div)

lemma come_body_nan:
  assumes "come_body oc s made iters a w = Some (Inr (Inr v, w'))" and "unat iters < 10 \<or> made = []"
  shows "v = NaN"
proof -
  have "set_looks a (length made) n iters = []" for n using assms(2) by (intro set_looks_none) auto
  then show ?thesis using assms(1) by (auto simp: come_body_def comp_simps f_sub_def inf_of_sign_def)
qed

text \<open>
  A measurement that returns a metric: the count fits under what every semaphore still takes;
  and with a count below ten nothing has been looked at, and the metric is not a number.
\<close>

lemma come_body_ok:
  assumes inv: "come_inv made m fill w" and run: "come_body oc s made iters a w = Some (Inr (Inr v, w'))"
    and small: "unat iters < 2 ^ 31" "fill < 2 ^ 31" and "made \<noteq> []"
  shows "come_inv made m (fill + unat iters) w'" and "fill + unat iters \<le> unat m"
    and "wround w' = wround w \<and> wturn w' = wturn w" and "unat iters < 10 \<Longrightarrow> v = NaN"
proof -
  let ?c = "wctx w"
  obtain w1 w2 b n where steps: "start_on oc iters w = Some (Inr ((), w1))"
    "children_on oc (come_work oc made) a w1 = Some (Inr ((), w2))"
    "count_sets oc (complex_of_cpu s) (set_looks a (length made) (length (all_cores s)) iters) 0 0 = Inr (b, n)"
    "wait_on oc a w2 = Some (Inr (Inr (), w'))"
    using run by (auto simp: come_body_def comp_simps)
  have rest: "rest_world w" and len: "length (cprocesses ?c) = length made" using inv by (simp_all add: come_inv_def)
  note own = come_inv_own [OF inv]
  note round = round_ok [OF rest own(1) own(2) [where oc = oc] steps(1,2,4)]
  have step: "fill + unat iters \<le> unat m
      \<and> (\<exists>c. sem_holds (wheap w') (snd (made ! k)) m c \<and> unat c = fill + unat iters)"
    if k: "k < length made" for k
  proof -
    obtain c where c: "sem_holds (wheap w) (snd (made ! k)) m c" "unat c = fill"
      using inv k by (auto simp: come_inv_def)
    obtain h1 h2 where h: "\<forall>x\<in>come_own made k. h1 x = wheap w x" "come_work oc made k iters h1 = Some h2"
      "\<forall>x\<in>come_own made k. wheap w' x = h2 x"
      using round(5) [of k] k len by (auto simp: got_through_def)
    have c1: "sem_holds h1 (snd (made ! k)) m c" using c(1) h(1) by (simp add: sem_holds_def come_own_def)
    have "unat (amt (produce_call iters)) < 2 ^ 31" "op (produce_call iters) = Produce" "unat c < 2 ^ 31"
      using small c(2) by (simp_all add: produce_call_def)
    from call_at_produce [OF c1 this(3,1,2), of oc] h(2) obtain c' where
      "fill + unat iters \<le> unat m" "sem_holds h2 (snd (made ! k)) m c'" "unat c' = fill + unat iters"
      by (auto simp: come_work_def produce_call_def c(2) split: if_splits)
    moreover have "wheap w' (snd (made ! k)) = h2 (snd (made ! k))" using h(3) by (simp add: come_own_def)
    ultimately show ?thesis by (auto simp: sem_holds_def)
  qed
  then show "fill + unat iters \<le> unat m" using \<open>made \<noteq> []\<close> by auto
  show "come_inv made m (fill + unat iters) w'"
    using inv round(1,2) step by (simp add: come_inv_def)
  show "wround w' = wround w \<and> wturn w' = wturn w" using round(4) by simp
  show "v = NaN" if "unat iters < 10" using come_body_nan [OF run] that by simp
qed

text \<open>And a measurement does return when no child dies and the count still fits.\<close>

lemma come_body_through:
  assumes inv: "come_inv made m fill w" and live: "\<And>k. k < length made \<Longrightarrow> \<not> dies a k"
    and fits: "fill + unat iters \<le> unat m" "unat m < 2 ^ 31"
    and counts: "count_sets oc (complex_of_cpu s) (set_looks a (length made) (length (all_cores s)) iters) 0 0 = Inr (b, n)"
  shows "\<exists>w'. come_body oc s made iters a w
    = Some (Inr (Inr (f_sub (Fin 1) (f_div (rnd (of_int (sint b))) (rnd (of_int (sint n))))), w'))"
proof -
  have rest: "rest_world w" and len: "length (cprocesses (wctx w)) = length made" using inv by (simp_all add: come_inv_def)
  note own = come_inv_own [OF inv]
  have pass: "come_work oc made k iters h \<noteq> None"
    if k: "k < length (cprocesses (wctx w))" and h: "\<forall>x\<in>come_own made k. h x = wheap w x" for k h
  proof -
    obtain c where c: "sem_holds (wheap w) (snd (made ! k)) m c" "unat c = fill"
      using inv k len by (auto simp: come_inv_def)
    then have "sem_holds h (snd (made ! k)) m c" using h by (simp add: sem_holds_def come_own_def)
    from call_at_produce [OF this, of "produce_call iters" oc] show ?thesis
      using fits c(2) by (auto simp: come_work_def produce_call_def)
  qed
  have "\<not> dies a k" if "k < length (cprocesses (wctx w))" for k using live that len by simp
  from round_through [where n = iters and oc = oc and a' = a, OF rest own(1) own(2) [where oc = oc] this pass] obtain w1 w2 w3 where
    "start_on oc iters w = Some (Inr ((), w1))" "children_on oc (come_work oc made) a w1 = Some (Inr ((), w2))"
    "wait_on oc a w2 = Some (Inr (Inr (), w3))" by blast
  then show ?thesis
    using counts by (auto simp: come_body_def bind_comp_def try_comp_def of_outcome_def give_def)
qed

lemma come_inv_turn [simp]: "come_inv made m fill (w\<lparr>wturn := k\<rparr>) = come_inv made m fill w"
  by (simp add: come_inv_def rest_world_def)

text \<open>Any number of measurements with metrics: what they hand out fits, all of it.\<close>

lemma come_calls:
  assumes "call_all (measured (come_body oc s made)) cs w = Some (Inr (rs, w'))"
    and "come_inv made m fill w" and "made \<noteq> []" and "fill \<le> unat m" and "100 * unat m < 2 ^ 31"
    and "\<forall>r\<in>set rs. \<exists>v. fst r = Inr v"
    and "cs \<noteq> [] \<longrightarrow> unat (hd cs) < 2 ^ 31"
    and "\<forall>k. Suc k < length cs \<longrightarrow> unat (cs ! Suc k) \<le> 100 * unat (cs ! k)"
  shows "fill + sum_list (map unat cs) \<le> unat m
    \<and> (\<forall>k < length cs. (unat (cs ! k) < 10 \<longrightarrow> fst (rs ! k) = Inr NaN)
      \<and> (\<exists>n. snd (rs ! k) = took (wround w n) (cs ! k)))"
  using assms(1,2,4,6-8)
proof (induction cs arbitrary: w fill rs)
  case (Cons i cs)
  obtain r el w1 rs' where call: "measured (come_body oc s made) i w = Some (Inr ((r, el), w1))"
    and rest: "call_all (measured (come_body oc s made)) cs w1 = Some (Inr (rs', w'))" and rs: "rs = (r, el) # rs'"
    using Cons.prems(1) by (auto simp: comp_simps)
  obtain v where v: "r = Inr v" using Cons.prems(4) by (auto simp: rs)
  let ?w = "w\<lparr>wturn := Suc (wturn w)\<rparr>"
  have a: "el = took (wround w (wturn w)) i" "come_body oc s made i (wround w (wturn w)) ?w = Some (Inr (Inr v, w1))"
    using call unfolding measured_returns v by simp_all
  have i: "unat i < 2 ^ 31" "fill < 2 ^ 31" using Cons.prems(3,5) assms(5) by simp_all
  have "come_inv made m fill ?w" using Cons.prems(2) by simp
  note body = come_body_ok [OF this a(2) i assms(3)]
  have next_small: "cs \<noteq> [] \<longrightarrow> unat (hd cs) < 2 ^ 31"
  proof
    assume "cs \<noteq> []"
    then have "unat (hd cs) \<le> 100 * unat i" using Cons.prems(6) [rule_format, of 0] by (simp add: hd_conv_nth)
    then show "unat (hd cs) < 2 ^ 31" using body(2) assms(5) by simp
  qed
  have steps: "\<forall>k. Suc k < length cs \<longrightarrow> unat (cs ! Suc k) \<le> 100 * unat (cs ! k)"
    using Cons.prems(6) by (metis Suc_less_eq length_Cons nth_Cons_Suc)
  have later: "\<forall>r\<in>set rs'. \<exists>v. fst r = Inr v" using Cons.prems(4) by (simp add: rs)
  note IH = Cons.IH [OF rest body(1,2) later next_small steps]
  have answers: "wround w1 = wround w" using body(3) by simp
  have "(unat ((i # cs) ! k) < 10 \<longrightarrow> fst (rs ! k) = Inr NaN) \<and> (\<exists>n. snd (rs ! k) = took (wround w n) ((i # cs) ! k))"
    if "k < length (i # cs)" for k
  proof (cases k)
    case 0
    then show ?thesis using body(4) a(1) by (auto simp: rs v)
  next
    case (Suc j)
    then show ?thesis using IH that by (simp add: rs answers)
  qed
  then show ?case using IH by simp
qed simp

text \<open>The setup of \<open>come_together\<close>: a semaphore for every process, empty, of the number of cores.\<close>

definition come_values :: "nat \<Rightarrow> (usize list \<times> usize) list \<Rightarrow> (usize \<times> shared_value) list" where
  "come_values n made = map (\<lambda>x. (snd x, SemV (Semaphore_new (word_of_nat n) [] 0))) made"

lemma come_setup_ok:
  assumes "come_setup oc L s w0 = Some (Inr (Inr made, w))" and "rest_world w0" and "cprocesses (wctx w0) = []"
    and "good_layouts L"
  shows "come_inv made (word_of_nat (length (all_cores s)) AND NOT WAITER) 0 w
    \<and> length made = System_complexes s \<and> wround w = wround w0 \<and> wturn w = wturn w0"
proof -
  let ?n = "length (all_cores s)" and ?sem = "SemV (Semaphore_new (word_of_nat (length (all_cores s))) [] 0)"
  define I where "I made w \<longleftrightarrow> rest_world w \<and> length (cprocesses (wctx w)) = length made
      \<and> holds w (come_values ?n (rev made)) \<and> wround w = wround w0 \<and> wturn w = wturn w0" for made :: "(usize list \<times> usize) list" and w
  have lay: "object_layout (l_u32 L)" "object_layout (l_sem L)" using assms(4) by (simp_all add: good_layouts_def)
  have "I (acc @ [y]) w2" if I: "I acc w1"
    and step: "try_comp (each_comp (\<lambda>_. allocate_on oc (l_u32 L) (ItersV 0)) (all_cores s)) (\<lambda>spinners.
       try_comp (allocate_on oc (l_sem L) ?sem) (\<lambda>wakeup.
       try_comp (process_on oc L) (\<lambda>_. give (Inr (spinners, wakeup))))) w1 = Some (Inr (Inr y, w2))"
    for acc w1 y w2
  proof -
    obtain sps wa a wb pid where st: "each_comp (\<lambda>_. allocate_on oc (l_u32 L) (ItersV 0)) (all_cores s) w1 = Some (Inr (Inr sps, wa))"
      "allocate_on oc (l_sem L) ?sem wa = Some (Inr (Inr a, wb))" "process_on oc L wb = Some (Inr (Inr pid, w2))"
      "y = (sps, a)"
      using step by (auto simp: comp_simps)
    let ?xs = "come_values ?n (rev acc)"
    have "rest_world wa \<and> length (cprocesses (wctx wa)) = length acc \<and> holds wa ?xs \<and> wround wa = wround w0 \<and> wturn wa = wturn w0"
    proof -
      have "I acc wc \<Longrightarrow> allocate_on oc (l_u32 L) (ItersV 0) wc = Some (Inr (Inr b, wd)) \<Longrightarrow> I acc wd" for wc b wd
        using allocate_rest [OF _ _ lay(1), of oc "ItersV 0" wc b wd ?xs] by (auto simp: I_def holds_def)
      then have "I acc wa"
        using each_comp_inv [where I = "\<lambda>_. I acc" and acc = "[]", OF st(1) I] by blast
      then show ?thesis by (simp add: I_def)
    qed
    then have "rest_world wb \<and> length (cprocesses (wctx wb)) = length acc \<and> holds wb ((a, ?sem) # ?xs) \<and> wround wb = wround w0 \<and> wturn wb = wturn w0"
      using allocate_rest [OF st(2) _ lay(2), of ?xs] by simp
    then show ?thesis using process_rest [OF st(3) _ assms(4), of "(a, ?sem) # ?xs"] st(4)
      by (simp add: I_def come_values_def)
  qed
  moreover have "I [] w0" using assms(2,3) by (simp add: I_def come_values_def holds_def)
  ultimately have "I ([] @ made) w \<and> length made = length [0 ..< System_complexes s]"
    by (intro each_comp_inv [where I = I and acc = "[]", OF assms(1) [unfolded come_setup_def]])
  then have I: "I made w" "length made = System_complexes s" by simp_all
  then have held: "distinct (map snd made)" "\<forall>x\<in>set made. wheap w (snd x) = Some ?sem \<and> snd x \<notin> set (ctx_objects (wctx w))"
    by (auto simp: I_def holds_def come_values_def comp_def distinct_rev simp flip: rev_map)
  then show ?thesis using I
    by (auto simp: come_inv_def I_def sem_holds_def Semaphore_new_def)
qed

section \<open>Properties\<close>

text \<open>
  C15. What it takes for \<open>come_together\<close> to pass, whatever the scheduler does: its measurements have
  counts that start at one and sum to at most the number of cores, because nothing consumes
  from the processes' semaphores; the last has a count of at least ten, because below that
  nothing is looked at and the metric is not a number, and it took at least a second. So on
  fewer than eleven cores the test cannot pass.
\<close>

theorem come_together_needs_cores:
  assumes "with_context oc env L k made rounds (come_together oc L (Inr s)) = Some (Inr (Inr (), w))"
    and "good_layouts L" and "low_mapping oc env L k" and "length (all_cores s) \<le> 2 ^ 20"
  shows "11 \<le> length (all_cores s)
    \<and> (\<exists>cs :: u32 list. cs \<noteq> [] \<and> hd cs = 1 \<and> 10 \<le> unat (last cs) \<and> sum_list (map unat cs) \<le> length (all_cores s)
      \<and> (\<exists>n. 10 ^ 9 \<le> took (rounds n) (last cs)))"
proof -
  let ?n = "length (all_cores s)" and ?m = "word_of_nat (length (all_cores s)) AND NOT WAITER :: u32"
  obtain w0 w1 where body: "come_together oc L (Inr s) w0 = Some (Inr (Inr (), w1))"
    and w0: "rest_world w0" "cprocesses (wctx w0) = []" "wround w0 = rounds"
    using with_context_rest [OF assms(1-3)] by blast
  then obtain objs w2 v where prepared: "come_setup oc L s w0 = Some (Inr (Inr objs, w2))"
    and loop: "converge_macro_on oc (10 ^ 9) (30 * 10 ^ 9) the_target (measured (come_body oc s objs)) w2 = Some (Inr (v, w1))"
    by (auto simp: come_together_def comp_simps)
  note ready = come_setup_ok [OF prepared w0(1,2) assms(2)]
  have m: "unat ?m = ?n"
  proof -
    have "unat (word_of_nat ?n :: u32) = ?n" using assms(4) by (simp add: unat_of_nat)
    then show ?thesis using amount_small [of "word_of_nat ?n"] assms(4) by (simp add: amount_of_def)
  qed
  have "\<not> f_le the_target (Fin 0)" by (rule not_target) simp
  from converge_macro_on_value [OF loop this] obtain cs rs where
    calls: "call_all (measured (come_body oc s objs)) cs w2 = Some (Inr (rs, w1))" "cs \<noteq> []" "length rs = length cs"
    and cs: "hd cs = 1" "\<forall>k. Suc k < length cs \<longrightarrow> unat (cs ! Suc k) \<le> 100 * unat (cs ! k)"
    and rs: "\<forall>r\<in>set rs. \<exists>x. fst r = Inr x" "fst (last rs) = Inr v" "f_le the_target v" "10 ^ 9 \<le> snd (last rs)"
    by blast
  let ?j = "length cs - 1"
  have "rs \<noteq> []" using calls(2,3) by auto
  then have j: "?j < length cs" "cs ! ?j = last cs" "rs ! ?j = last rs"
    using calls(2,3) by (auto simp: last_conv_nth)
  have "objs \<noteq> []"
  proof
    assume none: "objs = []"
    obtain wa wb where "measured (come_body oc s objs) (cs ! ?j) wa = Some (Inr (last rs, wb))"
      using call_all_nth [OF calls(1) j(1)] j(3) by auto
    then have "v = NaN"
      using come_body_nan [of oc s objs] none rs(2) by (cases "last rs") (auto simp: measured_returns)
    then show False using rs(3) by simp
  qed
  have "fst (last rs) \<noteq> Inr NaN" using rs(2,3) by auto
  note all = come_calls [OF calls(1) ready [THEN conjunct1] \<open>objs \<noteq> []\<close> _ _ rs(1) _ cs(2)]
  have all: "sum_list (map unat cs) \<le> ?n"
    "\<And>j. j < length cs \<Longrightarrow> (unat (cs ! j) < 10 \<longrightarrow> fst (rs ! j) = Inr NaN) \<and> (\<exists>n. snd (rs ! j) = took (rounds n) (cs ! j))"
    using all assms(4) cs(1) m ready w0(3) by auto
  have ten: "10 \<le> unat (last cs)"
    using all(2) [OF j(1)] \<open>fst (last rs) \<noteq> Inr NaN\<close> j by (auto simp: not_less [symmetric])
  have eleven: "11 \<le> sum_list (map unat cs)"
  proof -
    obtain c ds where c: "cs = c # ds" using calls(2) by (cases cs) auto
    then have "c = 1" "ds \<noteq> []" using cs(1) ten by auto
    then have "unat (last cs) \<le> sum_list (map unat ds)" using c by (simp add: member_le_sum_list)
    then show ?thesis using c \<open>c = 1\<close> ten by simp
  qed
  have "\<exists>n. 10 ^ 9 \<le> took (rounds n) (last cs)" using all(2) [OF j(1)] rs(4) j(2,3) by metis
  moreover have "11 \<le> ?n" using eleven all(1) by (rule order_trans)
  ultimately show ?thesis using calls(2) cs(1) ten all(1) by (intro conjI exI [of _ cs])
qed

text \<open>
  On eleven cores in one complex it can pass: the first measurement, of a tenth of a second, asks
  for a count of ten, and the second finds all spinners on that complex.
\<close>

definition eleven_cores :: system where
  "eleven_cores = System_new [Node_new 0 [CoreComplex_new 0 (map (\<lambda>i. Core_new i [Hyperthread_new i]) [0 .. 10])]]"

lemma eleven_shape:
  "all_cores eleven_cores = map (\<lambda>i. Core_new i [Hyperthread_new i]) [0 .. 10]"
  "System_complexes eleven_cores = 1" "complex_of_cpu eleven_cores 0 = Some 0"
  by (simp_all add: eleven_cores_def System_new_def Node_cores_def Node_new_def CoreComplex_new_def
      System_complexes_def complex_of_cpu_def upto.simps Core_new_def Hyperthread_new_def)

lemma eleven_counts:
  "count_sets True (complex_of_cpu eleven_cores) (set_looks (quiet_round t) (Suc 0) 11 1) 0 0 = Inr (0, 0)"
  "count_sets True (complex_of_cpu eleven_cores) (set_looks (quiet_round t) (Suc 0) 11 10) 0 0 = Inr (0, 11)"
  by (simp_all add: set_looks_def quiet_round_def eleven_shape inc_i32_def upt_rec)

lemma come_setup_through:
  assumes "roomy k w" and "k \<le> 2 ^ 10" and "wmade w = (\<lambda>_. ready_child)"
    and "System_complexes s = 1" and "length (all_cores s) \<le> 11"
  shows "\<exists>made w'. come_setup True demo_layouts s w = Some (Inr (Inr [made], w'))"
proof -
  let ?cs = "all_cores s"
  obtain sps w1 where w1: "each_comp (\<lambda>_. allocate_on True layout_b (ItersV 0)) ?cs w = Some (Inr (Inr sps, w1))"
    "roomy (k + 880) w1" "wmade w1 = (\<lambda>_. ready_child)"
    using spinners_through [OF assms(1), of ?cs "ItersV 0"] assms(2,3,5) by (fastforce simp: roomy_def)
  obtain a w2 where w2: "allocate_on True layout_b (SemV (Semaphore_new (word_of_nat (length ?cs)) [] 0)) w1 = Some (Inr (Inr a, w2))"
    "roomy (k + 880 + 80) w2" "wmade w2 = (\<lambda>_. ready_child)"
    using allocate_through [OF w1(2)] w1(3) assms(2) by fastforce
  obtain pid w3 where w3: "process_on True demo_layouts w2 = Some (Inr (Inr pid, w3))"
    using process_through [OF w2(2) _ w2(3)] assms(2) by auto
  have lay: "l_u32 demo_layouts = layout_b" "l_sem demo_layouts = layout_b" by (simp_all add: demo_layouts_def)
  have "come_setup True demo_layouts s w = Some (Inr (Inr [(sps, a)], w3))"
    unfolding come_setup_def lay assms(4) using w1(1) w2(1) w3 by (simp add: comp_simps)
  then show ?thesis by blast
qed

theorem come_together_needs_cores_witness:
  "length (all_cores eleven_cores) = 11
   \<and> (\<exists>w. with_context True env_ok demo_layouts kernel_stdio (\<lambda>_. ready_child) two_rounds
       (come_together True demo_layouts (Inr eleven_cores)) = Some (Inr (Inr (), w))
     \<and> (\<exists>cs :: u32 list. hd cs = 1 \<and> 10 \<le> unat (last cs) \<and> sum_list (map unat cs) \<le> 11))"
proof -
  let ?s = eleven_cores and ?a1 = "quiet_round (10 ^ 8)" and ?a2 = "quiet_round (10 ^ 9)"
  have len: "length (all_cores ?s) = 11" by (simp add: eleven_shape)
  define w0 where "w0 = demo_world two_rounds"
  note w0 = demo_world_ok [of two_rounds, folded w0_def]
  obtain obj w1 where prepared: "come_setup True demo_layouts ?s w0 = Some (Inr (Inr [obj], w1))"
    using come_setup_through [of 64 w0 ?s] w0(3,4) by (auto simp: eleven_shape(2) len)
  define m :: u32 where "m = word_of_nat 11 AND NOT WAITER"
  have m: "unat m = 11" by (simp add: m_def WAITER_def)
  have inv1: "come_inv [obj] m 0 w1" and rounds: "wround w1 = two_rounds" "wturn w1 = 0"
    using come_setup_ok [OF prepared w0(1,2) demo_good] w0(5,6) by (simp_all add: len m_def)
  let ?f = "measured (come_body True ?s [obj])"
  have "come_inv [obj] m 0 (w1\<lparr>wturn := 1\<rparr>)" using inv1 by simp
  from come_body_through [OF this, of ?a1 1 True ?s 0 0] obtain w2 where
    b1: "come_body True ?s [obj] 1 ?a1 (w1\<lparr>wturn := 1\<rparr>) = Some (Inr (Inr NaN, w2))"
    by (auto simp: m len eleven_counts f_sub_def inf_of_sign_def)
  note ok1 = come_body_ok [OF _ b1, of m 0]
  have inv2: "come_inv [obj] m 1 w2" and rounds2: "wround w2 = two_rounds" "wturn w2 = 1"
    using ok1 inv1 rounds by simp_all
  have fl: "rnd 11 = Fin 11" using rnd_nat [of 11] by (simp add: f_of_nat_def)
  have "come_inv [obj] m 1 (w2\<lparr>wturn := 2\<rparr>)" using inv2 by simp
  from come_body_through [OF this, of ?a2 10 True ?s 0 11] obtain w3 where
    b2: "come_body True ?s [obj] 10 ?a2 (w2\<lparr>wturn := 2\<rparr>) = Some (Inr (Inr (Fin 1), w3))"
    by (auto simp: m len eleven_counts f_sub_def fl)
  have calls: "?f 1 w1 = Some (Inr ((Inr NaN, 10 ^ 8), w2))" "?f 10 w2 = Some (Inr ((Inr (Fin 1), 10 ^ 9), w3))"
    using b1 b2 rounds rounds2 by (auto simp: measured_returns two_rounds_def numeral_2_eq_2)
  have "converge_macro_on True (10 ^ 9) (30 * 10 ^ 9) the_target ?f w1 = Some (Inr (Fin 1, w3))"
    using demo_converge [OF calls(1) _ calls(2)] by simp
  then have "come_together True demo_layouts (Inr ?s) w0 = Some (Inr (Inr (), w3))"
    using prepared demo_passes by (simp add: come_together_def comp_simps)
  then have run: "with_context True env_ok demo_layouts kernel_stdio (\<lambda>_. ready_child) two_rounds
      (come_together True demo_layouts (Inr ?s)) = Some (Inr (Inr (), Some w3))"
    unfolding demo_start w0_def by simp
  have "length (all_cores ?s) \<le> 2 ^ 20" by (simp add: len)
  note needs = come_together_needs_cores [OF run demo_good demo_low this]
  from needs obtain cs :: "u32 list" where "hd cs = 1" "10 \<le> unat (last cs)" "sum_list (map unat cs) \<le> 11"
    unfolding len by (elim conjE exE)
  then show ?thesis using run len by (intro conjI exI [of _ "Some w3"] exI [of _ cs])
qed

end
