(* ===== verification/Blocks.thy ===== *)
theory Blocks
  imports Come
begin

text \<open>
  When \<open>come_together\<close> does not return (\<open>cases/topology.rs\<close>): a count that no longer fits blocks the
  children for good, and the parent waits for them as long as they are alive.
\<close>

section \<open>A measurement that blocks\<close>

lemma wait_alive: "False \<notin> set says \<Longrightarrow> Process_wait (map (\<lambda>al. (False, al)) says) = None"
  by (induction says) auto

lemma wait_each_blocks:
  assumes "sem_holds h (pready p) 1 0" and "False \<notin> set (says k)"
  shows "wait_each oc r says ((k, p) # kps) h = None"
  using call_at_one(3) [OF assms(1), of oc] wait_alive [OF assms(2)] by (simp add: wait_one_def)

lemma come_body_blocks:
  assumes inv: "come_inv made m fill w" and alive: "False \<notin> set (alive_says a 0)"
    and small: "fill < 2 ^ 31" "unat iters < 2 ^ 31" and full: "unat m < fill + unat iters" and "made \<noteq> []"
    and counts: "count_sets oc (complex_of_cpu s) (set_looks a (length made) (length (all_cores s)) iters) 0 0 = Inr x"
  shows "come_body oc s made iters a w = None"
proof -
  let ?c = "wctx w"
  have rest: "rest_world w" and len: "length (cprocesses ?c) = length made" using inv by (simp_all add: come_inv_def)
  then obtain p ps where procs: "cprocesses ?c = p # ps" using \<open>made \<noteq> []\<close> by (cases "cprocesses ?c") auto
  then have zero: "0 < length (cprocesses ?c)" "p = cprocesses ?c ! 0" by simp_all
  obtain h1 where h1: "start_on oc iters w = Some (Inr ((), w\<lparr>wheap := h1\<rparr>))" "built ?c h1"
    "\<forall>p\<in>set (cprocesses ?c). started h1 p iters" "\<And>b. b \<notin> set (ctx_objects ?c) \<Longrightarrow> h1 b = wheap w b"
    using start_on_rest [OF rest, of oc iters] by auto
  define h2 where "h2 = fold (one_child oc (come_work oc made) (dies a)) (enumerate 0 (cprocesses ?c)) h1"
  have kids: "children_on oc (come_work oc made) a (w\<lparr>wheap := h1\<rparr>) = Some (Inr ((), w\<lparr>wheap := h2\<rparr>))"
    by (simp add: children_on_def update_comp_def h2_def)
  note own = come_inv_own [OF inv]
  have stuck: "come_work oc made 0 iters h = None" if h: "\<forall>b\<in>come_own made 0. h b = h1 b" for h
  proof -
    obtain c where c: "sem_holds (wheap w) (snd (made ! 0)) m c" "unat c = fill"
      using inv \<open>made \<noteq> []\<close> by (auto simp: come_inv_def)
    have "snd (made ! 0) \<notin> set (ctx_objects ?c)" using own(1) zero(1) by (auto simp: own_objects_def come_own_def)
    then have "sem_holds h (snd (made ! 0)) m c" using c(1) h h1(4) by (simp add: sem_holds_def come_own_def)
    from call_at_produce [OF this, of "produce_call iters" oc] show ?thesis
      using small full c(2) by (simp add: come_work_def produce_call_def)
  qed
  have "sem_holds h2 (pready p) 1 0"
    using children_started(2) [where oc = oc and dead = "dies a", OF h1(2,3) own(1) own(2) [where oc = oc] zero, folded h2_def] stuck
    unfolding got_through_def by fastforce
  then have "wait_on oc a (w\<lparr>wheap := h2\<rparr>) = None"
    using wait_each_blocks alive by (simp add: wait_on_def procs)
  then show ?thesis
    using h1(1) kids counts by (auto simp: come_body_def bind_comp_def try_comp_def of_outcome_def split: prod.split)
qed

section \<open>The counts\<close>

text \<open>After a first measurement of at most ten milliseconds the next count is a hundred.\<close>

lemma scaled_hundred:
  assumes "0 < el" and "el \<le> 10 ^ 7"
  shows "100 \<le> unat (scaled_iters 1 (10 ^ 9) el)"
proof -
  let ?q = "10 ^ 9 / of_nat el :: rat"
  have fl: "f_of_nat (Suc 0) = Fin 1" "f_of_nat 1000000000 = Fin 1000000000" "f_of_nat el = Fin (of_nat el)"
    "rnd 1000000000 = Fin 1000000000" "rnd 100 = Fin 100"
    using rnd_nat [of 1] rnd_nat [of 1000000000] rnd_nat [of el] rnd_nat [of 100] assms(2)
    by (simp_all add: f_of_nat_def)
  have "(of_nat el :: rat) \<le> of_nat (10 ^ 7)" using assms(2) by (rule of_nat_mono)
  then have q: "100 \<le> ?q" using assms(1) by (simp add: le_divide_eq)
  have "f_le (rnd 100) (rnd ?q)" using q by (rule rnd_mono)
  moreover have "rnd ?q \<noteq> NaN" using calculation by auto
  ultimately have "100 \<le> f_to_uint 32 (f_ceil (rnd ?q))"
    unfolding fl by (cases "rnd ?q") (auto simp: f_to_uint_def le_nat_iff le_floor_iff ceiling_mono dest: ceiling_mono)
  moreover have "f_to_uint 32 v < 2 ^ 32" for v by (simp add: f_to_uint_def min_less_iff_disj split: f64.split)
  ultimately show ?thesis
    using assms(1) by (simp add: scaled_iters_def fl unat_of_nat)
qed

lemma next_hundred:
  assumes "el \<le> 10 ^ 7"
  shows "converge_round oc (10 ^ 9) (30 * 10 ^ 9) th (\<lambda>_. (Inr v, el)) 1 = Inr (Again 100)"
proof -
  have half: "(1 :: u32) < half_max" by (simp add: word_less_nat_alt unat_half_max)
  have "grow_iters oc (10 ^ 9) el 1 = Inr 100"
  proof (cases "el = 0")
    case False
    have "100 \<le> scaled_iters 1 (10 ^ 9) el" "\<not> scaled_iters 1 (10 ^ 9) el \<le> 2"
      using scaled_hundred [of el] False assms by (simp_all add: word_le_nat_alt)
    then show ?thesis using False
      by (simp add: grow_iters_def add_ck_def saturating_mul_def min_def max_def)
  qed (simp add: grow_iters_def saturating_mul_def)
  then show ?thesis using assms half by (simp add: converge_round_def)
qed

section \<open>Properties\<close>



end
