(* ===== verification/Spread.thy ===== *)
theory Spread
  imports Demo
begin

text \<open>
  \<open>spread_out\<close> as it runs (\<open>cases/topology.rs\<close>): what a passing run must have seen, and that it
  always ends.
\<close>

section \<open>Spinning children\<close>

lemma spin_own:
  "own_objects c (\<lambda>_. {})" "works_within c (\<lambda>_. spin_work) (\<lambda>_. {})"
  by (simp_all add: own_objects_def works_within_def within_own_def typed_work_def spin_work_def)

lemma rest_turn [simp]: "rest_world (w\<lparr>wturn := k\<rparr>) = rest_world w"
  by (simp add: rest_world_def)

text \<open>A round of spinning children: it returns, if the parent finds out about those that die.\<close>

definition noticed :: "answers_to \<Rightarrow> nat \<Rightarrow> bool" where
  "noticed a n \<longleftrightarrow> (\<forall>k < n. dies a k \<longrightarrow> False \<in> set (alive_says a k))"

lemma wait_noticed: "False \<in> set says \<Longrightarrow> Process_wait (map (\<lambda>al. (False, al)) says) \<noteq> None"
  by (induction says) auto

lemma wait_each_some:
  assumes "\<And>k p. (k, p) \<in> set kps \<Longrightarrow> sem_holds h (pready p) 1 1 \<or> False \<in> set (says k)"
    and "distinct (map (\<lambda>x. pready (snd x)) kps)" and "\<forall>x\<in>set kps. pready (snd x) \<noteq> r"
  shows "wait_each oc r says kps h \<noteq> None"
  using assms
proof (induction kps arbitrary: h)
  case (Cons x kps)
  obtain k p where x: "x = (k, p)" by fastforce
  have one: "wait_one oc (says k) p h \<noteq> None"
    using Cons.prems(1) [of k p] call_at_one(2) [of h "pready p" oc] wait_noticed
    by (auto simp: x wait_one_def split: option.split)
  show ?case
  proof (cases "\<exists>h1. wait_one oc (says k) p h = Some (Inr (), h1)")
    case True
    then obtain h1 where h1: "wait_one oc (says k) p h = Some (Inr (), h1)" by blast
    have "sem_holds (Running_stop r h1) (pready q) 1 1 \<or> False \<in> set (says j)" if q: "(j, q) \<in> set kps" for j q
    proof -
      have "pready q \<noteq> pready p" "pready q \<noteq> r" using Cons.prems(2,3) q by (force simp: x)+
      then have "Running_stop r h1 (pready q) = h (pready q)"
        using wait_one_elsewhere [OF h1] by (simp add: Running_stop_def box_write_def)
      then show ?thesis using Cons.prems(1) [of j q] q by (auto simp: sem_holds_def)
    qed
    with Cons.IH [of "Running_stop r h1"] Cons.prems(2,3) h1 show ?thesis by (simp add: x)
  next
    case False
    then show ?thesis using one by (auto simp: x split: option.split sum.split)
  qed
qed simp

lemma spin_round_some:
  assumes "rest_world w" and "noticed a (length (cprocesses (wctx w)))"
  shows "start_on oc n w \<noteq> None"
    and "start_on oc n w = Some (Inr (u, w1)) \<Longrightarrow> children_on oc (\<lambda>_. spin_work) a w1 = Some (Inr (u', w2)) \<Longrightarrow>
      wait_on oc a w2 \<noteq> None"
proof -
  let ?c = "wctx w" and ?kps = "enumerate 0 (cprocesses (wctx w))"
  obtain h1 where h1: "start_on oc n w = Some (Inr ((), w\<lparr>wheap := h1\<rparr>))" "built ?c h1"
    "\<forall>p\<in>set (cprocesses ?c). started h1 p n"
    using start_on_rest [OF assms(1), of oc n] by auto
  then show "start_on oc n w \<noteq> None" by simp
  define h2 where "h2 = fold (one_child oc (\<lambda>_. spin_work) (dies a)) ?kps h1"
  assume "start_on oc n w = Some (Inr (u, w1))" "children_on oc (\<lambda>_. spin_work) a w1 = Some (Inr (u', w2))"
  then have w2: "w2 = w\<lparr>wheap := h2\<rparr>" using h1(1) by (auto simp: children_on_def comp_simps h2_def)
  have d: "distinct (ctx_objects ?c)" using built_ok [OF h1(2)] by (simp add: ctx_ok_def)
  have "sem_holds h2 (pready p) 1 1 \<or> False \<in> set (alive_says a k)" if "(k, p) \<in> set ?kps" for k p
  proof -
    have k: "k < length (cprocesses ?c)" "p = cprocesses ?c ! k" using that by (auto simp: in_set_enumerate_eq)
    show ?thesis
      using children_started(2) [where oc = oc and dead = "dies a", OF h1(2,3) spin_own k, folded h2_def] assms(2) k
      by (auto simp: noticed_def spin_work_def)
  qed
  then have "wait_each oc (crunning ?c) (alive_says a) ?kps h2 \<noteq> None"
    using readys_apart(1) [OF d] readys_apart(2) [OF d]
    by (intro wait_each_some) (auto simp: in_set_enumerate_eq simp flip: map_map [unfolded comp_def])
  then show "wait_on oc a w2 \<noteq> None" by (auto simp: wait_on_def w2 split: option.split)
qed

lemma spin_round_ok:
  assumes "rest_world w" and "start_on oc n w = Some (Inr (u, w1))"
    and "children_on oc (\<lambda>_. spin_work) a w1 = Some (Inr (u', w2))" and "wait_on oc a w2 = Some (Inr (Inr u'', w3))"
  shows "rest_world w3 \<and> wctx w3 = wctx w \<and> wround w3 = wround w \<and> wturn w3 = wturn w"
  using round_ok [where works = "\<lambda>_. spin_work", OF assms(1) spin_own, of oc n w1 a w2 a u'' w3] assms(2-4) by auto

section \<open>Measurements\<close>

lemma steps_keep:
  "start_on oc n w = Some (Inr (u, w')) \<Longrightarrow> wround w' = wround w"
  "children_on oc works a w = Some (Inr (u', w')) \<Longrightarrow> wround w' = wround w"
  "wait_on oc a w = Some (Inr (r, w')) \<Longrightarrow> wround w' = wround w"
  by (auto simp: start_on_def children_on_def wait_on_def comp_simps split: option.splits)

lemma setup_keeps:
  "allocate_on oc l v w = Some (Inr (r, w')) \<Longrightarrow> wround w' = wround w \<and> wmade w' = wmade w"
  "process_on oc L w = Some (Inr (r', w')) \<Longrightarrow> wround w' = wround w \<and> wmade w' = wmade w"
  by (auto simp: allocate_on_def process_on_def bind_sum_def Let_def comp_simps
      split: sum.splits option.splits prod.splits)

lemma spread_body_keeps: "spread_body oc s made iters a w = Some (Inr (r, w')) \<Longrightarrow> wround w' = wround w"
  by (cases r) (auto simp: spread_body_def comp_simps dest!: steps_keep)

lemma spread_measured_keeps:
  assumes "measured (spread_body oc s made) iters w = Some (Inr (x, w'))"
  shows "wround w' = wround w"
proof -
  obtain r el where "x = (r, el)" by (cases x)
  then show ?thesis using assms spread_body_keeps by (auto simp: measured_returns)
qed

text \<open>A metric of a measurement is that of \<open>Cases\<close> on what the machine has answered.\<close>

lemma spread_body_metric:
  assumes "spread_body oc s made iters a w = Some (Inr (Inr v, w'))"
  shows "spread_metric oc s (map (\<lambda>(_, pid). map_sum id nr_migrations (stats_before a pid)) made)
    (looks a (length made) iters) (Inr ())
    (map (\<lambda>(_, pid). map_sum id nr_migrations (stats_after a pid)) made) = Inr (Inr v)"
  using assms by (auto simp: spread_body_def spread_metric_def comp_simps split: sum.split)

lemma spread_body_through:
  assumes rest: "rest_world w" and "\<And>k. k < length (cprocesses (wctx w)) \<Longrightarrow> \<not> dies a k"
    and "spread_metric oc s (map (\<lambda>(_, pid). map_sum id nr_migrations (stats_before a pid)) made)
      (looks a (length made) iters) (Inr ())
      (map (\<lambda>(_, pid). map_sum id nr_migrations (stats_after a pid)) made) = Inr (Inr v)"
  shows "\<exists>w'. spread_body oc s made iters a w = Some (Inr (Inr v, w')) \<and> rest_world w'
    \<and> wctx w' = wctx w \<and> wround w' = wround w \<and> wturn w' = wturn w"
proof -
  from round_through [where n = iters and oc = oc and a' = a, OF rest spin_own assms(2)] obtain w1 w2 w3 where
    steps: "start_on oc iters w = Some (Inr ((), w1))" "children_on oc (\<lambda>_. spin_work) a w1 = Some (Inr ((), w2))"
    "wait_on oc a w2 = Some (Inr (Inr (), w3))" by (auto simp: spin_work_def)
  then have "spread_body oc s made iters a w = Some (Inr (Inr v, w3))"
    using assms(3)
    by (auto simp: spread_body_def spread_metric_def comp_simps bind_sum_Inr_iff split_outcome split: sum.split_asm)
  then show ?thesis using spin_round_ok [OF rest steps] by blast
qed

lemma all_ok_iff: "all_ok rs = Inr xs \<longleftrightarrow> rs = map Inr xs"
  by (induction rs arbitrary: xs) (auto simp: bind_sum_Inr_iff)

text \<open>With overflow checks no migration of one process makes up for another's.\<close>

lemma delta_none:
  "delta_migrations True bs rs acc = Inr (Inr 0) \<Longrightarrow> length rs = length bs \<Longrightarrow> acc = 0 \<and> rs = map Inr bs"
proof (induction True bs rs acc rule: delta_migrations.induct)
  case (2 b bs a as acc)
  then obtain d acc' where d: "sub_ck True a b = Inr d" "add_ck True acc d = Inr acc'"
    "delta_migrations True bs as acc' = Inr (Inr 0)" by (auto simp: bind_sum_Inr_iff)
  have "acc' = 0 \<and> as = map Inr bs" using 2(1) d 2(3) by simp
  moreover have "acc = 0 \<and> a = b" if "acc' = 0"
  proof -
    have le: "unat b \<le> unat a" and diff: "d = a - b"
      using d(1) by (simp_all add: sub_ck_def not_less word_le_nat_alt split: if_splits)
    have "unat acc + unat d < 2 ^ 64" "acc + d = 0"
      using d(2) that by (simp_all add: add_ck_def split: if_splits)
    then have "unat acc + unat d = 0" using unat_add_no_overflow [of acc d] by simp
    then show ?thesis using diff by (simp add: unat_eq_0)
  qed
  ultimately show ?case by simp
qed auto

section \<open>The setup\<close>

lemma spread_setup_ok:
  assumes "spread_setup oc L s w0 = Some (Inr (Inr made, w))" and "rest_world w0" and "cprocesses (wctx w0) = []"
    and "good_layouts L"
  shows "rest_world w \<and> length (cprocesses (wctx w)) = length (all_cores s) \<and> length made = length (all_cores s)
    \<and> wround w = wround w0 \<and> wturn w = wturn w0"
proof -
  define I where "I made w \<longleftrightarrow> rest_world w \<and> length (cprocesses (wctx w)) = length made
      \<and> wround w = wround w0 \<and> wturn w = wturn w0" for made :: "(usize \<times> int) list" and w
  have lay: "object_layout (l_u32 L)" using assms(4) by (simp add: good_layouts_def)
  have none: "holds w1 []" for w1 by (simp add: holds_def)
  have "I (acc @ [y]) w2" if I: "I acc w1"
    and step: "try_comp (allocate_on oc (l_u32 L) (ItersV 0)) (\<lambda>spinner.
       try_comp (process_on oc L) (\<lambda>handle. give (Inr (spinner, handle)))) w1 = Some (Inr (Inr y, w2))" for acc w1 y w2
  proof -
    obtain a wa pid where st: "allocate_on oc (l_u32 L) (ItersV 0) w1 = Some (Inr (Inr a, wa))"
      "process_on oc L wa = Some (Inr (Inr pid, w2))" using step by (auto simp: comp_simps)
    have r1: "rest_world w1" using I by (simp add: I_def)
    note a = allocate_rest [OF st(1) r1 lay none]
    note p = process_rest [OF st(2) a [THEN conjunct1] assms(4) none]
    show ?thesis using I a p by (simp add: I_def)
  qed
  moreover have "I [] w0" using assms(2,3) by (simp add: I_def)
  ultimately have "I ([] @ made) w \<and> length made = length (all_cores s)"
    by (intro each_comp_inv [where I = I and acc = "[]", OF assms(1) [unfolded spread_setup_def]])
  then show ?thesis by (simp add: I_def)
qed

section \<open>Every run ends\<close>

lemma spread_body_some:
  assumes "rest_world w" and "noticed a (length (cprocesses (wctx w)))"
  shows "spread_body oc s made iters a w \<noteq> None"
proof -
  have wait: "wait_on oc a w2 \<noteq> None"
    if "start_on oc iters w = Some (Inr (u, w1))" "children_on oc (\<lambda>_. spin_work) a w1 = Some (Inr (u', w2))" for u u' w1 w2
    using spin_round_some(2) [OF assms that] .
  have kids: "children_on oc (\<lambda>_. spin_work) a w1 \<noteq> None" for w1 by (simp add: children_on_def)
  show ?thesis unfolding spread_body_def
    by (intro bind_some try_some kids spin_round_some(1) [OF assms] returning)
      (auto simp: comp_simps dest: wait)
qed

lemma spread_body_rest:
  assumes "rest_world w" and "spread_body oc s made iters a w = Some (Inr (Inr v, w'))"
  shows "rest_world w' \<and> wctx w' = wctx w \<and> wround w' = wround w"
proof -
  obtain w1 w2 where "start_on oc iters w = Some (Inr ((), w1))" "children_on oc (\<lambda>_. spin_work) a w1 = Some (Inr ((), w2))"
    "wait_on oc a w2 = Some (Inr (Inr (), w'))" using assms(2) by (auto simp: spread_body_def comp_simps)
  from spin_round_ok [OF assms(1) this] show ?thesis by blast
qed

lemma process_on_some: "Process_wait (made_wait (wmade w (length (cprocesses (wctx w))))) \<noteq> None \<Longrightarrow> process_on oc L w \<noteq> None"
  by (auto simp: process_on_def Let_def give_def split: sum.split option.split prod.split)

lemma spread_setup_some:
  assumes "\<forall>i. Process_wait (made_wait (wmade w i)) \<noteq> None"
  shows "spread_setup oc L s w \<noteq> None"
  unfolding spread_setup_def
proof (rule each_some [where I = "\<lambda>w :: world. \<forall>i. Process_wait (made_wait (wmade w i)) \<noteq> None"])
  fix c :: core and w1 w2 :: world and y
  assume I: "\<forall>i. Process_wait (made_wait (wmade w1 i)) \<noteq> None"
  let ?step = "try_comp (allocate_on oc (l_u32 L) (ItersV 0)) (\<lambda>spinner.
      try_comp (process_on oc L) (\<lambda>handle. give (Inr (spinner, handle))))"
  show "?step w1 \<noteq> None"
  proof (rule try_some)
    show "allocate_on oc (l_u32 L) (ItersV 0) w1 \<noteq> None" by (simp add: allocate_on_def)
    fix a wa assume a: "allocate_on oc (l_u32 L) (ItersV 0) w1 = Some (Inr (Inr a, wa))"
    have "process_on oc L wa \<noteq> None" using I setup_keeps(1) [OF a] by (intro process_on_some) simp
    then show "try_comp (process_on oc L) (\<lambda>handle. give (Inr (a, handle))) wa \<noteq> None" by (intro try_some) simp_all
  qed
  show "\<forall>i. Process_wait (made_wait (wmade w2 i)) \<noteq> None" if "?step w1 = Some (Inr (Inr y, w2))"
    using that I by (auto simp: comp_simps dest!: setup_keeps)
qed (rule assms)

lemma with_context_some:
  assumes "\<And>w0. rest_world w0 \<Longrightarrow> cprocesses (wctx w0) = [] \<Longrightarrow> wmade w0 = made \<Longrightarrow> wround w0 = rounds \<Longrightarrow> body w0 \<noteq> None"
    and "good_layouts L" and "low_mapping oc env L k"
  shows "with_context oc env L k made rounds body \<noteq> None"
proof -
  have "body \<lparr>wctx = c, wheap = h, wmade = made, wround = rounds, wturn = 0\<rparr> \<noteq> None"
    if c: "Context_create oc env (l_flag L) (k, Map.empty) = (Inr (Inr c), k', h)" for c k' h
  proof -
    have "built c h" using b_create [OF c] assms(2,3) c by (auto simp: good_layouts_def low_mapping_def)
    moreover have "cprocesses c = []" using c by (auto simp: Context_create_def split: prod.splits sum.splits)
    ultimately show ?thesis by (intro assms(1)) (simp_all add: rest_world_def)
  qed
  then show ?thesis by (auto simp: with_context_def split: prod.split sum.split option.split)
qed

section \<open>Properties\<close>

lemma spread_setup_keeps:
  assumes "spread_setup oc L s w = Some (Inr (Inr made, w'))"
  shows "wround w' = wround w \<and> length made = length (all_cores s)"
proof -
  have "wround w2 = wround w1" if "try_comp (allocate_on oc (l_u32 L) (ItersV 0)) (\<lambda>spinner.
      try_comp (process_on oc L) (\<lambda>handle. give (Inr (spinner, handle)))) w1 = Some (Inr (Inr y, w2))" for w1 y w2
    using that by (auto simp: comp_simps dest!: setup_keeps)
  then have "wround w' = wround w \<and> length made = length (all_cores s)"
    using each_comp_inv [where I = "\<lambda>_ w1. wround w1 = wround w" and acc = "[]", OF assms [unfolded spread_setup_def]]
    by (metis (no_types, lifting))
  then show ?thesis .
qed

lemma with_context_body:
  assumes "with_context oc env L k made rounds body = Some (Inr (Inr (), w))"
  obtains w0 w' where "body w0 = Some (Inr (Inr (), w'))" and "wround w0 = rounds"
  using assms that [of "\<lparr>wctx = c, wheap = h, wmade = made, wround = rounds, wturn = 0\<rparr>" for c h]
  by (auto simp: with_context_def split: prod.splits sum.splits option.splits)


text \<open>On one core it can pass.\<close>

lemma one_core_metric:
  "spread_metric True one_core [Inr 0] (looks (quiet_round t) (Suc 0) 1) (Inr ()) [Inr 0] = Inr (Inr (Fin 0))"
  "spread_metric True one_core [Inr 0] (looks (quiet_round t) (Suc 0) 10) (Inr ()) [Inr 0] = Inr (Inr (Fin 1))"
proof -
  have "f_of_nat (Suc 0) = Fin 1" "f_of_nat 0 = Fin 0" using rnd_nat [of 1] rnd_nat [of 0] by simp_all
  moreover have "rnd 0 = Fin 0" "rnd 1 = Fin 1" using rnd_nat [of 0] rnd_nat [of 1] by (simp_all add: f_of_nat_def)
  moreover have "core_of_cpu (all_cores one_core) = [0 \<mapsto> 0]"
    by (simp add: one_core_shape core_of_cpu_def Core_new_def Hyperthread_new_def)
  ultimately show "spread_metric True one_core [Inr 0] (looks (quiet_round t) (Suc 0) 1) (Inr ()) [Inr 0] = Inr (Inr (Fin 0))"
    and "spread_metric True one_core [Inr 0] (looks (quiet_round t) (Suc 0) 10) (Inr ()) [Inr 0] = Inr (Inr (Fin 1))"
    by (simp_all add: spread_metric_def looks_def quiet_round_def one_core_shape note_cpu_def inc_i32_def
        sub_ck_def add_ck_def upt_rec)
qed

lemma spread_setup_through:
  assumes "roomy k w" and "k \<le> 2 ^ 10" and "wmade w = (\<lambda>_. ready_child)"
  shows "\<exists>x w'. spread_setup True demo_layouts one_core w = Some (Inr (Inr [x], w'))"
proof -
  obtain a w1 where w1: "allocate_on True layout_b (ItersV 0) w = Some (Inr (Inr a, w1))"
    "roomy (k + 80) w1" "wmade w1 = (\<lambda>_. ready_child)"
    using allocate_through [OF assms(1)] assms(2,3) by fastforce
  obtain pid w2 where w2: "process_on True demo_layouts w1 = Some (Inr (Inr pid, w2))"
    using process_through [OF w1(2) _ w1(3)] assms(2) by auto
  have lay: "l_u32 demo_layouts = layout_b" by (simp add: demo_layouts_def)
  have "spread_setup True demo_layouts one_core w = Some (Inr (Inr [(a, pid)], w2))"
    unfolding spread_setup_def lay one_core_shape using w1(1) w2 by (simp add: comp_simps)
  then show ?thesis by blast
qed


text \<open>
  C18. \<open>spread_out\<close> always ends, with a verdict, an error or a panic, when the waits for the new children
  end, the parent finds out about every child that dies in a round, and a measurement takes at
  least \<open>c\<close> nanoseconds for each count and never exactly the maximum of thirty seconds.
\<close>

theorem spread_out_always_ends:
  assumes "good_layouts L" and "low_mapping oc env L k"
    and "\<forall>i. Process_wait (made_wait (made i)) \<noteq> None"
    and "\<forall>s i. loaded = Inr s \<longrightarrow> noticed (rounds i) (length (all_cores s))"
    and "30 * 10 ^ 9 < c * (2 ^ 31 - 1)" and "\<forall>i n. c * unat n \<le> took (rounds i) n \<and> took (rounds i) n \<noteq> 30 * 10 ^ 9"
  shows "with_context oc env L k made rounds (spread_out oc L loaded) \<noteq> None"
proof (rule with_context_some [OF _ assms(1,2)])
  fix w0 assume w0: "rest_world w0" "cprocesses (wctx w0) = []" "wmade w0 = made" "wround w0 = rounds"
  have loop: "converge_macro_on oc (10 ^ 9) (30 * 10 ^ 9) the_target (measured (spread_body oc s objs)) w \<noteq> None"
    if s: "loaded = Inr s" and prepared: "spread_setup oc L s w0 = Some (Inr (Inr objs, w))" for s objs w
  proof -
    let ?f = "measured (spread_body oc s objs)"
    let ?I = "\<lambda>w. rest_world w \<and> length (cprocesses (wctx w)) = length (all_cores s) \<and> wround w = rounds"
    have start: "?I w" using spread_setup_ok [OF prepared w0(1,2) assms(1)] w0(4) by simp
    have some: "?f i w1 \<noteq> None" if I: "?I w1" for i w1
    proof -
      let ?a = "wround w1 (wturn w1)"
      have "spread_body oc s objs i ?a (w1\<lparr>wturn := Suc (wturn w1)\<rparr>) \<noteq> None"
        using I assms(4) s by (intro spread_body_some) simp_all
      then show ?thesis by (auto simp: measured_def answers_on_def give_def bind_comp_def split: option.split sum.split)
    qed
    have step: "?I w2 \<and> c * unat i \<le> el \<and> el \<noteq> 30 * 10 ^ 9"
      if I: "?I w1" and call: "?f i w1 = Some (Inr ((Inr v, el), w2))" for i w1 v el w2
    proof -
      have run: "spread_body oc s objs i (wround w1 (wturn w1)) (w1\<lparr>wturn := Suc (wturn w1)\<rparr>) = Some (Inr (Inr v, w2))"
        and el: "el = took (rounds (wturn w1)) i" using call I by (simp_all add: measured_returns)
      have "rest_world (w1\<lparr>wturn := Suc (wturn w1)\<rparr>)" using I by simp
      from spread_body_rest [OF this run] show ?thesis using I el assms(6) by simp
    qed
    have pos: "0 < c" using assms(5) by (cases c) auto
    have "converge_from oc (10 ^ 9) (30 * 10 ^ 9) the_target ?f 1 w \<noteq> None"
      by (rule converge_from_ends [where I = ?I and f = ?f, OF pos assms(5) some step start]) simp_all
    then show ?thesis unfolding converge_macro_on_def
      by (intro bind_some returning) (simp add: converge_on_def or_default_def)
  qed
  have ready: "spread_setup oc L s w0 \<noteq> None" for s using assms(3) w0(3) by (intro spread_setup_some) simp
  show "spread_out oc L loaded w0 \<noteq> None" unfolding spread_out_def
  proof (intro try_some returning)
    fix s w1 assume "give loaded w0 = Some (Inr (Inr s, w1))"
    then have s: "loaded = Inr s" "w1 = w0" by (simp_all add: comp_simps)
    show "bind_comp (of_outcome (vec_index (all_cores s) 0)) (\<lambda>_.
        try_comp (spread_setup oc L s) (\<lambda>made.
        bind_comp (converge_macro_on oc (10 ^ 9) (30 * 10 ^ 9) the_target (measured (spread_body oc s made))) (\<lambda>final.
        give (check_target final the_target ''Failed to achieve target'')))) w1 \<noteq> None"
      by (intro bind_some try_some returning) (use s ready loop in \<open>auto simp: comp_simps\<close>)
  qed
qed

text \<open>
  The one-core machine with spinners that are never seen anywhere: every measurement takes twenty
  nanoseconds for each count and fails, and the run ends all the same.
\<close>

definition slow_rounds :: "nat \<Rightarrow> answers_to" where
  "slow_rounds i = (quiet_round 0)\<lparr>seen_on := (\<lambda>_ _. 1), took := (\<lambda>n. 1 + 20 * unat n)\<rparr>"

theorem spread_out_always_ends_witness:
  "with_context True env_ok demo_layouts kernel_stdio (\<lambda>_. ready_child) slow_rounds
     (spread_out True demo_layouts (Inr one_core)) \<noteq> None"
proof (rule spread_out_always_ends [OF demo_good demo_low, where c = 20])
  have "1 + 20 * unat (n :: u32) \<noteq> 30 * 10 ^ 9" for n by presburger
  then show "\<forall>i n. 20 * unat n \<le> took (slow_rounds i) n \<and> took (slow_rounds i) n \<noteq> 30 * 10 ^ 9"
    by (simp add: slow_rounds_def)
qed (simp_all add: ready_child_def noticed_def slow_rounds_def quiet_round_def)

end
